theory Spec2Isabelle
  imports Complex_Main "HOL-Library.Word" "HOL-Library.Multiset" "HOL-Library.Sublist"
begin

section \<open>JavaScript numbers\<close>

text \<open>
  A JavaScript number is modelled as a real number or one of the three special values of
  IEEE-754 arithmetic. The special values follow the IEEE rules (\<open>Infinity - Infinity\<close>,
  \<open>0 * Infinity\<close> and \<open>0 / 0\<close> are \<open>NaN\<close>, every comparison with \<open>NaN\<close> is false, a
  non-zero number divided by zero is an infinity). Finite values are idealised: arithmetic
  on them is exact (no rounding, no overflow), and zero carries no sign (it behaves as
  \<open>+0\<close>). Two places write the rounding out: a store to a \<open>Float32Array\<close> rounds to a
  32-bit float (\<open>Math_fround\<close>), and \<open>rayTriX_fl\<close> is the ray test with every operation
  rounded.
\<close>

datatype jsnum = Fin real | PInf | NInf | NaN

fun jadd :: "jsnum \<Rightarrow> jsnum \<Rightarrow> jsnum" where
  "jadd NaN _ = NaN"
| "jadd _ NaN = NaN"
| "jadd PInf NInf = NaN"
| "jadd NInf PInf = NaN"
| "jadd PInf _ = PInf"
| "jadd _ PInf = PInf"
| "jadd NInf _ = NInf"
| "jadd _ NInf = NInf"
| "jadd (Fin a) (Fin b) = Fin (a + b)"

fun jneg :: "jsnum \<Rightarrow> jsnum" where
  "jneg (Fin a) = Fin (- a)"
| "jneg PInf = NInf"
| "jneg NInf = PInf"
| "jneg NaN = NaN"

fun jmul :: "jsnum \<Rightarrow> jsnum \<Rightarrow> jsnum" where
  "jmul NaN _ = NaN"
| "jmul _ NaN = NaN"
| "jmul (Fin a) (Fin b) = Fin (a * b)"
| "jmul (Fin a) PInf = (if a = 0 then NaN else if 0 < a then PInf else NInf)"
| "jmul (Fin a) NInf = (if a = 0 then NaN else if 0 < a then NInf else PInf)"
| "jmul PInf (Fin b) = (if b = 0 then NaN else if 0 < b then PInf else NInf)"
| "jmul NInf (Fin b) = (if b = 0 then NaN else if 0 < b then NInf else PInf)"
| "jmul PInf PInf = PInf"
| "jmul PInf NInf = NInf"
| "jmul NInf PInf = NInf"
| "jmul NInf NInf = PInf"

fun jdiv :: "jsnum \<Rightarrow> jsnum \<Rightarrow> jsnum" where
  "jdiv NaN _ = NaN"
| "jdiv _ NaN = NaN"
| "jdiv (Fin a) (Fin b) =
     (if b \<noteq> 0 then Fin (a / b)
      else if a = 0 then NaN else if 0 < a then PInf else NInf)"
| "jdiv (Fin a) PInf = Fin 0"
| "jdiv (Fin a) NInf = Fin 0"
| "jdiv PInf (Fin b) = (if 0 \<le> b then PInf else NInf)"
| "jdiv NInf (Fin b) = (if 0 \<le> b then NInf else PInf)"
| "jdiv PInf PInf = NaN"
| "jdiv PInf NInf = NaN"
| "jdiv NInf PInf = NaN"
| "jdiv NInf NInf = NaN"

fun jlt :: "jsnum \<Rightarrow> jsnum \<Rightarrow> bool" where
  "jlt NaN _ = False"
| "jlt _ NaN = False"
| "jlt (Fin a) (Fin b) = (a < b)"
| "jlt (Fin a) PInf = True"
| "jlt (Fin a) NInf = False"
| "jlt PInf _ = False"
| "jlt NInf (Fin b) = True"
| "jlt NInf PInf = True"
| "jlt NInf NInf = False"

fun jle :: "jsnum \<Rightarrow> jsnum \<Rightarrow> bool" where
  "jle NaN _ = False"
| "jle _ NaN = False"
| "jle (Fin a) (Fin b) = (a \<le> b)"
| "jle (Fin a) PInf = True"
| "jle (Fin a) NInf = False"
| "jle PInf (Fin b) = False"
| "jle PInf PInf = True"
| "jle PInf NInf = False"
| "jle NInf _ = True"

instantiation jsnum :: "{plus, minus, uminus, times, divide, ord}"
begin

definition plus_jsnum :: "jsnum \<Rightarrow> jsnum \<Rightarrow> jsnum" where
  "a + b = jadd a b"

definition uminus_jsnum :: "jsnum \<Rightarrow> jsnum" where
  "- a = jneg a"

definition minus_jsnum :: "jsnum \<Rightarrow> jsnum \<Rightarrow> jsnum" where
  "a - b = jadd a (jneg b)"

definition times_jsnum :: "jsnum \<Rightarrow> jsnum \<Rightarrow> jsnum" where
  "a * b = jmul a b"

definition divide_jsnum :: "jsnum \<Rightarrow> jsnum \<Rightarrow> jsnum" where
  "a div b = jdiv a b"

definition less_jsnum :: "jsnum \<Rightarrow> jsnum \<Rightarrow> bool" where
  "a < b \<longleftrightarrow> jlt a b"

definition less_eq_jsnum :: "jsnum \<Rightarrow> jsnum \<Rightarrow> bool" where
  "a \<le> b \<longleftrightarrow> jle a b"

instance ..

end

text \<open>\<open>Math.abs\<close>, \<open>Math.floor\<close>, \<open>Math.sqrt\<close>, \<open>Math.max\<close> and \<open>Math.min\<close>.\<close>

fun Math_abs :: "jsnum \<Rightarrow> jsnum" where
  "Math_abs (Fin a) = Fin \<bar>a\<bar>"
| "Math_abs PInf = PInf"
| "Math_abs NInf = PInf"
| "Math_abs NaN = NaN"

fun Math_floor :: "jsnum \<Rightarrow> jsnum" where
  "Math_floor (Fin a) = Fin (of_int \<lfloor>a\<rfloor>)"
| "Math_floor PInf = PInf"
| "Math_floor NInf = NInf"
| "Math_floor NaN = NaN"

fun Math_sqrt :: "jsnum \<Rightarrow> jsnum" where
  "Math_sqrt (Fin a) = (if a < 0 then NaN else Fin (sqrt a))"
| "Math_sqrt PInf = PInf"
| "Math_sqrt NInf = NaN"
| "Math_sqrt NaN = NaN"

fun Math_max :: "jsnum \<Rightarrow> jsnum \<Rightarrow> jsnum" where
  "Math_max NaN _ = NaN"
| "Math_max _ NaN = NaN"
| "Math_max a b = (if jlt a b then b else a)"

fun Math_min :: "jsnum \<Rightarrow> jsnum \<Rightarrow> jsnum" where
  "Math_min NaN _ = NaN"
| "Math_min _ NaN = NaN"
| "Math_min a b = (if jlt b a then b else a)"

fun is_finite :: "jsnum \<Rightarrow> bool" where
  "is_finite (Fin _) = True"
| "is_finite _ = False"

text \<open>
  Rounding to a binary floating-point format with \<open>p\<close> significant bits and the least
  exponent \<open>emin\<close>: to the nearest number of the format, a tie going to the even
  significand. A number with exponent \<open>e\<close> (at least \<open>emin\<close>, below which the subnormal
  numbers share the spacing of \<open>emin\<close>) is a multiple of \<open>2\<^sup>e\<^sup>-\<^sup>p\<^sup>+\<^sup>1\<close>. The 32-bit floats
  have \<open>p = 24\<close> and \<open>emin = -126\<close>, the 64-bit floats of JavaScript's arithmetic \<open>p = 53\<close>
  and \<open>emin = -1022\<close>.
\<close>

definition round_even :: "real \<Rightarrow> int" where
  "round_even m =
     (let f = \<lfloor>m\<rfloor>
      in if m - of_int f < 1 / 2 then f
         else if 1 / 2 < m - of_int f then f + 1
         else if even f then f else f + 1)"

definition bin_exponent :: "int \<Rightarrow> real \<Rightarrow> int" where
  "bin_exponent emin x = max \<lfloor>log 2 \<bar>x\<bar>\<rfloor> emin"

definition bin_ulp :: "nat \<Rightarrow> int \<Rightarrow> real \<Rightarrow> real" where
  "bin_ulp p emin x = power_int 2 (bin_exponent emin x - (int p - 1))"

definition bin_round :: "nat \<Rightarrow> int \<Rightarrow> real \<Rightarrow> real" where
  "bin_round p emin x = of_int (round_even (x / bin_ulp p emin x)) * bin_ulp p emin x"

definition f32_round :: "real \<Rightarrow> real" where
  "f32_round = bin_round 24 (- 126)"

definition f64_round :: "real \<Rightarrow> real" where
  "f64_round = bin_round 53 (- 1022)"

text \<open>
  Storing a number in a \<open>Float32Array\<close> rounds it to a 32-bit float; a result of magnitude
  \<open>2\<^sup>1\<^sup>2\<^sup>8\<close> or more is stored as an infinity. Unlike the 64-bit arithmetic, this rounding
  is part of the model of the mesh: its vertices live in such an array.
\<close>

definition max_float32 :: real where
  "max_float32 = (2 ^ 24 - 1) * 2 ^ 104"

fun Math_fround :: "jsnum \<Rightarrow> jsnum" where
  "Math_fround (Fin x) =
     (if 2 ^ 128 \<le> \<bar>f32_round x\<bar> then (if x < 0 then NInf else PInf) else Fin (f32_round x))"
| "Math_fround PInf = PInf"
| "Math_fround NInf = NInf"
| "Math_fround NaN = NaN"

section \<open>Vectors\<close>

text \<open>
  \<open>THREE.Vector3\<close>. The fields are called \<open>x\<close>, \<open>y\<close>, \<open>z\<close> in the library; they carry a
  prefix here so that the letters stay free for variables.
\<close>

record vec3 =
  vx :: jsnum
  vy :: jsnum
  vz :: jsnum

definition Vector3 :: "jsnum \<Rightarrow> jsnum \<Rightarrow> jsnum \<Rightarrow> vec3" where
  "Vector3 a b c = \<lparr>vx = a, vy = b, vz = c\<rparr>"

text \<open>The methods of \<open>THREE.Vector3\<close> that the layout code calls (three.js, \<open>Vector3.js\<close>).\<close>

definition subVectors :: "vec3 \<Rightarrow> vec3 \<Rightarrow> vec3" where
  "subVectors a b = Vector3 (vx a - vx b) (vy a - vy b) (vz a - vz b)"

definition add :: "vec3 \<Rightarrow> vec3 \<Rightarrow> vec3" where
  "add a b = Vector3 (vx a + vx b) (vy a + vy b) (vz a + vz b)"

definition sub :: "vec3 \<Rightarrow> vec3 \<Rightarrow> vec3" where
  "sub a b = Vector3 (vx a - vx b) (vy a - vy b) (vz a - vz b)"

definition multiplyScalar :: "vec3 \<Rightarrow> jsnum \<Rightarrow> vec3" where
  "multiplyScalar a s = Vector3 (vx a * s) (vy a * s) (vz a * s)"

definition addScaledVector :: "vec3 \<Rightarrow> vec3 \<Rightarrow> jsnum \<Rightarrow> vec3" where
  "addScaledVector a b s = Vector3 (vx a + vx b * s) (vy a + vy b * s) (vz a + vz b * s)"

definition lengthSq :: "vec3 \<Rightarrow> jsnum" where
  "lengthSq a = vx a * vx a + vy a * vy a + vz a * vz a"

definition length_vec :: "vec3 \<Rightarrow> jsnum" where
  "length_vec a = Math_sqrt (vx a * vx a + vy a * vy a + vz a * vz a)"

text \<open>\<open>l || 1\<close>: zero and \<open>NaN\<close> are falsy.\<close>

fun or_one :: "jsnum \<Rightarrow> jsnum" where
  "or_one (Fin a) = (if a = 0 then Fin 1 else Fin a)"
| "or_one NaN = Fin 1"
| "or_one PInf = PInf"
| "or_one NInf = NInf"

definition divideScalar :: "vec3 \<Rightarrow> jsnum \<Rightarrow> vec3" where
  "divideScalar a s = multiplyScalar a (Fin 1 div s)"

definition normalize :: "vec3 \<Rightarrow> vec3" where
  "normalize a = divideScalar a (or_one (length_vec a))"

definition distanceToSquared :: "vec3 \<Rightarrow> vec3 \<Rightarrow> jsnum" where
  "distanceToSquared a b =
     (let dx = vx a - vx b; dy = vy a - vy b; dz = vz a - vz b
      in dx * dx + dy * dy + dz * dz)"

text \<open>Points with real coordinates, and the vector of a point.\<close>

type_synonym pt = "real \<times> real \<times> real"

definition vfin :: "pt \<Rightarrow> vec3" where
  "vfin p = (case p of (a, b, c) \<Rightarrow> Vector3 (Fin a) (Fin b) (Fin c))"

definition finite_vec :: "vec3 \<Rightarrow> bool" where
  "finite_vec a \<longleftrightarrow> is_finite (vx a) \<and> is_finite (vy a) \<and> is_finite (vz a)"

section \<open>Ray-triangle intersection\<close>

definition EPSILON :: jsnum where
  "EPSILON = Fin (1 / 10 ^ 8)"

text \<open>
  \<open>_rayTriX\<close>: Moeller-Trumbore for a ray along +X with origin \<open>(rayOX, wy, wz)\<close>. The
  result is the world-X coordinate of the hit, or \<open>None\<close> for JavaScript's \<open>null\<close>.
\<close>

definition rayTriX :: "jsnum \<Rightarrow> jsnum \<Rightarrow> jsnum \<Rightarrow> vec3 \<Rightarrow> vec3 \<Rightarrow> vec3 \<Rightarrow> jsnum option" where
  "rayTriX rayOX wy wz v0 v1 v2 =
     (let e1x = vx v1 - vx v0; e1y = vy v1 - vy v0; e1z = vz v1 - vz v0;
          e2x = vx v2 - vx v0; e2y = vy v2 - vy v0; e2z = vz v2 - vz v0;
          hy = - e2z; hz = e2y;
          a = e1y * hy + e1z * hz
      in if Math_abs a < EPSILON then None
         else
           let f = Fin 1 div a;
               sx = rayOX - vx v0; sy = wy - vy v0; sz = wz - vz v0;
               u = f * (sy * hy + sz * hz)
           in if u < - EPSILON \<or> u > Fin 1 + EPSILON then None
              else
                let qx = sy * e1z - sz * e1y;
                    qy = sz * e1x - sx * e1z;
                    qz = sx * e1y - sy * e1x;
                    v = f * qx
                in if v < - EPSILON \<or> u + v > Fin 1 + EPSILON then None
                   else
                     let t = f * (e2x * qx + e2y * qy + e2z * qz)
                     in if t < EPSILON then None else Some (rayOX + t))"

text \<open>
  The textbook form of the method, over the reals, for the ray direction \<open>(1, 0, 0)\<close>:
  \<open>h = dir \<times> e2\<close>, \<open>a = e1 \<cdot> h\<close>, \<open>s = orig - p0\<close>, \<open>u = (s \<cdot> h) / a\<close>, \<open>q = s \<times> e1\<close>,
  \<open>v = (dir \<cdot> q) / a\<close>, \<open>t = (e2 \<cdot> q) / a\<close>.
\<close>

fun cross :: "pt \<Rightarrow> pt \<Rightarrow> pt" where
  "cross (a1, a2, a3) (b1, b2, b3) = (a2 * b3 - a3 * b2, a3 * b1 - a1 * b3, a1 * b2 - a2 * b1)"

fun dot :: "pt \<Rightarrow> pt \<Rightarrow> real" where
  "dot (a1, a2, a3) (b1, b2, b3) = a1 * b1 + a2 * b2 + a3 * b3"

fun psub :: "pt \<Rightarrow> pt \<Rightarrow> pt" where
  "psub (a1, a2, a3) (b1, b2, b3) = (a1 - b1, a2 - b2, a3 - b3)"

fun padd :: "pt \<Rightarrow> pt \<Rightarrow> pt" where
  "padd (a1, a2, a3) (b1, b2, b3) = (a1 + b1, a2 + b2, a3 + b3)"

fun pscale :: "real \<Rightarrow> pt \<Rightarrow> pt" where
  "pscale c (a1, a2, a3) = (c * a1, c * a2, c * a3)"

text \<open>The coordinates of a point.\<close>

fun px :: "pt \<Rightarrow> real" where
  "px (a, b, c) = a"

fun py :: "pt \<Rightarrow> real" where
  "py (a, b, c) = b"

fun pz :: "pt \<Rightarrow> real" where
  "pz (a, b, c) = c"

definition xdir :: pt where
  "xdir = (1, 0, 0)"

definition eps :: real where
  "eps = 1 / 10 ^ 8"

text \<open>The Euclidean norm and the unit vector of a point (the zero vector has none).\<close>

definition pnorm :: "pt \<Rightarrow> real" where
  "pnorm p = sqrt (dot p p)"

definition punit :: "pt \<Rightarrow> pt" where
  "punit p = (if p = (0, 0, 0) then (0, 0, 0) else pscale (1 / pnorm p) p)"

definition mt_a :: "pt \<Rightarrow> pt \<Rightarrow> pt \<Rightarrow> real" where
  "mt_a p0 p1 p2 = dot (psub p1 p0) (cross xdir (psub p2 p0))"

definition mt_u :: "pt \<Rightarrow> pt \<Rightarrow> pt \<Rightarrow> pt \<Rightarrow> real" where
  "mt_u orig p0 p1 p2 = dot (psub orig p0) (cross xdir (psub p2 p0)) / mt_a p0 p1 p2"

definition mt_v :: "pt \<Rightarrow> pt \<Rightarrow> pt \<Rightarrow> pt \<Rightarrow> real" where
  "mt_v orig p0 p1 p2 = dot xdir (cross (psub orig p0) (psub p1 p0)) / mt_a p0 p1 p2"

definition mt_t :: "pt \<Rightarrow> pt \<Rightarrow> pt \<Rightarrow> pt \<Rightarrow> real" where
  "mt_t orig p0 p1 p2 = dot (psub p2 p0) (cross (psub orig p0) (psub p1 p0)) / mt_a p0 p1 p2"

text \<open>
  The same function with the rounding of its arithmetic written out: every operation of
  the source, and the literal \<open>1e-8\<close>, is followed by the rounding \<open>rr\<close> of finite numbers.
  With the identity for \<open>rr\<close> this is \<open>rayTriX\<close>, the function in exact arithmetic; with
  \<open>f64_round\<close> it is the function in the arithmetic of JavaScript (overflow apart).
\<close>

fun rounded :: "(real \<Rightarrow> real) \<Rightarrow> jsnum \<Rightarrow> jsnum" where
  "rounded rr (Fin x) = Fin (rr x)"
| "rounded rr PInf = PInf"
| "rounded rr NInf = NInf"
| "rounded rr NaN = NaN"









section \<open>The layout state\<close>

definition GRID_SIZE :: nat where
  "GRID_SIZE = 32"

definition SUB_STEPS :: nat where
  "SUB_STEPS = 3"

definition FIXED_DT :: jsnum where
  "FIXED_DT = Fin 1 div (Fin 60 * Fin (real SUB_STEPS))"

definition MIN_DIST_SQ :: jsnum where
  "MIN_DIST_SQ = Fin (9 / 100)"

text \<open>\<open>GRID_SIZE\<close> as the JavaScript number the arithmetic uses.\<close>

definition G :: jsnum where
  "G = Fin (real GRID_SIZE)"

record bounds =
  bmin :: vec3
  bmax :: vec3
  bsize :: vec3

record cell =
  ix :: nat
  iy :: nat
  iz :: nat

record neuron =
  pos :: vec3
  prev :: vec3
  vel :: vec3
  force :: vec3
  layer :: nat
  index :: nat

text \<open>
  The fields of an \<open>STLLayout\<close> instance. \<open>voxels\<close> is the \<open>Uint8Array\<close>; \<open>bounds\<close> and
  \<open>voxels\<close> are \<open>null\<close> before the first load and are modelled from the moment
  \<open>loadFile\<close> has assigned them (every method below that reads them runs after that).
\<close>

record layout =
  kRepel :: jsnum
  kLayer :: jsnum
  kBoundary :: jsnum
  damping :: jsnum
  voxels :: "8 word list"
  insideCache :: "cell list"
  bounds :: bounds
  neurons :: "neuron list"
  layerTargets :: "vec3 list"
  positions :: "vec3 list list"
  rafId :: "nat option"
  isLoaded :: bool
  energy :: jsnum

text \<open>The exception that reading a property of \<open>undefined\<close> raises.\<close>

datatype js_error = TypeError

text \<open>
  Reading a typed array at a JavaScript number: an element for an integer index inside
  the array, \<open>undefined\<close> (\<open>None\<close>) for every other key.
\<close>

fun voxel_at :: "8 word list \<Rightarrow> jsnum \<Rightarrow> 8 word option" where
  "voxel_at vs (Fin r) =
     (if r = of_int \<lfloor>r\<rfloor> \<and> 0 \<le> r \<and> nat \<lfloor>r\<rfloor> < length vs then Some (vs ! nat \<lfloor>r\<rfloor>) else None)"
| "voxel_at vs _ = None"

text \<open>The cell coordinate of a world coordinate: \<open>Math.floor((p - min) / size * G)\<close>.\<close>

definition cell_coord :: "jsnum \<Rightarrow> jsnum \<Rightarrow> jsnum \<Rightarrow> jsnum" where
  "cell_coord p mn sz = Math_floor ((p - mn) div sz * G)"

text \<open>The flat index \<open>ix * G * G + iy * G + iz\<close>.\<close>

definition flat_index :: "jsnum \<Rightarrow> jsnum \<Rightarrow> jsnum \<Rightarrow> jsnum" where
  "flat_index cx cy cz = cx * G * G + cy * G + cz"

definition isInside :: "layout \<Rightarrow> vec3 \<Rightarrow> bool" where
  "isInside st p =
     (let mn = bmin (bounds st); sz = bsize (bounds st);
          cx = cell_coord (vx p) (vx mn) (vx sz);
          cy = cell_coord (vy p) (vy mn) (vy sz);
          cz = cell_coord (vz p) (vz mn) (vz sz)
      in if cx < Fin 0 \<or> cx \<ge> G \<or> cy < Fin 0 \<or> cy \<ge> G \<or> cz < Fin 0 \<or> cz \<ge> G then False
         else voxel_at (voxels st) (flat_index cx cy cz) = Some 1)"

text \<open>The centre of a cell: \<open>min + (i + 0.5) / G * size\<close> on each axis.\<close>

definition cell_centre :: "jsnum \<Rightarrow> jsnum \<Rightarrow> jsnum \<Rightarrow> jsnum" where
  "cell_centre i mn sz = mn + (i + Fin (1 / 2)) div G * sz"

definition cellToWorld :: "layout \<Rightarrow> nat \<Rightarrow> nat \<Rightarrow> nat \<Rightarrow> vec3" where
  "cellToWorld st cx cy cz =
     (let mn = bmin (bounds st); sz = bsize (bounds st)
      in Vector3 (cell_centre (Fin (real cx)) (vx mn) (vx sz))
                 (cell_centre (Fin (real cy)) (vy mn) (vy sz))
                 (cell_centre (Fin (real cz)) (vz mn) (vz sz)))"

section \<open>The force simulation\<close>

definition zero_forces :: "neuron list \<Rightarrow> neuron list" where
  "zero_forces ns = map (\<lambda>n. n\<lparr>force := Vector3 (Fin 0) (Fin 0) (Fin 0)\<rparr>) ns"

text \<open>The body of the all-pairs loop, for the pair \<open>i < j\<close>.\<close>

definition repel_force :: "jsnum \<Rightarrow> vec3 \<Rightarrow> vec3 \<Rightarrow> vec3" where
  "repel_force k p q =
     (let d = subVectors p q;
          f = k div Math_max (lengthSq d) MIN_DIST_SQ
      in multiplyScalar (normalize d) f)"

definition repel_pair :: "jsnum \<Rightarrow> nat \<Rightarrow> nat \<Rightarrow> neuron list \<Rightarrow> neuron list" where
  "repel_pair k i j ns =
     (let d = repel_force k (pos (ns ! i)) (pos (ns ! j));
          ns1 = ns[i := (ns ! i)\<lparr>force := add (force (ns ! i)) d\<rparr>]
      in ns1[j := (ns1 ! j)\<lparr>force := sub (force (ns1 ! j)) d\<rparr>])"

definition repel_row :: "jsnum \<Rightarrow> nat \<Rightarrow> neuron list \<Rightarrow> neuron list" where
  "repel_row k i ns = fold (repel_pair k i) [i + 1 ..< length ns] ns"

definition repulsion :: "jsnum \<Rightarrow> neuron list \<Rightarrow> neuron list" where
  "repulsion k ns = fold (repel_row k) [0 ..< length ns] ns"

text \<open>Layer guidance; a neuron whose layer has no target (\<open>undefined\<close>) is skipped.\<close>

definition guide :: "layout \<Rightarrow> neuron \<Rightarrow> neuron" where
  "guide st n =
     (if layer n < length (layerTargets st)
      then n\<lparr>force := add (force n)
                 (multiplyScalar (subVectors (layerTargets st ! layer n) (pos n)) (kLayer st))\<rparr>
      else n)"

text \<open>
  The boundary force of one neighbour cell \<open>(cx + dx, cy + dy, cz + dz)\<close>, added to the
  accumulated force \<open>frc\<close>. A cell is outside when it is out of the grid or its voxel is
  falsy (zero or \<open>undefined\<close>).
\<close>

definition is_outside :: "layout \<Rightarrow> jsnum \<Rightarrow> jsnum \<Rightarrow> jsnum \<Rightarrow> bool" where
  "is_outside st nx ny nz \<longleftrightarrow>
     nx < Fin 0 \<or> nx \<ge> G \<or> ny < Fin 0 \<or> ny \<ge> G \<or> nz < Fin 0 \<or> nz \<ge> G \<or>
     (case voxel_at (voxels st) (flat_index nx ny nz) of None \<Rightarrow> True | Some w \<Rightarrow> w = 0)"

definition boundary_cell :: "layout \<Rightarrow> vec3 \<Rightarrow> jsnum \<times> jsnum \<times> jsnum \<Rightarrow> int \<times> int \<times> int \<Rightarrow> vec3 \<Rightarrow> vec3" where
  "boundary_cell st p c off frc =
     (case (c, off) of ((cx, cy, cz), (dx, dy, dz)) \<Rightarrow>
        if dx = 0 \<and> dy = 0 \<and> dz = 0 then frc
        else
          let nx = cx + Fin (real_of_int dx); ny = cy + Fin (real_of_int dy);
              nz = cz + Fin (real_of_int dz)
          in if \<not> is_outside st nx ny nz then frc
             else
               let mn = bmin (bounds st); sz = bsize (bounds st);
                   c = Vector3 (cell_centre nx (vx mn) (vx sz)) (cell_centre ny (vy mn) (vy sz))
                         (cell_centre nz (vz mn) (vz sz));
                   d = subVectors p c;
                   distSq = Math_max (lengthSq d) (Fin (1 / 100))
               in add frc (multiplyScalar (normalize d) (kBoundary st div distSq)))"

text \<open>The offsets of the 5x5x5 neighbourhood, in the order of the three nested loops.\<close>

definition offsets :: "(int \<times> int \<times> int) list" where
  "offsets = concat (map (\<lambda>dx. concat (map (\<lambda>dy. map (\<lambda>dz. (dx, dy, dz)) [-2 .. 2]) [-2 .. 2])) [-2 .. 2])"

definition boundary :: "layout \<Rightarrow> neuron \<Rightarrow> neuron" where
  "boundary st n =
     (let mn = bmin (bounds st); sz = bsize (bounds st);
          c = (cell_coord (vx (pos n)) (vx mn) (vx sz),
               cell_coord (vy (pos n)) (vy mn) (vy sz),
               cell_coord (vz (pos n)) (vz mn) (vz sz))
      in n\<lparr>force := fold (boundary_cell st (pos n) c) offsets (force n)\<rparr>)"

text \<open>Phases 1 to 3: the forces of a substep, computed from the positions before it.\<close>

definition accumulate_forces :: "layout \<Rightarrow> neuron list" where
  "accumulate_forces st =
     map (boundary st) (map (guide st) (repulsion (kRepel st) (zero_forces (neurons st))))"

text \<open>
  Phase 4 for one neuron: integrate, then the hard clamp. The second component is the
  squared speed that the loop adds to \<open>ke\<close>; it is read before the clamp.
\<close>

definition integrated_vel :: "layout \<Rightarrow> jsnum \<Rightarrow> neuron \<Rightarrow> vec3" where
  "integrated_vel st dt n = multiplyScalar (addScaledVector (vel n) (force n) dt) (damping st)"

definition integrated_pos :: "layout \<Rightarrow> jsnum \<Rightarrow> neuron \<Rightarrow> vec3" where
  "integrated_pos st dt n = addScaledVector (pos n) (integrated_vel st dt n) dt"

definition integrate :: "layout \<Rightarrow> jsnum \<Rightarrow> neuron \<Rightarrow> neuron \<times> jsnum" where
  "integrate st dt n =
     (let v1 = integrated_vel st dt n;
          p1 = integrated_pos st dt n;
          ke = lengthSq v1
      in if \<not> isInside st p1
         then (n\<lparr>prev := pos n, pos := pos n, vel := multiplyScalar v1 (Fin (- (3 / 10)))\<rparr>, ke)
         else (n\<lparr>prev := pos n, pos := p1, vel := v1\<rparr>, ke))"

fun integrate_all :: "layout \<Rightarrow> jsnum \<Rightarrow> neuron list \<Rightarrow> jsnum \<Rightarrow> neuron list \<times> jsnum" where
  "integrate_all st dt [] ke = ([], ke)"
| "integrate_all st dt (n # ns) ke =
     (let (n', k) = integrate st dt n;
          (ns', ke') = integrate_all st dt ns (ke + k)
      in (n' # ns', ke'))"

definition subStep :: "jsnum \<Rightarrow> layout \<Rightarrow> layout" where
  "subStep dt st =
     (if neurons st = [] then st
      else
        let (ns, ke) = integrate_all st dt (accumulate_forces st) (Fin 0)
        in st\<lparr>neurons := ns, energy := ke div Fin (real (length (neurons st)))\<rparr>)"

text \<open>
  \<open>_step\<close>: three substeps, then the positions are copied out of the neurons, layer by
  layer. Reading a neuron past the end of the list is a \<open>TypeError\<close>.
\<close>

fun sync_positions :: "vec3 list list \<Rightarrow> neuron list \<Rightarrow> js_error + vec3 list list" where
  "sync_positions [] ns = Inr []"
| "sync_positions (row # rows) ns =
     (if length ns < length row then Inl TypeError
      else case sync_positions rows (drop (length row) ns) of
             Inl e \<Rightarrow> Inl e
           | Inr rows' \<Rightarrow> Inr (map pos (take (length row) ns) # rows'))"

definition step :: "layout \<Rightarrow> js_error + layout" where
  "step st =
     (if neurons st = [] then Inr st
      else
        let st' = (subStep FIXED_DT ^^ SUB_STEPS) st
        in case sync_positions (positions st') (neurons st') of
             Inl e \<Rightarrow> Inl e
           | Inr ps \<Rightarrow> Inr (st'\<lparr>positions := ps\<rparr>))"

text \<open>Every neuron sits in a cell that the grid classifies as interior.\<close>

definition all_inside :: "layout \<Rightarrow> bool" where
  "all_inside st \<longleftrightarrow> (\<forall>n \<in> set (neurons st). isInside st (pos n))"

text \<open>The sum that the loop \<open>ke += ...\<close> computes, starting from zero.\<close>

definition sum_js :: "jsnum list \<Rightarrow> jsnum" where
  "sum_js ks = foldl (+) (Fin 0) ks"

section \<open>Voxelization\<close>

text \<open>
  The mesh is the list of its triangles, three vertices each, as the loader supplies it
  (a non-indexed position buffer, three consecutive vertices per facet).
\<close>

type_synonym triangle = "vec3 \<times> vec3 \<times> vec3"

type_synonym geometry = "triangle list"

text \<open>The X-intersections of one scanline, in the order of the triangles.\<close>

definition collect_hits :: "jsnum \<Rightarrow> jsnum \<Rightarrow> jsnum \<Rightarrow> geometry \<Rightarrow> jsnum list" where
  "collect_hits rayOX wy wz geo =
     List.map_filter (\<lambda>tri. case tri of (v0, v1, v2) \<Rightarrow> rayTriX rayOX wy wz v0 v1 v2) geo"

text \<open>
  \<open>hits.sort((a, b) => a - b)\<close>: a stable sort by the comparator, written as insertion
  from the left. An element goes before the first element that the comparator puts
  after it (\<open>a - b < 0\<close>). On numbers that the comparator orders consistently this is the
  ascending order; where it does not (\<open>NaN\<close>), ECMAScript leaves the order to the
  implementation, and the model keeps the one of this insertion.
\<close>

fun insert_hit :: "jsnum \<Rightarrow> jsnum list \<Rightarrow> jsnum list" where
  "insert_hit a [] = [a]"
| "insert_hit a (b # bs) = (if a - b < Fin 0 then a # b # bs else b # insert_hit a bs)"

definition sort_hits :: "jsnum list \<Rightarrow> jsnum list" where
  "sort_hits hits = fold insert_hit hits []"

text \<open>
  The deduplication loop: \<open>kept\<close> is the last element pushed to \<open>deduped\<close>; a hit is pushed
  when it exceeds it by more than \<open>1e-5\<close>.
\<close>

fun dedupe_from :: "jsnum \<Rightarrow> jsnum list \<Rightarrow> jsnum list" where
  "dedupe_from kept [] = []"
| "dedupe_from kept (h # hs) =
     (if h - kept > Fin (1 / 10 ^ 5) then h # dedupe_from h hs else dedupe_from kept hs)"

fun dedupe :: "jsnum list \<Rightarrow> jsnum list" where
  "dedupe [] = []"
| "dedupe (h # hs) = h # dedupe_from h hs"

text \<open>
  Writing \<open>1\<close> to the typed array at a JavaScript number: the element is set for an
  integer index inside the array, and nothing happens for any other key.
\<close>

fun write_voxel :: "8 word list \<Rightarrow> jsnum \<Rightarrow> 8 word list" where
  "write_voxel vs (Fin r) =
     (if r = of_int \<lfloor>r\<rfloor> \<and> 0 \<le> r \<and> nat \<lfloor>r\<rfloor> < length vs then vs[nat \<lfloor>r\<rfloor> := 1] else vs)"
| "write_voxel vs _ = vs"

text \<open>
  The loop \<open>for (ix = ix0; ix <= ix1; ix++)\<close> over JavaScript numbers. It does not end for
  every pair of numbers (\<open>ix1 = Infinity\<close>), so its result is an option: \<open>None\<close> is a loop
  that runs forever.
\<close>

partial_function (option) span_loop ::
  "8 word list \<Rightarrow> jsnum \<Rightarrow> jsnum \<Rightarrow> jsnum \<Rightarrow> jsnum \<Rightarrow> 8 word list option" where
  "span_loop vs cy cz cx cx1 =
     (if cx \<le> cx1 then span_loop (write_voxel vs (flat_index cx cy cz)) cy cz (cx + Fin 1) cx1
      else Some vs)"

text \<open>The cells of one span \<open>(x0, x1)\<close> of the scanline \<open>(cy, cz)\<close>.\<close>

definition mark_span ::
  "vec3 \<Rightarrow> vec3 \<Rightarrow> jsnum \<Rightarrow> jsnum \<Rightarrow> 8 word list \<Rightarrow> jsnum \<Rightarrow> jsnum \<Rightarrow> 8 word list option" where
  "mark_span mn sz cy cz vs x0 x1 =
     (let cx0 = Math_max (Fin 0) (cell_coord x0 (vx mn) (vx sz));
          cx1 = Math_min (G - Fin 1) (cell_coord x1 (vx mn) (vx sz))
      in span_loop vs cy cz cx0 cx1)"

text \<open>
  The loop \<open>for (h = 0; h + 1 < deduped.length; h += 2)\<close>: consecutive pairs; a last
  unpaired hit is left alone.
\<close>

fun mark_pairs ::
  "vec3 \<Rightarrow> vec3 \<Rightarrow> jsnum \<Rightarrow> jsnum \<Rightarrow> 8 word list \<Rightarrow> jsnum list \<Rightarrow> 8 word list option" where
  "mark_pairs mn sz cy cz vs (x0 # x1 # rest) =
     (case mark_span mn sz cy cz vs x0 x1 of
        None \<Rightarrow> None
      | Some vs' \<Rightarrow> mark_pairs mn sz cy cz vs' rest)"
| "mark_pairs mn sz cy cz vs _ = Some vs"

text \<open>The body of the loop over \<open>iz\<close>: one scanline.\<close>

definition scan_line ::
  "geometry \<Rightarrow> vec3 \<Rightarrow> vec3 \<Rightarrow> nat \<Rightarrow> nat \<Rightarrow> 8 word list \<Rightarrow> 8 word list option" where
  "scan_line geo mn sz cy cz vs =
     (let rayOX = vx mn - Fin 1;
          wy = cell_centre (Fin (real cy)) (vy mn) (vy sz);
          wz = cell_centre (Fin (real cz)) (vz mn) (vz sz);
          hits = collect_hits rayOX wy wz geo
      in if hits = [] then Some vs
         else mark_pairs mn sz (Fin (real cy)) (Fin (real cz)) vs (dedupe (sort_hits hits)))"

text \<open>A counted loop whose body may not return.\<close>

fun fold_opt :: "('a \<Rightarrow> 's \<Rightarrow> 's option) \<Rightarrow> 'a list \<Rightarrow> 's \<Rightarrow> 's option" where
  "fold_opt f [] s = Some s"
| "fold_opt f (a # as) s = (case f a s of None \<Rightarrow> None | Some s' \<Rightarrow> fold_opt f as s')"

definition scan_row :: "geometry \<Rightarrow> vec3 \<Rightarrow> vec3 \<Rightarrow> nat \<Rightarrow> 8 word list \<Rightarrow> 8 word list option" where
  "scan_row geo mn sz cy vs = fold_opt (scan_line geo mn sz cy) [0 ..< GRID_SIZE] vs"

text \<open>The rows \<open>lo, ..., hi - 1\<close> of the outer loop.\<close>

definition scan_rows ::
  "geometry \<Rightarrow> vec3 \<Rightarrow> vec3 \<Rightarrow> nat \<Rightarrow> nat \<Rightarrow> 8 word list \<Rightarrow> 8 word list option" where
  "scan_rows geo mn sz lo hi vs = fold_opt (scan_row geo mn sz) [lo ..< hi] vs"

text \<open>
  The cells of the grid in the order of the three loops that build the cache, and the
  cells whose voxel is truthy.
\<close>

definition all_cells :: "cell list" where
  "all_cells =
     concat (map (\<lambda>cx. concat (map (\<lambda>cy. map (\<lambda>cz. \<lparr>ix = cx, iy = cy, iz = cz\<rparr>)
       [0 ..< GRID_SIZE]) [0 ..< GRID_SIZE])) [0 ..< GRID_SIZE])"

definition cell_index :: "cell \<Rightarrow> nat" where
  "cell_index c = ix c * GRID_SIZE * GRID_SIZE + iy c * GRID_SIZE + iz c"

definition truthy_at :: "8 word list \<Rightarrow> nat \<Rightarrow> bool" where
  "truthy_at vs i \<longleftrightarrow> i < length vs \<and> vs ! i \<noteq> 0"

definition inside_cells :: "8 word list \<Rightarrow> cell list" where
  "inside_cells vs = filter (\<lambda>c. truthy_at vs (cell_index c)) all_cells"

text \<open>
  \<open>Math.random()\<close>: the numbers it returns are a parameter, the sequence \<open>rnd\<close>; the state
  threaded through the code is the count of the calls made so far. \<open>x | 0\<close> is \<open>ToInt32\<close>.
\<close>

type_synonym rng = "nat \<Rightarrow> real"

definition rng_ok :: "rng \<Rightarrow> bool" where
  "rng_ok rnd \<longleftrightarrow> (\<forall>k. 0 \<le> rnd k \<and> rnd k < 1)"

fun to_int32 :: "jsnum \<Rightarrow> int" where
  "to_int32 (Fin r) =
     (let n = (if 0 \<le> r then \<lfloor>r\<rfloor> else - \<lfloor>- r\<rfloor>); m = n mod 2 ^ 32
      in if 2 ^ 31 \<le> m then m - 2 ^ 32 else m)"
| "to_int32 _ = 0"

text \<open>
  Reading and writing a plain array at an integer: \<open>undefined\<close> outside the array. A swap
  with an index outside would store \<open>undefined\<close>; the model leaves the array alone there
  (the Fisher-Yates loop never does it, see \<open>shuffle_perm\<close>).
\<close>

definition swap_cells :: "cell list \<Rightarrow> nat \<Rightarrow> int \<Rightarrow> cell list" where
  "swap_cells cs i j =
     (if 0 \<le> j \<and> nat j < length cs \<and> i < length cs
      then (cs[i := cs ! nat j])[nat j := cs ! i] else cs)"

text \<open>The Fisher-Yates loop, for \<open>i\<close> from \<open>n\<close> down to \<open>1\<close>.\<close>

fun shuffle_from :: "rng \<Rightarrow> nat \<Rightarrow> cell list \<Rightarrow> nat \<Rightarrow> cell list \<times> nat" where
  "shuffle_from rnd k cs 0 = (cs, k)"
| "shuffle_from rnd k cs (Suc i) =
     (let j = to_int32 (Fin (rnd k) * (Fin (real (Suc i)) + Fin 1))
      in shuffle_from rnd (k + 1) (swap_cells cs (Suc i) j) i)"

definition shuffle :: "rng \<Rightarrow> nat \<Rightarrow> cell list \<Rightarrow> cell list \<times> nat" where
  "shuffle rnd k cs = shuffle_from rnd k cs (length cs - 1)"

text \<open>
  \<open>_voxelize\<close> suspends at the start of every fourth row. A job is what a suspended call
  holds: its mesh, the \<open>min\<close> and \<open>size\<close> it read from the bounds when it started, and the
  next row. The grid and the cache are not part of it: every write goes to
  \<open>this._voxels\<close> and \<open>this._insideCache\<close>, the fields of the layout at that moment.
\<close>

record job =
  jgeo :: geometry
  jmin :: vec3
  jsize :: vec3
  jrow :: nat

text \<open>From the call of \<open>_voxelize\<close> to its first suspension (before row 0).\<close>

definition begin_voxelize :: "geometry \<Rightarrow> layout \<Rightarrow> job \<times> layout" where
  "begin_voxelize geo st =
     (\<lparr>jgeo = geo, jmin = bmin (bounds st), jsize = bsize (bounds st), jrow = 0\<rparr>,
      st\<lparr>voxels := replicate (GRID_SIZE * GRID_SIZE * GRID_SIZE) 0, insideCache := []\<rparr>)"

text \<open>The end of \<open>_voxelize\<close>: the cache is appended to and shuffled.\<close>

definition finish_voxelize :: "rng \<Rightarrow> nat \<Rightarrow> layout \<Rightarrow> layout \<times> nat" where
  "finish_voxelize rnd k st =
     (let (cs, k') = shuffle rnd k (insideCache st @ inside_cells (voxels st))
      in (st\<lparr>insideCache := cs\<rparr>, k'))"

text \<open>
  From one suspension to the next: four rows. After the last row the call runs to its
  end and the job is over (\<open>None\<close> in the first component). The outer option is \<open>None\<close>
  when a loop does not return.
\<close>

definition resume_voxelize ::
  "rng \<Rightarrow> nat \<Rightarrow> job \<Rightarrow> layout \<Rightarrow> (job option \<times> layout \<times> nat) option" where
  "resume_voxelize rnd k j st =
     (case scan_rows (jgeo j) (jmin j) (jsize j) (jrow j) (min (jrow j + 4) GRID_SIZE) (voxels st) of
        None \<Rightarrow> None
      | Some vs \<Rightarrow>
          if jrow j + 4 < GRID_SIZE
          then Some (Some (j\<lparr>jrow := jrow j + 4\<rparr>), st\<lparr>voxels := vs\<rparr>, k)
          else let (st', k') = finish_voxelize rnd k (st\<lparr>voxels := vs\<rparr>)
               in Some (None, st', k'))"

text \<open>A job run to its end with nothing else in between.\<close>

fun run_job :: "nat \<Rightarrow> rng \<Rightarrow> nat \<Rightarrow> job \<Rightarrow> layout \<Rightarrow> (layout \<times> nat) option" where
  "run_job 0 rnd k j st = None"
| "run_job (Suc fuel) rnd k j st =
     (case resume_voxelize rnd k j st of
        None \<Rightarrow> None
      | Some (None, st', k') \<Rightarrow> Some (st', k')
      | Some (Some j', st', k') \<Rightarrow> run_job fuel rnd k' j' st')"

text \<open>\<open>_voxelize\<close> when no other task runs while it is suspended.\<close>

definition voxelize :: "rng \<Rightarrow> nat \<Rightarrow> geometry \<Rightarrow> layout \<Rightarrow> (layout \<times> nat) option" where
  "voxelize rnd k geo st =
     (case begin_voxelize geo st of (j, st0) \<Rightarrow>
        (case scan_rows geo (jmin j) (jsize j) 0 GRID_SIZE (voxels st0) of
           None \<Rightarrow> None
         | Some vs \<Rightarrow> Some (finish_voxelize rnd k (st0\<lparr>voxels := vs\<rparr>))))"

section \<open>Mesh normalization and loading\<close>

text \<open>
  The calls into three.js that \<open>loadFile\<close> makes, after the library's sources
  (\<open>Box3.js\<close>, \<open>Matrix4.js\<close>, \<open>Vector3.js\<close>, \<open>BufferGeometry.js\<close>,
  \<open>BufferAttribute.js\<close>). The library stores vertex coordinates as 32-bit floats: a
  coordinate read from the mesh is such a float, and every coordinate written to it is
  rounded to one.
\<close>

record box3 =
  bx_min :: vec3
  bx_max :: vec3

text \<open>\<open>Box3.makeEmpty\<close>, \<open>Vector3.min\<close>, \<open>Vector3.max\<close>, \<open>Box3.expandByPoint\<close>.\<close>

definition makeEmpty :: box3 where
  "makeEmpty = \<lparr>bx_min = Vector3 PInf PInf PInf, bx_max = Vector3 NInf NInf NInf\<rparr>"

definition vec_min :: "vec3 \<Rightarrow> vec3 \<Rightarrow> vec3" where
  "vec_min a b = Vector3 (Math_min (vx a) (vx b)) (Math_min (vy a) (vy b)) (Math_min (vz a) (vz b))"

definition vec_max :: "vec3 \<Rightarrow> vec3 \<Rightarrow> vec3" where
  "vec_max a b = Vector3 (Math_max (vx a) (vx b)) (Math_max (vy a) (vy b)) (Math_max (vz a) (vz b))"

definition expandByPoint :: "vec3 \<Rightarrow> box3 \<Rightarrow> box3" where
  "expandByPoint p b = \<lparr>bx_min = vec_min (bx_min b) p, bx_max = vec_max (bx_max b) p\<rparr>"

text \<open>The position buffer: the vertices of the triangles, in order.\<close>

definition vertices :: "geometry \<Rightarrow> vec3 list" where
  "vertices geo = concat (map (\<lambda>tri. case tri of (v0, v1, v2) \<Rightarrow> [v0, v1, v2]) geo)"

text \<open>\<open>BufferGeometry.computeBoundingBox\<close>: \<open>Box3.setFromBufferAttribute\<close> on the positions.\<close>

definition computeBoundingBox :: "geometry \<Rightarrow> box3" where
  "computeBoundingBox geo = fold expandByPoint (vertices geo) makeEmpty"

definition isEmpty :: "box3 \<Rightarrow> bool" where
  "isEmpty b \<longleftrightarrow>
     vx (bx_max b) < vx (bx_min b) \<or> vy (bx_max b) < vy (bx_min b) \<or> vz (bx_max b) < vz (bx_min b)"

definition getCenter :: "box3 \<Rightarrow> vec3" where
  "getCenter b =
     (if isEmpty b then Vector3 (Fin 0) (Fin 0) (Fin 0)
      else multiplyScalar (add (bx_min b) (bx_max b)) (Fin (1 / 2)))"

definition getSize :: "box3 \<Rightarrow> vec3" where
  "getSize b =
     (if isEmpty b then Vector3 (Fin 0) (Fin 0) (Fin 0) else subVectors (bx_max b) (bx_min b))"

text \<open>
  \<open>Vector3.applyMatrix4\<close> on the sixteen elements of a matrix in column-major order,
  \<open>Matrix4.makeTranslation\<close> and \<open>Matrix4.makeScale\<close>.
\<close>

definition applyMatrix4 :: "jsnum list \<Rightarrow> vec3 \<Rightarrow> vec3" where
  "applyMatrix4 e v =
     (let x = vx v; y = vy v; z = vz v;
          w = Fin 1 div (e ! 3 * x + e ! 7 * y + e ! 11 * z + e ! 15)
      in Vector3 ((e ! 0 * x + e ! 4 * y + e ! 8 * z + e ! 12) * w)
                 ((e ! 1 * x + e ! 5 * y + e ! 9 * z + e ! 13) * w)
                 ((e ! 2 * x + e ! 6 * y + e ! 10 * z + e ! 14) * w))"

definition makeTranslation :: "jsnum \<Rightarrow> jsnum \<Rightarrow> jsnum \<Rightarrow> jsnum list" where
  "makeTranslation x y z =
     [Fin 1, Fin 0, Fin 0, Fin 0,  Fin 0, Fin 1, Fin 0, Fin 0,
      Fin 0, Fin 0, Fin 1, Fin 0,  x, y, z, Fin 1]"

definition makeScale :: "jsnum \<Rightarrow> jsnum \<Rightarrow> jsnum \<Rightarrow> jsnum list" where
  "makeScale x y z =
     [x, Fin 0, Fin 0, Fin 0,  Fin 0, y, Fin 0, Fin 0,
      Fin 0, Fin 0, z, Fin 0,  Fin 0, Fin 0, Fin 0, Fin 1]"

text \<open>
  \<open>BufferGeometry.translate\<close> and \<open>BufferGeometry.scale\<close>: \<open>BufferAttribute.applyMatrix4\<close>
  reads every vertex, applies the matrix, and writes the result back with \<open>setXYZ\<close> into
  the \<open>Float32Array\<close> of the positions, which rounds each coordinate to a 32-bit float.
\<close>

definition map_geometry :: "(vec3 \<Rightarrow> vec3) \<Rightarrow> geometry \<Rightarrow> geometry" where
  "map_geometry f geo = map (\<lambda>tri. case tri of (v0, v1, v2) \<Rightarrow> (f v0, f v1, f v2)) geo"

definition setXYZ :: "vec3 \<Rightarrow> vec3" where
  "setXYZ v = Vector3 (Math_fround (vx v)) (Math_fround (vy v)) (Math_fround (vz v))"

definition translate :: "geometry \<Rightarrow> jsnum \<Rightarrow> jsnum \<Rightarrow> jsnum \<Rightarrow> geometry" where
  "translate geo x y z = map_geometry (\<lambda>v. setXYZ (applyMatrix4 (makeTranslation x y z) v)) geo"

definition scale :: "geometry \<Rightarrow> jsnum \<Rightarrow> jsnum \<Rightarrow> jsnum \<Rightarrow> geometry" where
  "scale geo x y z = map_geometry (\<lambda>v. setXYZ (applyMatrix4 (makeScale x y z) v)) geo"

text \<open>The normalization of \<open>loadFile\<close>: the mesh centred and scaled, and its bounds.\<close>

definition normalize_mesh :: "geometry \<Rightarrow> geometry \<times> bounds" where
  "normalize_mesh geo =
     (let cent = getCenter (computeBoundingBox geo);
          geo1 = translate geo (- vx cent) (- vy cent) (- vz cent);
          sizeV = getSize (computeBoundingBox geo1);
          maxDim = Math_max (Math_max (vx sizeV) (vy sizeV)) (vz sizeV);
          s = Fin 10 div maxDim;
          geo2 = scale geo1 s s s;
          bb = computeBoundingBox geo2
      in (geo2, \<lparr>bmin = bx_min bb, bmax = bx_max bb, bsize = getSize bb\<rparr>))"

definition stop :: "layout \<Rightarrow> layout" where
  "stop st = st\<lparr>rafId := None\<rparr>"

text \<open>
  \<open>loadFile\<close> from the parsed mesh on, when no other task runs while it is suspended.
  The result carries the normalized mesh that the ready callback receives.
\<close>

definition loadFile :: "rng \<Rightarrow> nat \<Rightarrow> geometry \<Rightarrow> layout \<Rightarrow> (layout \<times> geometry \<times> nat) option" where
  "loadFile rnd k geo st =
     (let st1 = stop (st\<lparr>isLoaded := False\<rparr>);
          (geo', b) = normalize_mesh geo
      in case voxelize rnd k geo' (st1\<lparr>bounds := b\<rparr>) of
           None \<Rightarrow> None
         | Some (st2, k') \<Rightarrow> Some (st2\<lparr>isLoaded := True\<rparr>, geo', k'))"

text \<open>
  \<open>loadFile\<close> from the parsed mesh to the first suspension of \<open>_voxelize\<close>: the bounds are
  replaced, the grid and the cache are replaced by empty ones, and the job of the new
  mesh waits before row 0. Nothing here looks at, or tells, a job that is still pending.
\<close>

definition begin_load :: "geometry \<Rightarrow> layout \<Rightarrow> job \<times> layout" where
  "begin_load geo st =
     (let st1 = stop (st\<lparr>isLoaded := False\<rparr>);
          (geo', b) = normalize_mesh geo
      in begin_voxelize geo' (st1\<lparr>bounds := b\<rparr>))"

text \<open>A mesh with finite coordinates, from its triangles over the reals.\<close>

type_synonym rtriangle = "pt \<times> pt \<times> pt"

definition fin_geo :: "rtriangle list \<Rightarrow> geometry" where
  "fin_geo ts = map (\<lambda>t. case t of (p0, p1, p2) \<Rightarrow> (vfin p0, vfin p1, vfin p2)) ts"

definition rvertices :: "rtriangle list \<Rightarrow> pt list" where
  "rvertices ts = concat (map (\<lambda>t. case t of (p0, p1, p2) \<Rightarrow> [p0, p1, p2]) ts)"

text \<open>The extent of a list of reals, and the centre and the largest extent of a mesh.\<close>

definition lowest :: "real list \<Rightarrow> real" where
  "lowest xs = Min (set xs)"

definition highest :: "real list \<Rightarrow> real" where
  "highest xs = Max (set xs)"

definition mesh_centre :: "rtriangle list \<Rightarrow> pt" where
  "mesh_centre ts =
     (let ps = rvertices ts
      in ((lowest (map px ps) + highest (map px ps)) / 2, (lowest (map py ps) + highest (map py ps)) / 2,
          (lowest (map pz ps) + highest (map pz ps)) / 2))"

definition mesh_extent :: "rtriangle list \<Rightarrow> real" where
  "mesh_extent ts =
     (let ps = rvertices ts
      in max (max (highest (map px ps) - lowest (map px ps)) (highest (map py ps) - lowest (map py ps)))
             (highest (map pz ps) - lowest (map pz ps)))"

text \<open>
  The map that normalization applies to every vertex: the centre is subtracted and the
  result stored as 32-bit floats; then the factor \<open>10 / maxDim\<close> is applied and the result
  stored again. \<open>maxDim\<close> is the largest dimension of the stored, translated mesh, twice
  the stored half of the largest extent.
\<close>

fun pround :: "pt \<Rightarrow> pt" where
  "pround (a, b, c) = (f32_round a, f32_round b, f32_round c)"

definition half_extent :: "rtriangle list \<Rightarrow> real" where
  "half_extent ts = f32_round (mesh_extent ts / 2)"

definition normal_map :: "rtriangle list \<Rightarrow> pt \<Rightarrow> pt" where
  "normal_map ts p =
     pround (pscale (10 / (2 * half_extent ts)) (pround (psub p (mesh_centre ts))))"

text \<open>A mesh whose coordinates lie in the range of the finite 32-bit floats.\<close>

definition float32_range :: "rtriangle list \<Rightarrow> bool" where
  "float32_range ts \<longleftrightarrow>
     list_all (\<lambda>p. \<bar>px p\<bar> \<le> max_float32 \<and> \<bar>py p\<bar> \<le> max_float32 \<and> \<bar>pz p\<bar> \<le> max_float32)
       (rvertices ts)"

definition map_rtriangles :: "(pt \<Rightarrow> pt) \<Rightarrow> rtriangle list \<Rightarrow> rtriangle list" where
  "map_rtriangles f ts = map (\<lambda>t. case t of (p0, p1, p2) \<Rightarrow> (f p0, f p1, f p2)) ts"

section \<open>The inside-point sampler\<close>

text \<open>
  \<open>_findInsidePointNear\<close>. The result carries the count of the calls of \<open>Math.random\<close>.
  Reading \<open>ix\<close> of a cache entry that is \<open>undefined\<close> is a \<open>TypeError\<close>.
\<close>

definition cache_at :: "cell list \<Rightarrow> int \<Rightarrow> js_error + cell" where
  "cache_at cs i = (if 0 \<le> i \<and> nat i < length cs then Inr (cs ! nat i) else Inl TypeError)"

definition random_point :: "rng \<Rightarrow> nat \<Rightarrow> vec3 \<Rightarrow> jsnum \<Rightarrow> vec3" where
  "random_point rnd k target spread =
     Vector3 (vx target + (Fin (rnd k) - Fin (1 / 2)) * spread)
             (vy target + (Fin (rnd (k + 1)) - Fin (1 / 2)) * spread)
             (vz target + (Fin (rnd (k + 2)) - Fin (1 / 2)) * spread)"

fun try_random :: "layout \<Rightarrow> rng \<Rightarrow> nat \<Rightarrow> vec3 \<Rightarrow> jsnum \<Rightarrow> nat \<Rightarrow> vec3 option \<times> nat" where
  "try_random st rnd k target spread 0 = (None, k)"
| "try_random st rnd k target spread (Suc n) =
     (let p = random_point rnd k target spread
      in if isInside st p then (Some p, k + 3)
         else try_random st rnd (k + 3) target spread n)"

text \<open>
  The fallback loop: \<open>best\<close> and \<open>bestDist\<close> start as \<open>null\<close> and \<open>Infinity\<close>.
\<close>

fun sample_cache ::
  "layout \<Rightarrow> rng \<Rightarrow> nat \<Rightarrow> vec3 \<Rightarrow> vec3 option \<Rightarrow> jsnum \<Rightarrow> nat \<Rightarrow> js_error + (vec3 option \<times> nat)" where
  "sample_cache st rnd k target best bestDist 0 = Inr (best, k)"
| "sample_cache st rnd k target best bestDist (Suc n) =
     (case cache_at (insideCache st)
             (to_int32 (Fin (rnd k) * Fin (real (length (insideCache st))))) of
        Inl e \<Rightarrow> Inl e
      | Inr c \<Rightarrow>
          let p = cellToWorld st (ix c) (iy c) (iz c);
              d = distanceToSquared p target
          in if d < bestDist then sample_cache st rnd (k + 1) target (Some p) d n
             else sample_cache st rnd (k + 1) target best bestDist n)"

definition findInsidePointNear ::
  "layout \<Rightarrow> rng \<Rightarrow> nat \<Rightarrow> vec3 \<Rightarrow> nat \<Rightarrow> js_error + (vec3 \<times> nat)" where
  "findInsidePointNear st rnd k target maxTries =
     (let spread = length_vec (bsize (bounds st)) * Fin (1 / 4)
      in case try_random st rnd k target spread maxTries of
           (Some p, k') \<Rightarrow> Inr (p, k')
         | (None, k') \<Rightarrow>
             (case sample_cache st rnd k' target None PInf (min 60 (length (insideCache st))) of
                Inl e \<Rightarrow> Inl e
              | Inr (Some p, k'') \<Rightarrow> Inr (p, k'')
              | Inr (None, k'') \<Rightarrow>
                  (case cache_at (insideCache st) 0 of
                     Inl e \<Rightarrow> Inl e
                   | Inr c \<Rightarrow> Inr (cellToWorld st (ix c) (iy c) (iz c), k''))))"

section \<open>What a scanline marks\<close>

text \<open>
  The cell coordinates on the X axis that the span \<open>(x0, x1)\<close> covers, and the consecutive
  pairs \<open>(hit[2k], hit[2k+1])\<close> of a list.
\<close>

definition span_cells :: "vec3 \<Rightarrow> vec3 \<Rightarrow> jsnum \<Rightarrow> jsnum \<Rightarrow> nat set" where
  "span_cells mn sz x0 x1 =
     {c. Math_max (Fin 0) (cell_coord x0 (vx mn) (vx sz)) \<le> Fin (real c) \<and>
         Fin (real c) \<le> Math_min (G - Fin 1) (cell_coord x1 (vx mn) (vx sz))}"

fun pairs_of :: "'a list \<Rightarrow> ('a \<times> 'a) list" where
  "pairs_of (a # b # rest) = (a, b) # pairs_of rest"
| "pairs_of _ = []"

text \<open>The cells of the scanline \<open>(cy, cz)\<close> that the pairs of a hit list cover, as flat indices.\<close>

definition marked_by :: "vec3 \<Rightarrow> vec3 \<Rightarrow> nat \<Rightarrow> nat \<Rightarrow> jsnum list \<Rightarrow> nat set" where
  "marked_by mn sz cy cz ds =
     (\<Union>p \<in> set (pairs_of ds).
        (\<lambda>c. c * GRID_SIZE * GRID_SIZE + cy * GRID_SIZE + cz) ` span_cells mn sz (fst p) (snd p))"

text \<open>A grid with the cells of a set marked.\<close>

definition with_marks :: "8 word list \<Rightarrow> nat set \<Rightarrow> 8 word list \<Rightarrow> bool" where
  "with_marks vs M vs' \<longleftrightarrow>
     length vs' = length vs \<and> (\<forall>j < length vs. vs' ! j = (if j \<in> M then 1 else vs ! j))"

text \<open>The cells that one scanline, and the rows \<open>lo, ..., hi - 1\<close>, mark.\<close>

definition scan_hits :: "geometry \<Rightarrow> vec3 \<Rightarrow> vec3 \<Rightarrow> nat \<Rightarrow> nat \<Rightarrow> jsnum list" where
  "scan_hits geo mn sz cy cz =
     collect_hits (vx mn - Fin 1) (cell_centre (Fin (real cy)) (vy mn) (vy sz))
       (cell_centre (Fin (real cz)) (vz mn) (vz sz)) geo"

definition line_marks :: "geometry \<Rightarrow> vec3 \<Rightarrow> vec3 \<Rightarrow> nat \<Rightarrow> nat \<Rightarrow> nat set" where
  "line_marks geo mn sz cy cz = marked_by mn sz cy cz (dedupe (sort_hits (scan_hits geo mn sz cy cz)))"

definition grid_marks :: "geometry \<Rightarrow> vec3 \<Rightarrow> vec3 \<Rightarrow> nat \<Rightarrow> nat \<Rightarrow> nat set" where
  "grid_marks geo mn sz lo hi =
     (\<Union>cy \<in> set [lo ..< hi]. \<Union>cz \<in> set [0 ..< GRID_SIZE]. line_marks geo mn sz cy cz)"

text \<open>
  The cache holds cells of the grid whose voxel is \<open>1\<close>, fewer than \<open>2\<^sup>3\<^sup>1\<close> of them.
\<close>

definition cache_ok :: "layout \<Rightarrow> bool" where
  "cache_ok st \<longleftrightarrow>
     length (insideCache st) < 2 ^ 31 \<and>
     list_all (\<lambda>c. ix c < GRID_SIZE \<and> iy c < GRID_SIZE \<and> iz c < GRID_SIZE \<and>
                   cell_index c < length (voxels st) \<and> voxels st ! cell_index c = 1)
       (insideCache st)"

section \<open>The repulsion force as the specification words it\<close>

text \<open>
  Following the specification's words: the force on a node at \<open>p\<close> from a node at \<open>q\<close> has
  magnitude \<open>k / max(squaredDistance, minDistanceSquared)\<close> and is directed along the
  normalized separation vector \<open>p - q\<close>. The minimum squared distance is the constant of
  the code, \<open>0.09\<close>.
\<close>

definition pair_force :: "real \<Rightarrow> pt \<Rightarrow> pt \<Rightarrow> pt" where
  "pair_force k p q =
     pscale (k / max (dot (psub p q) (psub p q)) (9 / 100)) (punit (psub p q))"

text \<open>The magnitude that a minimum squared distance of \<open>0.3\<close> would give.\<close>

definition claimed_magnitude :: "real \<Rightarrow> pt \<Rightarrow> pt \<Rightarrow> real" where
  "claimed_magnitude k p q = k / max (dot (psub p q) (psub p q)) (3 / 10)"

text \<open>
  The all-pairs loop on one component of the forces, as a list of reals: \<open>w i j\<close> is the
  component of the force of the pair \<open>i < j\<close>.
\<close>

definition pair_update :: "(nat \<Rightarrow> nat \<Rightarrow> real) \<Rightarrow> nat \<Rightarrow> nat \<Rightarrow> real list \<Rightarrow> real list" where
  "pair_update w i j fs = (fs[i := fs ! i + w i j])[j := (fs[i := fs ! i + w i j]) ! j - w i j]"

definition row_update :: "(nat \<Rightarrow> nat \<Rightarrow> real) \<Rightarrow> nat \<Rightarrow> real list \<Rightarrow> real list" where
  "row_update w i fs = fold (pair_update w i) [i + 1 ..< length fs] fs"

definition all_update :: "(nat \<Rightarrow> nat \<Rightarrow> real) \<Rightarrow> real list \<Rightarrow> real list" where
  "all_update w fs = fold (row_update w) [0 ..< length fs] fs"

text \<open>Bounds with finite corners and a positive extent on every axis.\<close>

definition proper_bounds :: "bounds \<Rightarrow> bool" where
  "proper_bounds b \<longleftrightarrow>
     finite_vec (bmin b) \<and> finite_vec (bsize b) \<and>
     Fin 0 < vx (bsize b) \<and> Fin 0 < vy (bsize b) \<and> Fin 0 < vz (bsize b)"

section \<open>Example states\<close>

text \<open>
  A cube of side 10 centred at the origin whose 32768 cells are all interior, with the
  default parameters of the constructor.
\<close>

definition cube_bounds :: bounds where
  "cube_bounds = \<lparr>bmin = vfin (-5, -5, -5), bmax = vfin (5, 5, 5), bsize = vfin (10, 10, 10)\<rparr>"

definition mk_neuron :: "pt \<Rightarrow> pt \<Rightarrow> nat \<Rightarrow> nat \<Rightarrow> neuron" where
  "mk_neuron p v l i =
     \<lparr>pos = vfin p, prev = vfin p, vel = vfin v, force = vfin (0, 0, 0), layer = l, index = i\<rparr>"

definition cube_layout :: "neuron list \<Rightarrow> layout" where
  "cube_layout ns =
     \<lparr>kRepel = Fin (6 / 10), kLayer = Fin (4 / 100), kBoundary = Fin (4 / 10),
      damping = Fin (85 / 100),
      voxels = replicate (GRID_SIZE * GRID_SIZE * GRID_SIZE) 1,
      insideCache = [\<lparr>ix = 16, iy = 16, iz = 16\<rparr>],
      bounds = cube_bounds,
      neurons = ns,
      layerTargets = [],
      positions = [map pos ns],
      rafId = None, isLoaded = True, energy = Fin 0\<rparr>"

text \<open>Two neurons of one layer inside the cube.\<close>

definition two_nodes :: layout where
  "two_nodes = cube_layout [mk_neuron (0, 0, 0) (1 / 100, 0, 0) 0 0, mk_neuron (1, 0, 0) (0, 1 / 100, 0) 0 1]"

text \<open>
  One neuron inside the cube whose velocity is finite, with the damping factor set to
  \<open>Infinity\<close>.
\<close>

definition inf_damping :: layout where
  "inf_damping = (cube_layout [mk_neuron (0, 0, 0) (1 / 20, 0, 0) 0 0])\<lparr>damping := PInf\<rparr>"

text \<open>
  One neuron half a thousandth of a unit from the face \<open>x = 5\<close> of the cube, moving
  towards it at the largest initial speed that \<open>initNeurons\<close> gives, with the boundary
  coefficient set to zero.
\<close>

definition bouncing :: layout where
  "bouncing = (cube_layout [mk_neuron (9999 / 2000, 0, 0) (1 / 20, 0, 0) 0 0])\<lparr>kBoundary := Fin 0\<rparr>"

text \<open>The neuron of \<open>bouncing\<close> after the first, the second and the third substep of a tick.\<close>

definition b1 :: neuron where
  "b1 = \<lparr>pos = vfin (359981 / 72000, 0, 0), prev = vfin (9999 / 2000, 0, 0),
         vel = vfin (17 / 400, 0, 0), force = vfin (0, 0, 0), layer = 0, index = 0\<rparr>"

definition b2 :: neuron where
  "b2 = \<lparr>pos = vfin (7199909 / 1440000, 0, 0), prev = vfin (359981 / 72000, 0, 0),
         vel = vfin (289 / 8000, 0, 0), force = vfin (0, 0, 0), layer = 0, index = 0\<rparr>"

definition b3 :: neuron where
  "b3 = \<lparr>pos = vfin (7199909 / 1440000, 0, 0), prev = vfin (7199909 / 1440000, 0, 0),
         vel = vfin (- (14739 / 1600000), 0, 0), force = vfin (0, 0, 0), layer = 0, index = 0\<rparr>"

text \<open>Three neurons with the positions \<open>(0,0,0)\<close>, \<open>(1,0,0)\<close> and \<open>(0,2,0)\<close>.\<close>

definition three_nodes :: "neuron list" where
  "three_nodes = [mk_neuron (0, 0, 0) (0, 0, 0) 0 0, mk_neuron (1, 0, 0) (0, 0, 0) 0 1,
                  mk_neuron (0, 2, 0) (0, 0, 0) 1 0]"

text \<open>
  A mesh of three large triangles in the planes \<open>x = 5\<close>, \<open>x = -5\<close> and \<open>x = 0\<close>, each covering
  the whole cross-section of the cube: every scanline meets the mesh three times.
\<close>

definition plane_triangle :: "real \<Rightarrow> triangle" where
  "plane_triangle c = (vfin (c, - 6, - 6), vfin (c, 20, - 6), vfin (c, - 6, 20))"

definition three_planes :: geometry where
  "three_planes = [plane_triangle 5, plane_triangle (- 5), plane_triangle 0]"

text \<open>
  A mesh of one triangle, and a mesh of one triangle whose three vertices are the same
  point.
\<close>

definition one_triangle :: "rtriangle list" where
  "one_triangle = [((0, 0, 0), (2, 0, 0), (0, 4, 0))]"


text \<open>
  A mesh of two triangles in the planes \<open>x = -5\<close> and \<open>x = 5\<close> whose bounding box is the
  cube, a random source that always returns \<open>0.5\<close>, and the state after loading that mesh.
\<close>

definition two_planes :: "rtriangle list" where
  "two_planes = [((- 5, - 5, - 5), (- 5, 5, - 5), (- 5, - 5, 5)), ((5, - 5, - 5), (5, 5, - 5), (5, - 5, 5))]"

definition half_rng :: rng where
  "half_rng = (\<lambda>_. 1 / 2)"

definition loaded_planes :: layout where
  "loaded_planes = fst (the (loadFile half_rng 0 (fin_geo two_planes) (cube_layout [])))"

text \<open>
  Two loads in a row: the job of the two planes waits before its row 0 when the load of
  the flat triangle starts; then the timer of the first job fires.
\<close>

definition old_job :: "job \<times> layout" where
  "old_job = begin_load (fin_geo two_planes) (cube_layout [])"

definition new_load :: "job \<times> layout" where
  "new_load = begin_load (fin_geo one_triangle) (snd old_job)"

definition old_resumed :: "job option \<times> layout \<times> nat" where
  "old_resumed = the (resume_voxelize half_rng 0 (fst old_job) (snd new_load))"

text \<open>
  The state when the old job has run to its end (its eight resumptions) in the state of
  the new load, and what the sampler returns there for the target at the origin.
\<close>

definition race_state :: layout where
  "race_state = fst (the (run_job 8 half_rng 0 (fst old_job) (snd new_load)))"

definition race_sample :: "vec3 \<times> nat" where
  "race_sample = projr (findInsidePointNear race_state half_rng 0 (vfin (0, 0, 0)) 30)"

section \<open>Arithmetic on finite numbers\<close>

lemma Fin_arith [simp]:
  "Fin a + Fin b = Fin (a + b)"
  "Fin a - Fin b = Fin (a - b)"
  "Fin a * Fin b = Fin (a * b)"
  "- Fin a = Fin (- a)"
  "(Fin a < Fin b) = (a < b)"
  "(Fin a \<le> Fin b) = (a \<le> b)"
  by (simp_all add: plus_jsnum_def minus_jsnum_def times_jsnum_def uminus_jsnum_def
      less_jsnum_def less_eq_jsnum_def)

lemma Fin_div [simp]: "b \<noteq> 0 \<Longrightarrow> Fin a div Fin b = Fin (a / b)"
  by (simp add: divide_jsnum_def)

lemma vfin_sel [simp]:
  "vx (vfin (a, b, c)) = Fin a" "vy (vfin (a, b, c)) = Fin b" "vz (vfin (a, b, c)) = Fin c"
  by (simp_all add: vfin_def Vector3_def)

lemma Vector3_sel [simp]: "vx (Vector3 a b c) = a" "vy (Vector3 a b c) = b" "vz (Vector3 a b c) = c"
  by (simp_all add: Vector3_def)

section \<open>Rounding to binary floating-point formats\<close>

lemma round_even_of_int [simp]: "round_even (of_int k) = k"
  by (simp add: round_even_def)

lemma round_even_mono: "m \<le> n \<Longrightarrow> round_even m \<le> round_even n"
proof -
  assume le: "m \<le> n"
  have f: "\<lfloor>m\<rfloor> \<le> \<lfloor>n\<rfloor>" using le by (rule floor_mono)
  have bm: "\<lfloor>m\<rfloor> \<le> round_even m" "round_even m \<le> \<lfloor>m\<rfloor> + 1"
    by (simp_all add: round_even_def Let_def)
  have bn: "\<lfloor>n\<rfloor> \<le> round_even n" "round_even n \<le> \<lfloor>n\<rfloor> + 1"
    by (simp_all add: round_even_def Let_def)
  show ?thesis
  proof (cases "\<lfloor>m\<rfloor> = \<lfloor>n\<rfloor>")
    case True
    then show ?thesis using le by (auto simp: round_even_def Let_def)
  next
    case False
    with f have "\<lfloor>m\<rfloor> + 1 \<le> \<lfloor>n\<rfloor>" by simp
    with bm bn show ?thesis by linarith
  qed
qed

lemma round_even_minus: "round_even (- m) = - round_even m"
proof (cases "m = of_int \<lfloor>m\<rfloor>")
  case True
  then obtain k where "m = of_int k" ..
  then have "- m = of_int (- k)" by simp
  then show ?thesis unfolding \<open>m = of_int k\<close> by (simp only: round_even_of_int)
next
  case False
  then have nf: "\<lfloor>- m\<rfloor> = - \<lfloor>m\<rfloor> - 1"
    by (metis ceiling_altdef ceiling_def diff_minus_eq_add minus_diff_eq minus_minus uminus_add_conv_diff add_diff_cancel)
  have "of_int \<lfloor>m\<rfloor> < m" using False by (metis of_int_floor_le order_le_less)
  then show ?thesis
    unfolding round_even_def Let_def nf
    by (auto simp: algebra_simps)
qed

lemma round_even_ge: "of_int a \<le> m \<Longrightarrow> a \<le> round_even m"
  using round_even_mono [of "of_int a" m] by simp

lemma round_even_le: "m \<le> of_int b \<Longrightarrow> round_even m \<le> b"
  using round_even_mono [of m "of_int b"] by simp

lemma round_even_half: "\<bar>m - of_int (round_even m)\<bar> \<le> 1 / 2"
proof -
  have "of_int \<lfloor>m\<rfloor> \<le> m" "m < of_int \<lfloor>m\<rfloor> + 1" by linarith+
  then show ?thesis by (auto simp: round_even_def Let_def)
qed

lemma p2_pos [simp]: "0 < power_int (2 :: real) e"
  by simp

lemma p2_mono: "a \<le> b \<Longrightarrow> power_int (2 :: real) a \<le> power_int 2 b"
  by (rule power_int_increasing) simp_all

lemma p2_strict: "a < b \<Longrightarrow> power_int (2 :: real) a < power_int 2 b"
  by (rule power_int_strict_increasing) simp_all

lemma p2_split: "power_int (2 :: real) (a + b) = power_int 2 a * power_int 2 b"
  by (rule power_int_add) simp

lemma p2_powr: "2 powr real_of_int e = power_int (2 :: real) e"
  by (rule powr_real_of_int') simp_all

lemma p2_nat: "power_int (2 :: real) (int n) = 2 ^ n"
  by (rule power_int_of_nat)

text \<open>The exponent of a number in the normal range, and below it.\<close>

lemma bin_exponent_normal:
  assumes "power_int 2 e \<le> \<bar>x\<bar>" "\<bar>x\<bar> < power_int 2 (e + 1)" "emin \<le> e"
  shows "bin_exponent emin x = e"
proof -
  have pos: "0 < \<bar>x\<bar>" using assms(1) p2_pos [of e] by linarith
  have "\<lfloor>log 2 \<bar>x\<bar>\<rfloor> = e"
    using assms(1,2) pos by (simp add: floor_log_eq_powr_iff p2_powr [symmetric])
  then show ?thesis using assms(3) by (simp add: bin_exponent_def)
qed

lemma bin_exponent_subnormal:
  assumes "x \<noteq> 0" "\<bar>x\<bar> < power_int 2 emin"
  shows "bin_exponent emin x = emin"
proof -
  have pos: "0 < \<bar>x\<bar>" using assms(1) by simp
  have h: "\<bar>x\<bar> < 2 powr real_of_int emin" using assms(2) by (simp only: p2_powr)
  have "log 2 \<bar>x\<bar> < real_of_int emin \<longleftrightarrow> \<bar>x\<bar> < 2 powr real_of_int emin"
    by (rule log_less_iff) (simp, fact pos)
  with h have "log 2 \<bar>x\<bar> < real_of_int emin" by blast
  then have "\<lfloor>log 2 \<bar>x\<bar>\<rfloor> \<le> emin" by linarith
  then show ?thesis by (simp add: bin_exponent_def)
qed

lemma bin_exponent_cases:
  assumes "x \<noteq> 0"
  obtains (normal) e where "bin_exponent emin x = e" "power_int 2 e \<le> \<bar>x\<bar>" "\<bar>x\<bar> < power_int 2 (e + 1)" "emin \<le> e"
  | (subnormal) "bin_exponent emin x = emin" "\<bar>x\<bar> < power_int 2 emin"
proof (cases "\<bar>x\<bar> < power_int 2 emin")
  case True
  with assms bin_exponent_subnormal show ?thesis by (intro subnormal) auto
next
  case False
  define e where "e = \<lfloor>log 2 \<bar>x\<bar>\<rfloor>"
  have pos: "0 < \<bar>x\<bar>" using assms by simp
  have b: "power_int 2 e \<le> \<bar>x\<bar>" "\<bar>x\<bar> < power_int 2 (e + 1)"
    using floor_log_eq_powr_iff [of "\<bar>x\<bar>" 2 e] pos
    by (simp_all add: e_def p2_powr [symmetric])
  have "emin \<le> e"
  proof (rule ccontr)
    assume "\<not> emin \<le> e"
    then have "e + 1 \<le> emin" by simp
    then have "power_int (2 :: real) (e + 1) \<le> power_int 2 emin" by (rule p2_mono)
    with b(2) False show False by linarith
  qed
  with b show ?thesis using bin_exponent_normal [of e x emin] by (intro normal [of e]) auto
qed

lemma bin_exponent_ge: "emin \<le> bin_exponent emin x"
  by (simp add: bin_exponent_def)

lemma bin_exponent_minus [simp]: "bin_exponent emin (- x) = bin_exponent emin x"
  by (simp add: bin_exponent_def)

lemma bin_ulp_minus [simp]: "bin_ulp p emin (- x) = bin_ulp p emin x"
  by (simp add: bin_ulp_def)

lemma bin_ulp_pos [simp]: "0 < bin_ulp p emin x"
  by (simp add: bin_ulp_def)

lemma bin_ulp_nonneg [simp]: "0 \<le> bin_ulp p emin x"
  by (simp add: bin_ulp_def)

lemma bin_round_minus: "bin_round p emin (- x) = - bin_round p emin x"
  by (simp add: bin_round_def round_even_minus)

lemma bin_round_zero [simp]: "bin_round p emin 0 = 0"
  using round_even_of_int [of 0] by (simp add: bin_round_def)

text \<open>A rounded positive number stays in the interval of its exponent.\<close>

lemma bin_round_interval:
  assumes "0 < x" and p: "0 < p"
  shows "bin_round p emin x \<le> power_int 2 (bin_exponent emin x + 1)"
    and "power_int 2 emin \<le> x \<Longrightarrow> power_int 2 (bin_exponent emin x) \<le> bin_round p emin x"
    and "0 \<le> bin_round p emin x"
proof -
  let ?e = "bin_exponent emin x" and ?u = "bin_ulp p emin x"
  have u: "?u = power_int 2 (?e - (int p - 1))" by (simp add: bin_ulp_def)
  have up: "power_int 2 (?e + 1) = of_int (2 ^ p) * ?u"
  proof -
    have "?e + 1 = int p + (?e - (int p - 1))" by simp
    then have "power_int (2 :: real) (?e + 1) = power_int 2 (int p + (?e - (int p - 1)))" by (simp only:)
    also have "\<dots> = power_int 2 (int p) * power_int 2 (?e - (int p - 1))" by (rule p2_split)
    finally show ?thesis by (simp add: u p2_nat)
  qed
  have lo: "power_int 2 ?e = of_int (2 ^ (p - 1)) * ?u"
  proof -
    have "?e = int (p - 1) + (?e - (int p - 1))" using p by simp
    then have "power_int (2 :: real) ?e = power_int 2 (int (p - 1) + (?e - (int p - 1)))" by (simp only:)
    also have "\<dots> = power_int 2 (int (p - 1)) * power_int 2 (?e - (int p - 1))" by (rule p2_split)
    finally show ?thesis by (simp add: u p2_nat)
  qed
  have xne: "x \<noteq> 0" and ax: "\<bar>x\<bar> = x" using assms by simp_all
  have xlt: "x < power_int 2 (?e + 1)"
  proof (rule bin_exponent_cases [OF xne, of emin])
    fix e assume "bin_exponent emin x = e" "\<bar>x\<bar> < power_int 2 (e + 1)"
    then show ?thesis by (simp add: ax)
  next
    assume s: "bin_exponent emin x = emin" "\<bar>x\<bar> < power_int 2 emin"
    have "power_int (2 :: real) emin \<le> power_int 2 (emin + 1)" by (rule p2_mono) simp
    with s show ?thesis unfolding ax s(1) by linarith
  qed
  then have "x / ?u \<le> of_int (2 ^ p)" unfolding up by (simp add: field_simps)
  then have "round_even (x / ?u) \<le> 2 ^ p" by (rule round_even_le)
  then have "of_int (round_even (x / ?u)) \<le> (of_int (2 ^ p) :: real)" by (simp only: of_int_le_iff)
  then show "bin_round p emin x \<le> power_int 2 (?e + 1)"
    unfolding up bin_round_def by (simp add: mult_right_mono)
  have "0 \<le> x / ?u" using assms bin_ulp_pos [of p emin x] by (simp add: less_imp_le)
  then have "0 \<le> round_even (x / ?u)" using round_even_ge [of 0 "x / ?u"] by simp
  then show "0 \<le> bin_round p emin x" by (simp add: bin_round_def)
  assume n: "power_int 2 emin \<le> x"
  have "power_int 2 ?e \<le> x"
  proof (rule bin_exponent_cases [OF xne, of emin])
    fix e assume "bin_exponent emin x = e" "power_int 2 e \<le> \<bar>x\<bar>"
    then show ?thesis by (simp add: ax)
  next
    assume s: "bin_exponent emin x = emin" "\<bar>x\<bar> < power_int 2 emin"
    with n show ?thesis unfolding ax by linarith
  qed
  then have "of_int (2 ^ (p - 1)) \<le> x / ?u" unfolding lo by (simp add: field_simps)
  then have "2 ^ (p - 1) \<le> round_even (x / ?u)" by (rule round_even_ge)
  then have "(of_int (2 ^ (p - 1)) :: real) \<le> of_int (round_even (x / ?u))" by (simp only: of_int_le_iff)
  then show "power_int 2 ?e \<le> bin_round p emin x"
    unfolding lo bin_round_def by (simp add: mult_right_mono)
qed

lemma bin_exponent_mono:
  assumes "0 < x" "x \<le> y"
  shows "bin_exponent emin x \<le> bin_exponent emin y"
proof -
  have "log 2 \<bar>x\<bar> \<le> log 2 \<bar>y\<bar>" using assms by simp
  then have "\<lfloor>log 2 \<bar>x\<bar>\<rfloor> \<le> \<lfloor>log 2 \<bar>y\<bar>\<rfloor>" by (rule floor_mono)
  then show ?thesis by (simp add: bin_exponent_def)
qed

lemma bin_round_mono_pos:
  assumes "0 < x" "x \<le> y" and p: "0 < p"
  shows "bin_round p emin x \<le> bin_round p emin y"
proof (cases "bin_exponent emin x = bin_exponent emin y")
  case True
  then have u: "bin_ulp p emin x = bin_ulp p emin y" by (simp add: bin_ulp_def)
  have "x / bin_ulp p emin y \<le> y / bin_ulp p emin y"
    by (rule divide_right_mono) (use assms(2) in \<open>simp_all add: less_imp_le\<close>)
  then have "round_even (x / bin_ulp p emin y) \<le> round_even (y / bin_ulp p emin y)" by (rule round_even_mono)
  then have "(of_int (round_even (x / bin_ulp p emin y)) :: real) \<le> of_int (round_even (y / bin_ulp p emin y))"
    by (simp only: of_int_le_iff)
  then show ?thesis unfolding bin_round_def u by (simp add: mult_right_mono)
next
  case False
  with bin_exponent_mono [OF assms(1,2), of emin]
  have lt: "bin_exponent emin x + 1 \<le> bin_exponent emin y" by simp
  have ypos: "0 < y" using assms by linarith
  have "emin \<le> bin_exponent emin x" by (rule bin_exponent_ge)
  with lt have gt: "emin < bin_exponent emin y" by simp
  have yne: "y \<noteq> 0" and ay: "\<bar>y\<bar> = y" using ypos by simp_all
  have "power_int 2 emin \<le> y"
  proof (rule bin_exponent_cases [OF yne, of emin])
    fix e assume e: "bin_exponent emin y = e" "power_int 2 e \<le> \<bar>y\<bar>" "emin \<le> e"
    have "power_int (2 :: real) emin \<le> power_int 2 e" using e(3) by (rule p2_mono)
    with e(2) show ?thesis unfolding ay by linarith
  next
    assume "bin_exponent emin y = emin"
    with gt show ?thesis by simp
  qed
  from bin_round_interval(2) [OF ypos p this]
  have "power_int 2 (bin_exponent emin y) \<le> bin_round p emin y" .
  moreover have "bin_round p emin x \<le> power_int 2 (bin_exponent emin x + 1)"
    by (rule bin_round_interval(1) [OF assms(1) p])
  moreover have "power_int (2 :: real) (bin_exponent emin x + 1) \<le> power_int 2 (bin_exponent emin y)"
    using lt by (rule p2_mono)
  ultimately show ?thesis by linarith
qed

lemma bin_round_nonneg: "0 < p \<Longrightarrow> 0 \<le> x \<Longrightarrow> 0 \<le> bin_round p emin x"
  using bin_round_interval(3) [of x p emin] by (cases "x = 0") auto

lemma bin_round_mono:
  assumes "x \<le> y" and p: "0 < p"
  shows "bin_round p emin x \<le> bin_round p emin y"
proof -
  consider "0 < x" | "x \<le> 0" "0 \<le> y" | "y < 0" by linarith
  then show ?thesis
  proof cases
    case 1
    then show ?thesis using assms by (intro bin_round_mono_pos)
  next
    case 2
    have "0 \<le> bin_round p emin (- x)" using 2(1) p by (intro bin_round_nonneg) simp_all
    then have "bin_round p emin x \<le> 0" by (simp add: bin_round_minus)
    moreover have "0 \<le> bin_round p emin y" using 2(2) p by (intro bin_round_nonneg)
    ultimately show ?thesis by linarith
  next
    case 3
    have "bin_round p emin (- y) \<le> bin_round p emin (- x)"
      using 3 assms by (intro bin_round_mono_pos) simp_all
    then show ?thesis by (simp add: bin_round_minus)
  qed
qed

text \<open>The numbers \<open>k 2\<^sup>q\<close> with \<open>|k| < 2\<^sup>p\<close> are stored as they are.\<close>

lemma bin_round_exact:
  assumes x: "x = of_int k * power_int 2 q" and k: "\<bar>k\<bar> < 2 ^ p" and q: "emin - (int p - 1) \<le> q"
  shows "bin_round p emin x = x"
proof (cases "k = 0")
  case True
  then show ?thesis by (simp add: x)
next
  case False
  then have xne: "x \<noteq> 0" by (simp add: x)
  let ?e = "bin_exponent emin x"
  have ax: "\<bar>x\<bar> = of_int \<bar>k\<bar> * power_int 2 q" by (simp add: x abs_mult)
  have "(of_int \<bar>k\<bar> :: real) < of_int (2 ^ p)" using k by (simp only: of_int_less_iff)
  then have "\<bar>x\<bar> < of_int (2 ^ p) * power_int 2 q" unfolding ax by (simp add: mult_strict_right_mono)
  also have "of_int (2 ^ p) * power_int 2 q = power_int (2 :: real) (int p + q)"
    by (simp add: p2_split p2_nat)
  finally have lt: "\<bar>x\<bar> < power_int 2 (int p + q)" .
  have e: "?e - (int p - 1) \<le> q"
  proof (rule bin_exponent_cases [OF xne, of emin])
    fix e assume e: "bin_exponent emin x = e" "power_int 2 e \<le> \<bar>x\<bar>"
    with lt have "power_int (2 :: real) e < power_int 2 (int p + q)" by linarith
    then have "e < int p + q"
      by (metis not_less p2_mono leD)
    then show ?thesis by (simp add: e(1))
  next
    assume "bin_exponent emin x = emin"
    then show ?thesis using q by simp
  qed
  define n where "n = nat (q - (?e - (int p - 1)))"
  define u where "u = bin_ulp p emin x"
  have upos: "0 < u" by (simp add: u_def)
  have qn: "q = int n + (?e - (int p - 1))" using e by (simp add: n_def)
  have "power_int (2 :: real) q = power_int 2 (int n) * power_int 2 (?e - (int p - 1))"
    by (subst qn) (rule p2_split)
  then have pq: "power_int (2 :: real) q = 2 ^ n * u"
    by (simp add: bin_ulp_def u_def p2_nat)
  have xu: "x = of_int (k * 2 ^ n) * u"
    by (subst x, subst pq) simp
  then have "x / u = of_int (k * 2 ^ n)" using upos by simp
  then have "round_even (x / u) = k * 2 ^ n" by (simp only: round_even_of_int)
  then have "of_int (round_even (x / u)) * u = x" by (simp only: xu [symmetric])
  then show ?thesis by (simp only: bin_round_def u_def)
qed

lemma bin_round_int: "\<bar>k\<bar> < 2 ^ p \<Longrightarrow> emin - (int p - 1) \<le> 0 \<Longrightarrow> bin_round p emin (of_int k) = of_int k"
  using bin_round_exact [of "of_int k" k 0 p emin] by simp

text \<open>More than half of the smallest positive number is not stored as zero.\<close>

lemma bin_round_pos:
  assumes "power_int 2 (emin - int p) < x" and p: "0 < p"
  shows "0 < bin_round p emin x"
proof -
  have xpos: "0 < x" using assms(1) p2_pos [of "emin - int p"] by linarith
  show ?thesis
  proof (cases "power_int 2 emin \<le> x")
    case True
    from bin_round_interval(2) [OF xpos p True] p2_pos [of "bin_exponent emin x"]
    show ?thesis by linarith
  next
    case False
    then have "bin_exponent emin x = emin" using xpos by (intro bin_exponent_subnormal) simp_all
    then have u: "bin_ulp p emin x = power_int 2 (emin - (int p - 1))" by (simp add: bin_ulp_def)
    let ?u = "power_int (2 :: real) (emin - (int p - 1))"
    have "emin - (int p - 1) = (emin - int p) + 1" by simp
    then have "?u = power_int 2 ((emin - int p) + 1)" by (simp only:)
    also have "\<dots> = power_int 2 (emin - int p) * 2" by (simp add: p2_split)
    finally have "power_int (2 :: real) (emin - int p) = ?u / 2" by simp
    with assms(1) have h: "1 / 2 < x / ?u" by (simp add: field_simps)
    have "1 \<le> round_even (x / ?u)"
    proof (cases "1 \<le> x / ?u")
      case True
      then show ?thesis using round_even_ge [of 1 "x / ?u"] by simp
    next
      case False
      then have "\<lfloor>x / ?u\<rfloor> = 0" using h by (simp add: floor_eq_iff)
      then show ?thesis using h by (simp add: round_even_def Let_def)
    qed
    then have "(1 :: real) \<le> of_int (round_even (x / ?u))" by simp
    then have "0 < of_int (round_even (x / ?u)) * ?u"
      by (intro mult_pos_pos) simp_all
    then show ?thesis by (simp add: bin_round_def u)
  qed
qed

text \<open>The two formats.\<close>

lemma f32_round_mono: "x \<le> y \<Longrightarrow> f32_round x \<le> f32_round y"
  unfolding f32_round_def by (rule bin_round_mono) simp_all

lemma f32_round_minus: "f32_round (- x) = - f32_round x"
  unfolding f32_round_def by (rule bin_round_minus)

lemma f32_round_zero [simp]: "f32_round 0 = 0"
  unfolding f32_round_def by (rule bin_round_zero)

lemma f32_round_nonneg: "0 \<le> x \<Longrightarrow> 0 \<le> f32_round x"
  unfolding f32_round_def by (rule bin_round_nonneg) simp_all

lemma f32_round_exact:
  assumes "x = of_int k * power_int 2 q" "\<bar>k\<bar> < 2 ^ 24" "- 149 \<le> q"
  shows "f32_round x = x"
  unfolding f32_round_def using assms by (intro bin_round_exact [of x k q]) simp_all

lemma f32_round_int: "\<bar>k\<bar> < 2 ^ 24 \<Longrightarrow> f32_round (of_int k) = of_int k"
  using f32_round_exact [of "of_int k" k 0] by simp

lemma f32_round_max: "f32_round max_float32 = max_float32"
proof -
  have "max_float32 = of_int (2 ^ 24 - 1) * power_int 2 104"
    by (simp add: max_float32_def)
  then show ?thesis by (rule f32_round_exact) simp_all
qed

lemma f32_round_range:
  assumes "\<bar>x\<bar> \<le> max_float32"
  shows "\<bar>f32_round x\<bar> \<le> max_float32"
proof -
  have "f32_round x \<le> f32_round max_float32" using assms by (intro f32_round_mono) linarith
  moreover have "f32_round (- max_float32) \<le> f32_round x" using assms by (intro f32_round_mono) linarith
  ultimately show ?thesis by (simp add: f32_round_max f32_round_minus)
qed

lemma max_float32_less: "max_float32 < 2 ^ 128"
  by (simp add: max_float32_def)

lemma f32_round_pos: "power_int 2 (- 150) < x \<Longrightarrow> 0 < f32_round x"
  unfolding f32_round_def using bin_round_pos [of "- 126" 24 x] by simp

lemma f32_round_five: "f32_round 5 = 5"
  using f32_round_int [of 5] by simp



lemma f64_round_zero [simp]: "f64_round 0 = 0"
  unfolding f64_round_def by (rule bin_round_zero)

lemma f64_round_exact:
  assumes "x = of_int k * power_int 2 q" "\<bar>k\<bar> < 2 ^ 53" "- 1074 \<le> q"
  shows "f64_round x = x"
  unfolding f64_round_def using assms by (intro bin_round_exact [of x k q]) simp_all

lemma f64_round_int: "\<bar>k\<bar> < 2 ^ 53 \<Longrightarrow> f64_round (of_int k) = of_int k"
  using f64_round_exact [of "of_int k" k 0] by simp

lemma f64_round_pos: "power_int 2 (- 1075) < x \<Longrightarrow> 0 < f64_round x"
  unfolding f64_round_def using bin_round_pos [of "- 1022" 53 x] by simp

text \<open>A rounded number is a number of the format.\<close>

lemma bin_round_idem:
  assumes p: "0 < p"
  shows "bin_round p emin (bin_round p emin x) = bin_round p emin x"
proof -
  have pos: "bin_round p emin (bin_round p emin x) = bin_round p emin x" if x: "0 < x" for x
  proof -
    let ?e = "bin_exponent emin x" and ?u = "bin_ulp p emin x"
    define k where "k = round_even (x / ?u)"
    have y: "bin_round p emin x = of_int k * power_int 2 (?e - (int p - 1))"
      by (simp add: bin_round_def k_def bin_ulp_def)
    have "0 \<le> x / ?u" using x by (simp add: less_imp_le)
    then have k0: "0 \<le> k" unfolding k_def using round_even_ge [of 0 "x / ?u"] by simp
    have "?e + 1 = int p + (?e - (int p - 1))" by simp
    then have "power_int (2 :: real) (?e + 1) = power_int 2 (int p + (?e - (int p - 1)))" by (simp only:)
    also have "\<dots> = 2 ^ p * power_int 2 (?e - (int p - 1))" by (simp only: p2_split p2_nat)
    finally have up: "power_int (2 :: real) (?e + 1) = 2 ^ p * power_int 2 (?e - (int p - 1))" .
    from bin_round_interval(1) [OF x p, of emin]
    have "of_int k * power_int 2 (?e - (int p - 1)) \<le> 2 ^ p * power_int (2 :: real) (?e - (int p - 1))"
      unfolding y up .
    then have "(of_int k :: real) \<le> 2 ^ p" by simp
    then have kp: "k \<le> 2 ^ p" by (metis of_int_le_iff of_int_numeral of_int_power)
    show ?thesis
    proof (cases "k = 2 ^ p")
      case False
      with kp k0 have "\<bar>k\<bar> < 2 ^ p" by simp
      moreover have "emin - (int p - 1) \<le> ?e - (int p - 1)" using bin_exponent_ge [of emin x] by simp
      ultimately show ?thesis using y by (intro bin_round_exact [of _ k "?e - (int p - 1)"])
    next
      case True
      have "2 ^ p = (2 :: int) ^ (p - 1) * 2" using p by (cases p) simp_all
      then have "(of_int k :: real) = of_int (2 ^ (p - 1)) * 2" unfolding True by simp
      then have "bin_round p emin x = of_int (2 ^ (p - 1)) * (power_int 2 (?e - (int p - 1)) * 2)"
        unfolding y by simp
      also have "power_int (2 :: real) (?e - (int p - 1)) * 2 = power_int 2 (?e - (int p - 1) + 1)"
        by (simp only: p2_split power_int_1_right)
      finally have y': "bin_round p emin x = of_int (2 ^ (p - 1)) * power_int 2 (?e - (int p - 1) + 1)" .
      have "\<bar>(2 :: int) ^ (p - 1)\<bar> < 2 ^ p" using p by simp
      moreover have "emin - (int p - 1) \<le> ?e - (int p - 1) + 1" using bin_exponent_ge [of emin x] by simp
      ultimately show ?thesis using y' by (intro bin_round_exact [of _ "2 ^ (p - 1)" "?e - (int p - 1) + 1"])
    qed
  qed
  consider "0 < x" | "x = 0" | "0 < - x" by linarith
  then show ?thesis
  proof cases
    case 1
    then show ?thesis by (rule pos)
  next
    case 2
    then show ?thesis by simp
  next
    case 3
    from pos [OF this] show ?thesis by (simp add: bin_round_minus)
  qed
qed

lemma f64_round_idem [simp]: "f64_round (f64_round x) = f64_round x"
  unfolding f64_round_def by (rule bin_round_idem) simp


lemma f64_round_one [simp]: "f64_round 1 = 1"
  using f64_round_int [of 1] by simp

section \<open>Vectors with finite components\<close>

lemma is_finite_iff: "is_finite a \<longleftrightarrow> (\<exists>r. a = Fin r)"
  by (cases a) simp_all

lemma finite_vec_iff: "finite_vec v \<longleftrightarrow> (\<exists>p. v = vfin p)"
proof
  assume "finite_vec v"
  then obtain a b c where "vx v = Fin a" "vy v = Fin b" "vz v = Fin c"
    by (auto simp: finite_vec_def is_finite_iff)
  then have "v = vfin (a, b, c)" by (simp add: vfin_def Vector3_def)
  then show "\<exists>p. v = vfin p" by blast
next
  assume "\<exists>p. v = vfin p"
  then obtain a b c where "v = vfin (a, b, c)" by (metis prod_cases3)
  then show "finite_vec v" by (simp add: finite_vec_def)
qed

lemma finite_vfin [simp]: "finite_vec (vfin p)"
  unfolding finite_vec_iff by blast

lemma vfin_inject [simp]: "vfin p = vfin q \<longleftrightarrow> p = q"
  by (cases p; cases q) (auto simp: vfin_def Vector3_def)

lemma vfin_Vector3: "Vector3 (Fin a) (Fin b) (Fin c) = vfin (a, b, c)"
  by (simp add: vfin_def)

lemma vfin_ops [simp]:
  "subVectors (vfin p) (vfin q) = vfin (psub p q)"
  "sub (vfin p) (vfin q) = vfin (psub p q)"
  "add (vfin p) (vfin q) = vfin (padd p q)"
  "multiplyScalar (vfin p) (Fin s) = vfin (pscale s p)"
  "addScaledVector (vfin p) (vfin q) (Fin s) = vfin (padd p (pscale s q))"
  "lengthSq (vfin p) = Fin (dot p p)"
  "distanceToSquared (vfin p) (vfin q) = Fin (dot (psub p q) (psub p q))"
  by (cases p; cases q; simp add: subVectors_def sub_def add_def multiplyScalar_def
      addScaledVector_def lengthSq_def distanceToSquared_def Let_def mult.commute vfin_Vector3)+

lemma dot_self_nonneg [simp]: "0 \<le> dot p p"
  by (cases p) simp

lemma dot_self_zero [simp]: "dot p p = 0 \<longleftrightarrow> p = (0, 0, 0)"
  by (cases p) (auto simp: sum_squares_eq_zero_iff add_nonneg_eq_0_iff)

lemma length_vfin [simp]: "length_vec (vfin p) = Fin (pnorm p)"
proof -
  have "length_vec (vfin p) = Math_sqrt (lengthSq (vfin p))"
    by (simp add: length_vec_def lengthSq_def)
  moreover have "\<not> dot p p < 0" by (simp add: not_less)
  ultimately show ?thesis by (simp add: pnorm_def)
qed

lemma pnorm_zero [simp]: "pnorm p = 0 \<longleftrightarrow> p = (0, 0, 0)"
  by (simp add: pnorm_def)

lemma normalize_vfin [simp]: "normalize (vfin p) = vfin (punit p)"
proof (cases "p = (0, 0, 0)")
  case True
  have "pscale 1 (0, 0, 0) = (0, 0, 0)" by simp
  with True show ?thesis by (simp add: normalize_def divideScalar_def punit_def)
next
  case False
  then show ?thesis by (simp add: normalize_def divideScalar_def punit_def)
qed

section \<open>The intersection test\<close>

lemma rayTriX_code_fin:
  fixes a0 b0 c0 a1 b1 c1 a2 b2 c2 ox wy wz :: real
  defines "a \<equiv> (b1 - b0) * - (c2 - c0) + (c1 - c0) * (b2 - b0)"
  defines "u \<equiv> 1 / a * ((wy - b0) * - (c2 - c0) + (wz - c0) * (b2 - b0))"
  defines "qx \<equiv> (wy - b0) * (c1 - c0) - (wz - c0) * (b1 - b0)"
  defines "qy \<equiv> (wz - c0) * (a1 - a0) - (ox - a0) * (c1 - c0)"
  defines "qz \<equiv> (ox - a0) * (b1 - b0) - (wy - b0) * (a1 - a0)"
  defines "v \<equiv> 1 / a * qx"
  defines "t \<equiv> 1 / a * ((a2 - a0) * qx + (b2 - b0) * qy + (c2 - c0) * qz)"
  shows "rayTriX (Fin ox) (Fin wy) (Fin wz) (vfin (a0, b0, c0)) (vfin (a1, b1, c1)) (vfin (a2, b2, c2)) =
     (if \<bar>a\<bar> < eps then None
      else if u < - eps \<or> 1 + eps < u then None
      else if v < - eps \<or> 1 + eps < u + v then None
      else if t < eps then None else Some (Fin (ox + t)))"
proof (cases "\<bar>a\<bar> < eps")
  case True
  then show ?thesis
    unfolding a_def by (simp add: rayTriX_def Vector3_def EPSILON_def eps_def Let_def)
next
  case False
  then have nz: "a \<noteq> 0" by (auto simp: eps_def)
  have f: "Fin 1 div Fin a = Fin (1 / a)" using nz by simp
  show ?thesis
    using False nz f unfolding a_def u_def v_def t_def qx_def qy_def qz_def
    by (simp add: rayTriX_def Vector3_def EPSILON_def eps_def Let_def)
qed

lemma mt_code:
  fixes a0 b0 c0 a1 b1 c1 a2 b2 c2 ox wy wz :: real
  defines "a \<equiv> (b1 - b0) * - (c2 - c0) + (c1 - c0) * (b2 - b0)"
  defines "qx \<equiv> (wy - b0) * (c1 - c0) - (wz - c0) * (b1 - b0)"
  defines "qy \<equiv> (wz - c0) * (a1 - a0) - (ox - a0) * (c1 - c0)"
  defines "qz \<equiv> (ox - a0) * (b1 - b0) - (wy - b0) * (a1 - a0)"
  shows "mt_a (a0, b0, c0) (a1, b1, c1) (a2, b2, c2) = a"
    and "mt_u (ox, wy, wz) (a0, b0, c0) (a1, b1, c1) (a2, b2, c2) =
           1 / a * ((wy - b0) * - (c2 - c0) + (wz - c0) * (b2 - b0))"
    and "mt_v (ox, wy, wz) (a0, b0, c0) (a1, b1, c1) (a2, b2, c2) = 1 / a * qx"
    and "mt_t (ox, wy, wz) (a0, b0, c0) (a1, b1, c1) (a2, b2, c2) =
           1 / a * ((a2 - a0) * qx + (b2 - b0) * qy + (c2 - c0) * qz)"
  unfolding a_def qx_def qy_def qz_def
  by (simp_all add: mt_a_def mt_u_def mt_v_def mt_t_def xdir_def)

lemma rayTriX_fin:
  "rayTriX (Fin ox) (Fin wy) (Fin wz) (vfin p0) (vfin p1) (vfin p2) =
     (if eps \<le> \<bar>mt_a p0 p1 p2\<bar> \<and>
         - eps \<le> mt_u (ox, wy, wz) p0 p1 p2 \<and> mt_u (ox, wy, wz) p0 p1 p2 \<le> 1 + eps \<and>
         - eps \<le> mt_v (ox, wy, wz) p0 p1 p2 \<and>
         mt_u (ox, wy, wz) p0 p1 p2 + mt_v (ox, wy, wz) p0 p1 p2 \<le> 1 + eps \<and>
         eps \<le> mt_t (ox, wy, wz) p0 p1 p2
      then Some (Fin (ox + mt_t (ox, wy, wz) p0 p1 p2)) else None)"
proof -
  obtain a0 b0 c0 where p0: "p0 = (a0, b0, c0)" by (cases p0)
  obtain a1 b1 c1 where p1: "p1 = (a1, b1, c1)" by (cases p1)
  obtain a2 b2 c2 where p2: "p2 = (a2, b2, c2)" by (cases p2)
  show ?thesis
    unfolding p0 p1 p2 rayTriX_code_fin mt_code
    by (auto simp: not_less not_le)
qed

lemma mt_point:
  assumes "mt_a p0 p1 p2 \<noteq> 0"
  shows "padd (ox, wy, wz) (pscale (mt_t (ox, wy, wz) p0 p1 p2) xdir) =
         padd p0 (padd (pscale (mt_u (ox, wy, wz) p0 p1 p2) (psub p1 p0))
                       (pscale (mt_v (ox, wy, wz) p0 p1 p2) (psub p2 p0)))"
proof -
  obtain a0 b0 c0 where p0: "p0 = (a0, b0, c0)" by (cases p0)
  obtain a1 b1 c1 where p1: "p1 = (a1, b1, c1)" by (cases p1)
  obtain a2 b2 c2 where p2: "p2 = (a2, b2, c2)" by (cases p2)
  define a where "a = mt_a p0 p1 p2"
  define nu where "nu = dot (psub (ox, wy, wz) p0) (cross xdir (psub p2 p0))"
  define nv where "nv = dot xdir (cross (psub (ox, wy, wz) p0) (psub p1 p0))"
  define nt where "nt = dot (psub p2 p0) (cross (psub (ox, wy, wz) p0) (psub p1 p0))"
  have nz: "a \<noteq> 0" using assms by (simp add: a_def)
  have X: "a * ox + nt = a * a0 + nu * (a1 - a0) + nv * (a2 - a0)"
    by (simp add: a_def nu_def nv_def nt_def mt_a_def p0 p1 p2 xdir_def algebra_simps)
  have Y: "a * wy = a * b0 + nu * (b1 - b0) + nv * (b2 - b0)"
    by (simp add: a_def nu_def nv_def nt_def mt_a_def p0 p1 p2 xdir_def algebra_simps)
  have Z: "a * wz = a * c0 + nu * (c1 - c0) + nv * (c2 - c0)"
    by (simp add: a_def nu_def nv_def nt_def mt_a_def p0 p1 p2 xdir_def algebra_simps)
  have X': "ox + nt / a = a0 + (nu / a * (a1 - a0) + nv / a * (a2 - a0))"
  proof -
    have "ox + nt / a = (a * ox + nt) / a" using nz by (simp add: add_divide_distrib)
    also have "\<dots> = (a * a0 + nu * (a1 - a0) + nv * (a2 - a0)) / a" by (simp only: X)
    also have "\<dots> = a0 + (nu / a * (a1 - a0) + nv / a * (a2 - a0))"
      using nz by (simp add: add_divide_distrib)
    finally show ?thesis .
  qed
  have Y': "wy = b0 + (nu / a * (b1 - b0) + nv / a * (b2 - b0))"
  proof -
    have "wy = (a * wy) / a" using nz by simp
    also have "\<dots> = (a * b0 + nu * (b1 - b0) + nv * (b2 - b0)) / a" by (simp only: Y)
    also have "\<dots> = b0 + (nu / a * (b1 - b0) + nv / a * (b2 - b0))"
      using nz by (simp add: add_divide_distrib)
    finally show ?thesis .
  qed
  have Z': "wz = c0 + (nu / a * (c1 - c0) + nv / a * (c2 - c0))"
  proof -
    have "wz = (a * wz) / a" using nz by simp
    also have "\<dots> = (a * c0 + nu * (c1 - c0) + nv * (c2 - c0)) / a" by (simp only: Z)
    also have "\<dots> = c0 + (nu / a * (c1 - c0) + nv / a * (c2 - c0))"
      using nz by (simp add: add_divide_distrib)
    finally show ?thesis .
  qed
  have "padd (ox, wy, wz) (pscale (nt / a) xdir) =
        padd p0 (padd (pscale (nu / a) (psub p1 p0)) (pscale (nv / a) (psub p2 p0)))"
    using X' Y' Z' by (simp add: p0 p1 p2 xdir_def)
  then show ?thesis
    by (simp only: mt_t_def mt_u_def mt_v_def a_def nu_def nv_def nt_def)
qed



lemma rounded_id [simp]: "rounded (\<lambda>x. x) z = z"
  by (cases z) simp_all









text \<open>
  Claim C7 as stated expects a hit on the triangle \<open>(0,0,0), (2,0,0), (0,2,0)\<close> for the ray
  through \<open>y = 0.5\<close>, \<open>z = 0.5\<close>. The triangle lies in the plane \<open>z = 0\<close>, parallel to the
  ray, and the code returns no hit.
\<close>

theorem rayTriX_flat_triangle_counterexample:
  "rayTriX (Fin (- 1)) (Fin (1 / 2)) (Fin (1 / 2)) (vfin (0, 0, 0)) (vfin (2, 0, 0)) (vfin (0, 2, 0)) = None"
  by (simp add: rayTriX_def EPSILON_def Let_def)

text \<open>
  Claim C7, as the code has it. Every ray along +X is parallel to the plane of the triangle
  \<open>(0,0,0), (2,0,0), (0,2,0)\<close> (the determinant is zero), so the function returns no hit
  for it, whatever the ray. For the triangle \<open>(0,0,0), (0,2,0), (0,0,2)\<close>, which faces the
  ray, the ray from \<open>x = -1\<close> through \<open>y = 0.5\<close>, \<open>z = 0.5\<close> has the analytic hit parameter
  \<open>t = 1\<close> and the function returns the world-X coordinate \<open>-1 + 1 = 0\<close>; the ray through
  \<open>y = 3\<close>, \<open>z = 3\<close> misses the triangle and returns no hit.
\<close>

theorem rayTriX_example_triangles:
  "rayTriX rayOX wy wz (vfin (0, 0, 0)) (vfin (2, 0, 0)) (vfin (0, 2, 0)) = None \<and>
   mt_t (- 1, 1 / 2, 1 / 2) (0, 0, 0) (0, 2, 0) (0, 0, 2) = 1 \<and>
   rayTriX (Fin (- 1)) (Fin (1 / 2)) (Fin (1 / 2)) (vfin (0, 0, 0)) (vfin (0, 2, 0)) (vfin (0, 0, 2))
     = Some (Fin 0) \<and>
   rayTriX (Fin (- 1)) (Fin 3) (Fin 3) (vfin (0, 0, 0)) (vfin (0, 2, 0)) (vfin (0, 0, 2)) = None"
proof -
  have "rayTriX rayOX wy wz (vfin (0, 0, 0)) (vfin (2, 0, 0)) (vfin (0, 2, 0)) = None"
    by (simp add: rayTriX_def EPSILON_def Let_def)
  then show ?thesis
    by (simp add: rayTriX_def EPSILON_def Let_def mt_a_def mt_t_def xdir_def)
qed

text \<open>The same statement at the ray from \<open>x = -6\<close> through \<open>y = 0.5\<close>, \<open>z = 0\<close>, inside the plane.\<close>

theorem rayTriX_example_triangles_witness:
  "rayTriX (Fin (- 6)) (Fin (1 / 2)) (Fin 0) (vfin (0, 0, 0)) (vfin (2, 0, 0)) (vfin (0, 2, 0)) = None"
  using rayTriX_example_triangles [of "Fin (- 6)" "Fin (1 / 2)" "Fin 0"] by simp

section \<open>The substep keeps positions, velocities and the grid\<close>

lemma G_val: "G = Fin 32"
  by (simp add: G_def GRID_SIZE_def)

lemma repel_pair_pos: "i < length ns \<Longrightarrow> j < length ns \<Longrightarrow> map pos (repel_pair k i j ns) = map pos ns"
  by (auto intro!: nth_equalityI simp: repel_pair_def Let_def nth_list_update)

lemma repel_pair_vel: "i < length ns \<Longrightarrow> j < length ns \<Longrightarrow> map vel (repel_pair k i j ns) = map vel ns"
  by (auto intro!: nth_equalityI simp: repel_pair_def Let_def nth_list_update)

lemma repel_pair_length [simp]: "length (repel_pair k i j ns) = length ns"
  by (simp add: repel_pair_def Let_def)

lemma fold_repel_pair:
  "\<forall>j \<in> set js. j < length ns \<Longrightarrow> i < length ns \<Longrightarrow>
   length (fold (repel_pair k i) js ns) = length ns \<and>
   map pos (fold (repel_pair k i) js ns) = map pos ns \<and>
   map vel (fold (repel_pair k i) js ns) = map vel ns"
  by (induction js arbitrary: ns) (simp_all add: repel_pair_pos repel_pair_vel)

lemma repel_row_keeps:
  "i < length ns \<Longrightarrow>
   length (repel_row k i ns) = length ns \<and> map pos (repel_row k i ns) = map pos ns \<and>
   map vel (repel_row k i ns) = map vel ns"
  unfolding repel_row_def by (rule fold_repel_pair) auto

lemma fold_repel_row:
  "\<forall>i \<in> set is. i < length ns \<Longrightarrow>
   length (fold (repel_row k) is ns) = length ns \<and>
   map pos (fold (repel_row k) is ns) = map pos ns \<and>
   map vel (fold (repel_row k) is ns) = map vel ns"
  by (induction "is" arbitrary: ns) (simp_all add: repel_row_keeps)

lemma repulsion_keeps:
  "length (repulsion k ns) = length ns \<and> map pos (repulsion k ns) = map pos ns \<and>
   map vel (repulsion k ns) = map vel ns"
  unfolding repulsion_def by (rule fold_repel_row) auto

lemma guide_keeps [simp]: "pos (guide st n) = pos n" "vel (guide st n) = vel n"
  by (simp_all add: guide_def)

lemma boundary_keeps [simp]: "pos (boundary st n) = pos n" "vel (boundary st n) = vel n"
  by (simp_all add: boundary_def Let_def)

lemma accumulate_forces_keeps:
  "length (accumulate_forces st) = length (neurons st)"
  "map pos (accumulate_forces st) = map pos (neurons st)"
  "map vel (accumulate_forces st) = map vel (neurons st)"
proof -
  let ?z = "zero_forces (neurons st)"
  have z: "length ?z = length (neurons st)" "map pos ?z = map pos (neurons st)"
    "map vel ?z = map vel (neurons st)"
    by (simp_all add: zero_forces_def comp_def)
  have a: "map pos (accumulate_forces st) = map pos (repulsion (kRepel st) ?z)"
    and b: "map vel (accumulate_forces st) = map vel (repulsion (kRepel st) ?z)"
    by (simp_all add: accumulate_forces_def comp_def)
  show "length (accumulate_forces st) = length (neurons st)"
    using repulsion_keeps [of "kRepel st" ?z] z by (simp add: accumulate_forces_def)
  show "map pos (accumulate_forces st) = map pos (neurons st)"
    using a repulsion_keeps [of "kRepel st" ?z] z by simp
  show "map vel (accumulate_forces st) = map vel (neurons st)"
    using b repulsion_keeps [of "kRepel st" ?z] z by simp
qed

lemma integrate_inside:
  "isInside st (pos n) \<Longrightarrow> isInside st (pos (fst (integrate st dt n)))"
  by (simp add: integrate_def Let_def)

lemma integrate_all_length: "length (fst (integrate_all st dt ns ke)) = length ns"
  by (induction ns arbitrary: ke) (simp_all add: Let_def case_prod_beta)

lemma integrate_all_nth:
  "i < length ns \<Longrightarrow> fst (integrate_all st dt ns ke) ! i = fst (integrate st dt (ns ! i))"
proof (induction ns arbitrary: ke i)
  case Nil
  then show ?case by simp
next
  case (Cons n ns)
  show ?case
  proof (cases i)
    case 0
    then show ?thesis by (simp add: Let_def case_prod_beta)
  next
    case (Suc m)
    with Cons.prems have "m < length ns" by simp
    from Cons.IH [OF this] Suc show ?thesis
      by (simp add: Let_def case_prod_beta)
  qed
qed

lemma isInside_cong:
  "bounds st' = bounds st \<Longrightarrow> voxels st' = voxels st \<Longrightarrow> isInside st' p = isInside st p"
  by (simp add: isInside_def)

lemma subStep_static [simp]:
  "bounds (subStep dt st) = bounds st" "voxels (subStep dt st) = voxels st"
  "length (neurons (subStep dt st)) = length (neurons st)"
  "kRepel (subStep dt st) = kRepel st" "kLayer (subStep dt st) = kLayer st"
  "kBoundary (subStep dt st) = kBoundary st" "damping (subStep dt st) = damping st"
  "layerTargets (subStep dt st) = layerTargets st" "positions (subStep dt st) = positions st"
  "insideCache (subStep dt st) = insideCache st"
  using integrate_all_length [of st dt "accumulate_forces st" "Fin 0"]
  by (simp_all add: subStep_def Let_def accumulate_forces_keeps case_prod_beta)

lemma isInside_subStep: "isInside (subStep dt st) p = isInside st p"
  by (rule isInside_cong) simp_all

lemma subStep_nth:
  assumes "i < length (neurons st)"
  shows "neurons (subStep dt st) ! i = fst (integrate st dt (accumulate_forces st ! i))"
proof -
  have ne: "neurons st \<noteq> []" using assms by auto
  have "i < length (accumulate_forces st)" using assms by (simp add: accumulate_forces_keeps)
  from integrate_all_nth [OF this, of st dt "Fin 0"] ne show ?thesis
    by (simp add: subStep_def Let_def case_prod_beta)
qed

lemma accumulate_forces_nth:
  assumes "i < length (neurons st)"
  shows "pos (accumulate_forces st ! i) = pos (neurons st ! i)"
    and "vel (accumulate_forces st ! i) = vel (neurons st ! i)"
proof -
  have l: "i < length (accumulate_forces st)" using assms by (simp add: accumulate_forces_keeps)
  have "map pos (accumulate_forces st) ! i = map pos (neurons st) ! i"
    by (simp only: accumulate_forces_keeps)
  then show "pos (accumulate_forces st ! i) = pos (neurons st ! i)" using l assms by simp
  have "map vel (accumulate_forces st) ! i = map vel (neurons st) ! i"
    by (simp only: accumulate_forces_keeps)
  then show "vel (accumulate_forces st ! i) = vel (neurons st ! i)" using l assms by simp
qed

lemma subStep_all_inside:
  assumes "all_inside st"
  shows "all_inside (subStep dt st)"
  unfolding all_inside_def
proof
  fix n assume "n \<in> set (neurons (subStep dt st))"
  then obtain i where i: "i < length (neurons st)" and n: "n = neurons (subStep dt st) ! i"
    by (auto simp: in_set_conv_nth)
  have "isInside st (pos (neurons st ! i))" using assms i by (simp add: all_inside_def)
  then have "isInside st (pos (accumulate_forces st ! i))"
    using accumulate_forces_nth(1) [OF i] by simp
  then have "isInside st (pos n)" unfolding n subStep_nth [OF i] by (rule integrate_inside)
  then show "isInside (subStep dt st) (pos n)" by (simp add: isInside_subStep)
qed

lemma subSteps_all_inside: "all_inside st \<Longrightarrow> all_inside (fold subStep dts st)"
  by (induction dts arbitrary: st) (simp_all add: subStep_all_inside)

lemma subStep_funpow_static [simp]:
  "bounds ((subStep dt ^^ k) st) = bounds st" "voxels ((subStep dt ^^ k) st) = voxels st"
  "length (neurons ((subStep dt ^^ k) st)) = length (neurons st)"
  "positions ((subStep dt ^^ k) st) = positions st"
  by (induction k) simp_all

lemma subStep_funpow_all_inside: "all_inside st \<Longrightarrow> all_inside ((subStep dt ^^ k) st)"
  by (induction k) (simp_all add: subStep_all_inside)

lemma sync_positions_set:
  "sync_positions rows ns = Inr rows' \<Longrightarrow> row \<in> set rows' \<Longrightarrow> p \<in> set row \<Longrightarrow> p \<in> pos ` set ns"
proof (induction rows arbitrary: ns rows')
  case Nil
  then show ?case by simp
next
  case (Cons r rows)
  from Cons.prems(1) obtain rs where rs: "sync_positions rows (drop (length r) ns) = Inr rs"
    and rows': "rows' = map pos (take (length r) ns) # rs"
    by (auto split: if_splits sum.splits)
  show ?case
  proof (cases "row = map pos (take (length r) ns)")
    case True
    with Cons.prems(3) show ?thesis by (auto dest: in_set_takeD)
  next
    case False
    with Cons.prems(2) rows' have "row \<in> set rs" by simp
    from Cons.IH [OF rs this Cons.prems(3)] show ?thesis by (auto dest: in_set_dropD)
  qed
qed

lemma step_all_inside:
  assumes "all_inside st" and "step st = Inr st'"
  shows "all_inside st' \<and>
         (neurons st \<noteq> [] \<longrightarrow> (\<forall>row \<in> set (positions st'). \<forall>p \<in> set row. isInside st' p))"
proof (cases "neurons st = []")
  case True
  with assms have st': "st' = st" by (simp add: step_def)
  with assms(1) True show ?thesis by simp
next
  case False
  let ?s = "(subStep FIXED_DT ^^ SUB_STEPS) st"
  from assms(2) False obtain ps where ps: "sync_positions (positions ?s) (neurons ?s) = Inr ps"
    and st': "st' = ?s\<lparr>positions := ps\<rparr>"
    by (auto simp: step_def Let_def split: sum.splits)
  have inv: "all_inside ?s" using assms(1) by (rule subStep_funpow_all_inside)
  have eq: "isInside st' = isInside ?s" by (rule ext) (simp add: st' isInside_def)
  have a: "all_inside st'" using inv by (simp add: all_inside_def eq) (simp add: st')
  have b: "\<forall>row \<in> set (positions st'). \<forall>p \<in> set row. isInside st' p"
  proof (intro ballI)
    fix row p assume "row \<in> set (positions st')" and p: "p \<in> set row"
    then have "row \<in> set ps" by (simp add: st')
    from sync_positions_set [OF ps this p] inv show "isInside st' p"
      by (auto simp: all_inside_def eq)
  qed
  from a b show ?thesis by simp
qed

lemma integrate_fst:
  "fst (integrate st dt m) =
     (if isInside st (integrated_pos st dt m)
      then m\<lparr>prev := pos m, pos := integrated_pos st dt m, vel := integrated_vel st dt m\<rparr>
      else m\<lparr>prev := pos m, pos := pos m,
             vel := multiplyScalar (integrated_vel st dt m) (Fin (- (3 / 10)))\<rparr>)"
  by (simp add: integrate_def Let_def)

text \<open>
  Claim C1. If every neuron sits in an interior cell, then it does so after every sequence
  of substeps (with any time steps), and after a full tick, where the positions handed
  to the tick callback are interior as well. For each neuron, a substep integrates the
  velocity and the position from the forces of the unchanged positions; when the
  integrated position is not interior (its cell is exterior or out of the grid), the
  position committed is the one before the substep and the velocity committed is the
  integrated one times \<open>-0.3\<close>.
\<close>

theorem substeps_keep_nodes_inside:
  assumes "all_inside st"
  shows "all_inside (fold subStep dts st) \<and>
    (\<forall>st'. step st = Inr st' \<longrightarrow>
       all_inside st' \<and>
       (neurons st \<noteq> [] \<longrightarrow> (\<forall>row \<in> set (positions st'). \<forall>p \<in> set row. isInside st' p))) \<and>
    (\<forall>i < length (neurons st).
       pos (accumulate_forces st ! i) = pos (neurons st ! i) \<and>
       vel (accumulate_forces st ! i) = vel (neurons st ! i) \<and>
       pos (neurons (subStep dt st) ! i) =
         (if isInside st (integrated_pos st dt (accumulate_forces st ! i))
          then integrated_pos st dt (accumulate_forces st ! i)
          else pos (neurons st ! i)) \<and>
       vel (neurons (subStep dt st) ! i) =
         (if isInside st (integrated_pos st dt (accumulate_forces st ! i))
          then integrated_vel st dt (accumulate_forces st ! i)
          else multiplyScalar (integrated_vel st dt (accumulate_forces st ! i)) (Fin (- (3 / 10)))))"
proof (intro conjI allI impI)
  show "all_inside (fold subStep dts st)" using assms by (rule subSteps_all_inside)
next
  fix st' assume "step st = Inr st'"
  from step_all_inside [OF assms this]
  show "all_inside st'" by simp
next
  fix st' assume "step st = Inr st'" and "neurons st \<noteq> []"
  with step_all_inside [OF assms]
  show "\<forall>row \<in> set (positions st'). \<forall>p \<in> set row. isInside st' p" by simp
next
  fix i assume i: "i < length (neurons st)"
  show "pos (accumulate_forces st ! i) = pos (neurons st ! i)"
    by (rule accumulate_forces_nth(1) [OF i])
  show "vel (accumulate_forces st ! i) = vel (neurons st ! i)"
    by (rule accumulate_forces_nth(2) [OF i])
  show "pos (neurons (subStep dt st) ! i) =
         (if isInside st (integrated_pos st dt (accumulate_forces st ! i))
          then integrated_pos st dt (accumulate_forces st ! i)
          else pos (neurons st ! i))"
    using accumulate_forces_nth(1) [OF i] by (simp add: subStep_nth [OF i] integrate_fst)
  show "vel (neurons (subStep dt st) ! i) =
         (if isInside st (integrated_pos st dt (accumulate_forces st ! i))
          then integrated_vel st dt (accumulate_forces st ! i)
          else multiplyScalar (integrated_vel st dt (accumulate_forces st ! i)) (Fin (- (3 / 10))))"
    by (simp add: subStep_nth [OF i] integrate_fst)
qed

lemma two_nodes_inside: "all_inside two_nodes"
  by (simp add: two_nodes_def all_inside_def mk_neuron_def isInside_def cube_layout_def
      cube_bounds_def cell_coord_def flat_index_def G_val GRID_SIZE_def Let_def)

lemma step_runs:
  assumes "neurons st \<noteq> []" "positions st = [row]" "length row = length (neurons st)"
  shows "\<exists>st'. step st = Inr st'"
  using assms by (simp add: step_def Let_def)

text \<open>The statement at two neurons inside the cube, for one tick of three substeps.\<close>

theorem substeps_keep_nodes_inside_witness:
  "all_inside two_nodes \<and>
   all_inside (fold subStep [FIXED_DT, FIXED_DT, FIXED_DT] two_nodes) \<and>
   (\<exists>st'. step two_nodes = Inr st' \<and> all_inside st' \<and>
      (\<forall>row \<in> set (positions st'). \<forall>p \<in> set row. isInside st' p)) \<and>
   pos (neurons (subStep FIXED_DT two_nodes) ! 1) =
     (if isInside two_nodes (integrated_pos two_nodes FIXED_DT (accumulate_forces two_nodes ! 1))
      then integrated_pos two_nodes FIXED_DT (accumulate_forces two_nodes ! 1)
      else vfin (1, 0, 0))"
proof -
  have h: "all_inside two_nodes" by (rule two_nodes_inside)
  have ne: "neurons two_nodes \<noteq> []" and l: "1 < length (neurons two_nodes)"
    and p: "pos (neurons two_nodes ! 1) = vfin (1, 0, 0)"
    by (simp_all add: two_nodes_def cube_layout_def mk_neuron_def)
  obtain st' where st': "step two_nodes = Inr st'"
    using step_runs [of two_nodes] by (auto simp: two_nodes_def cube_layout_def)
  note inst = substeps_keep_nodes_inside [OF h, of "[FIXED_DT, FIXED_DT, FIXED_DT]" FIXED_DT]
  from inst have a: "all_inside (fold subStep [FIXED_DT, FIXED_DT, FIXED_DT] two_nodes)" by blast
  from inst st' ne have b: "all_inside st' \<and> (\<forall>row \<in> set (positions st'). \<forall>p \<in> set row. isInside st' p)"
    by blast
  from inst l p have c: "pos (neurons (subStep FIXED_DT two_nodes) ! 1) =
     (if isInside two_nodes (integrated_pos two_nodes FIXED_DT (accumulate_forces two_nodes ! 1))
      then integrated_pos two_nodes FIXED_DT (accumulate_forces two_nodes ! 1)
      else vfin (1, 0, 0))"
    by metis
  from h a b c st' show ?thesis by blast
qed

section \<open>Numbers that are not finite\<close>

lemma nonfinite_mult_PInf: "\<not> is_finite (a * PInf)"
  by (cases a) (simp_all add: times_jsnum_def)

lemma nonfinite_mult_Fin: "\<not> is_finite a \<Longrightarrow> \<not> is_finite (a * Fin c)"
  by (cases a) (simp_all add: times_jsnum_def)

lemma nonfinite_add: "\<not> is_finite a \<Longrightarrow> \<not> is_finite (a + b)" "\<not> is_finite a \<Longrightarrow> \<not> is_finite (b + a)"
  by (cases a; cases b; simp add: plus_jsnum_def)+

lemma nonfinite_sub: "\<not> is_finite a \<Longrightarrow> \<not> is_finite (a - b)" "\<not> is_finite a \<Longrightarrow> \<not> is_finite (b - a)"
  by (cases a; cases b; simp add: minus_jsnum_def)+

lemma nonfinite_div: "\<not> is_finite a \<Longrightarrow> \<not> is_finite (a div b)"
  by (cases a; cases b; simp add: divide_jsnum_def)

lemma nonfinite_floor: "\<not> is_finite a \<Longrightarrow> \<not> is_finite (Math_floor a)"
  by (cases a) simp_all

lemma cell_coord_nonfinite: "\<not> is_finite a \<Longrightarrow> \<not> is_finite (cell_coord a mn sz)"
  unfolding cell_coord_def G_val
  by (intro nonfinite_floor nonfinite_mult_Fin nonfinite_div nonfinite_sub)

lemma nonfinite_cases: "\<not> is_finite c \<Longrightarrow> c < Fin 0 \<or> c \<ge> G \<or> c = NaN"
  by (cases c) (simp_all add: G_val less_jsnum_def less_eq_jsnum_def)

lemma flat_index_NaN [simp]:
  "flat_index NaN cy cz = NaN" "flat_index cx NaN cz = NaN" "flat_index cx cy NaN = NaN"
  by (cases cx; cases cy; cases cz; simp add: flat_index_def G_val plus_jsnum_def times_jsnum_def)+

lemma isInside_nonfinite:
  assumes "\<not> finite_vec p"
  shows "\<not> isInside st p"
proof -
  let ?mn = "bmin (bounds st)" and ?sz = "bsize (bounds st)"
  let ?cx = "cell_coord (vx p) (vx ?mn) (vx ?sz)"
  let ?cy = "cell_coord (vy p) (vy ?mn) (vy ?sz)"
  let ?cz = "cell_coord (vz p) (vz ?mn) (vz ?sz)"
  from assms have "\<not> is_finite ?cx \<or> \<not> is_finite ?cy \<or> \<not> is_finite ?cz"
    by (auto simp: finite_vec_def dest: cell_coord_nonfinite)
  then have "(?cx < Fin 0 \<or> ?cx \<ge> G \<or> ?cx = NaN) \<or> (?cy < Fin 0 \<or> ?cy \<ge> G \<or> ?cy = NaN) \<or>
     (?cz < Fin 0 \<or> ?cz \<ge> G \<or> ?cz = NaN)"
    using nonfinite_cases by blast
  then show ?thesis
    by (auto simp: isInside_def Let_def)
qed

lemma integrate_finite_pos:
  assumes "finite_vec (pos m)"
  shows "finite_vec (pos (fst (integrate st dt m))) \<and> finite_vec (prev (fst (integrate st dt m)))"
  using assms isInside_nonfinite [of "integrated_pos st dt m" st]
  by (auto simp: integrate_fst)

lemma FIXED_DT_val: "FIXED_DT = Fin (1 / 180)"
  by (simp add: FIXED_DT_def SUB_STEPS_def)

lemma subSteps_finite_pos:
  "\<forall>n \<in> set (neurons st). finite_vec (pos n) \<Longrightarrow>
   \<forall>n \<in> set (neurons (fold subStep dts st)). finite_vec (pos n)"
proof (induction dts arbitrary: st)
  case Nil
  then show ?case by simp
next
  case (Cons dt dts)
  have "\<forall>n \<in> set (neurons (subStep dt st)). finite_vec (pos n)"
  proof
    fix n assume "n \<in> set (neurons (subStep dt st))"
    then obtain i where i: "i < length (neurons st)" and n: "n = neurons (subStep dt st) ! i"
      by (auto simp: in_set_conv_nth)
    have "finite_vec (pos (neurons st ! i))" using Cons.prems i by simp
    then have "finite_vec (pos (accumulate_forces st ! i))"
      using accumulate_forces_nth(1) [OF i] by simp
    then show "finite_vec (pos n)"
      unfolding n subStep_nth [OF i] using integrate_finite_pos by blast
  qed
  from Cons.IH [OF this] show ?case by simp
qed

text \<open>
  Claim C4, as the code has it. A position with a \<open>NaN\<close> or infinite component is
  classified exterior by the membership test. When the integrated position of a neuron
  is such a position, the substep commits the position the neuron had before it. So, if
  the positions of all neurons are finite, they are finite after every sequence of
  substeps. Nothing is said about the velocity: the clamp multiplies it by \<open>-0.3\<close> and
  does not replace it.
\<close>

theorem nonfinite_position_reverted:
  "(\<not> finite_vec p \<longrightarrow> \<not> isInside st p) \<and>
   (\<forall>i < length (neurons st).
      \<not> finite_vec (integrated_pos st dt (accumulate_forces st ! i)) \<longrightarrow>
      pos (neurons (subStep dt st) ! i) = pos (neurons st ! i)) \<and>
   ((\<forall>n \<in> set (neurons st). finite_vec (pos n)) \<longrightarrow>
    (\<forall>n \<in> set (neurons (fold subStep dts st)). finite_vec (pos n)))"
proof (intro conjI allI impI)
  assume "\<not> finite_vec p"
  then show "\<not> isInside st p" by (rule isInside_nonfinite)
next
  fix i assume i: "i < length (neurons st)"
    and nf: "\<not> finite_vec (integrated_pos st dt (accumulate_forces st ! i))"
  from nf have "\<not> isInside st (integrated_pos st dt (accumulate_forces st ! i))"
    by (rule isInside_nonfinite)
  then show "pos (neurons (subStep dt st) ! i) = pos (neurons st ! i)"
    using accumulate_forces_nth(1) [OF i] by (simp add: subStep_nth [OF i] integrate_fst)
next
  assume "\<forall>n \<in> set (neurons st). finite_vec (pos n)"
  then show "\<forall>n \<in> set (neurons (fold subStep dts st)). finite_vec (pos n)"
    by (rule subSteps_finite_pos)
qed

lemma inf_damping_vel:
  "\<not> finite_vec (vel (neurons (subStep FIXED_DT inf_damping) ! 0))"
proof -
  have i: "0 < length (neurons inf_damping)" by (simp add: inf_damping_def cube_layout_def)
  let ?m = "accumulate_forces inf_damping ! 0"
  have d: "damping inf_damping = PInf" by (simp add: inf_damping_def)
  have v: "\<not> is_finite (vx (integrated_vel inf_damping FIXED_DT ?m))"
    by (simp add: integrated_vel_def multiplyScalar_def d nonfinite_mult_PInf)
  then have v': "\<not> is_finite (vx (multiplyScalar (integrated_vel inf_damping FIXED_DT ?m) (Fin (- (3 / 10)))))"
    by (simp add: multiplyScalar_def nonfinite_mult_Fin)
  show ?thesis
    using v v' by (simp add: subStep_nth [OF i] integrate_fst finite_vec_def)
qed

text \<open>
  Claim C4 as stated says that no \<open>NaN\<close> or infinite value stays in the committed state
  of a node. With the damping factor at \<open>Infinity\<close>, a neuron whose position, previous
  position, velocity and force are all finite, and which is inside, has a velocity with a
  component that is not finite after one substep.
\<close>

theorem nonfinite_velocity_counterexample:
  "finite_vec (pos (neurons inf_damping ! 0)) \<and> finite_vec (prev (neurons inf_damping ! 0)) \<and>
   finite_vec (vel (neurons inf_damping ! 0)) \<and> finite_vec (force (neurons inf_damping ! 0)) \<and>
   isInside inf_damping (pos (neurons inf_damping ! 0)) \<and>
   \<not> finite_vec (vel (neurons (subStep FIXED_DT inf_damping) ! 0))"
proof -
  have "isInside inf_damping (pos (neurons inf_damping ! 0))"
    by (simp add: inf_damping_def mk_neuron_def isInside_def cube_layout_def
      cube_bounds_def cell_coord_def flat_index_def G_val GRID_SIZE_def Let_def)
  then show ?thesis
    using inf_damping_vel by (simp add: inf_damping_def cube_layout_def mk_neuron_def)
qed

text \<open>
  The statement at a position with a \<open>NaN\<close> and an infinite component, at the two
  neurons in the cube, and at the neuron whose integrated position is not finite.
\<close>

theorem nonfinite_position_reverted_witness:
  "\<not> finite_vec (Vector3 NaN (Fin 0) PInf) \<and> \<not> isInside two_nodes (Vector3 NaN (Fin 0) PInf) \<and>
   list_all (\<lambda>n. finite_vec (pos n)) (neurons two_nodes) \<and>
   list_all (\<lambda>n. finite_vec (pos n)) (neurons (fold subStep [FIXED_DT, FIXED_DT] two_nodes)) \<and>
   0 < length (neurons inf_damping) \<and>
   \<not> finite_vec (integrated_pos inf_damping FIXED_DT (accumulate_forces inf_damping ! 0)) \<and>
   pos (neurons (subStep FIXED_DT inf_damping) ! 0) = pos (neurons inf_damping ! 0)"
proof -
  have a: "\<not> finite_vec (Vector3 NaN (Fin 0) PInf)" by (simp add: finite_vec_def)
  have b: "\<forall>n \<in> set (neurons two_nodes). finite_vec (pos n)"
    by (simp add: two_nodes_def cube_layout_def mk_neuron_def)
  have c: "0 < length (neurons inf_damping)" by (simp add: inf_damping_def cube_layout_def)
  have "\<not> is_finite (vx (integrated_vel inf_damping FIXED_DT (accumulate_forces inf_damping ! 0)))"
    by (simp add: integrated_vel_def multiplyScalar_def inf_damping_def nonfinite_mult_PInf)
  then have d: "\<not> finite_vec (integrated_pos inf_damping FIXED_DT (accumulate_forces inf_damping ! 0))"
    by (simp add: integrated_pos_def addScaledVector_def finite_vec_def FIXED_DT_val
        nonfinite_add nonfinite_mult_Fin)
  show ?thesis
    unfolding list_all_iff
    using a b c d
      nonfinite_position_reverted [of "Vector3 NaN (Fin 0) PInf" two_nodes FIXED_DT "[FIXED_DT, FIXED_DT]"]
      nonfinite_position_reverted [of "Vector3 NaN (Fin 0) PInf" inf_damping FIXED_DT "[]"]
    by blast
qed

section \<open>The energy telemetry\<close>

lemma integrate_snd: "snd (integrate st dt m) = lengthSq (integrated_vel st dt m)"
  by (simp add: integrate_def Let_def)

lemma integrate_all_eq:
  "integrate_all st dt ns ke =
     (map (\<lambda>m. fst (integrate st dt m)) ns,
      foldl (+) ke (map (\<lambda>m. lengthSq (integrated_vel st dt m)) ns))"
  by (induction ns arbitrary: ke) (simp_all add: case_prod_beta integrate_snd)

lemma neurons_subStep:
  "neurons (subStep dt st) = map (\<lambda>m. fst (integrate st dt m)) (accumulate_forces st)"
proof (cases "neurons st = []")
  case True
  then have "accumulate_forces st = []"
    using accumulate_forces_keeps(1) [of st] by simp
  with True show ?thesis by (simp add: subStep_def)
next
  case False
  then show ?thesis by (simp add: subStep_def integrate_all_eq)
qed

lemma energy_subStep:
  "neurons st \<noteq> [] \<Longrightarrow>
   energy (subStep dt st) =
     sum_js (map (\<lambda>m. lengthSq (integrated_vel st dt m)) (accumulate_forces st))
       div Fin (real (length (neurons st)))"
  by (simp add: subStep_def integrate_all_eq sum_js_def)

lemma no_reversion_vel:
  assumes "\<forall>m \<in> set (accumulate_forces st). isInside st (integrated_pos st dt m)"
  shows "map (\<lambda>n. lengthSq (vel n)) (neurons (subStep dt st)) =
         map (\<lambda>m. lengthSq (integrated_vel st dt m)) (accumulate_forces st)"
  using assms by (simp add: neurons_subStep integrate_fst)

lemma step_Inr:
  assumes "step st = Inr st'" and "neurons st \<noteq> []"
  shows "neurons st' = neurons (subStep FIXED_DT (subStep FIXED_DT (subStep FIXED_DT st)))"
    and "energy st' = energy (subStep FIXED_DT (subStep FIXED_DT (subStep FIXED_DT st)))"
  using assms
  by (auto simp: step_def Let_def SUB_STEPS_def numeral_3_eq_3 split: sum.splits)

text \<open>
  Claim C5, as the code has it. After a completed tick of three substeps on at least one
  node, \<open>energy\<close> is the mean, over all nodes, of the squared velocity that the third
  substep computed by integration (\<open>velocity += force * dt\<close>, then
  \<open>velocity *= damping\<close>), read before the hard containment check. It is the mean of the
  squared committed velocities when the third substep reverted no node.
\<close>

theorem energy_is_mean_integrated_speed:
  assumes "neurons st \<noteq> []" and "step st = Inr st'"
  defines "s2 \<equiv> subStep FIXED_DT (subStep FIXED_DT st)"
  shows "neurons st' = neurons (subStep FIXED_DT s2) \<and>
     energy st' =
       sum_js (map (\<lambda>m. lengthSq (integrated_vel s2 FIXED_DT m)) (accumulate_forces s2))
         div Fin (real (length (neurons st'))) \<and>
     ((\<forall>m \<in> set (accumulate_forces s2). isInside s2 (integrated_pos s2 FIXED_DT m)) \<longrightarrow>
      energy st' =
        sum_js (map (\<lambda>n. lengthSq (vel n)) (neurons st')) div Fin (real (length (neurons st'))))"
proof -
  have n: "neurons st' = neurons (subStep FIXED_DT s2)"
    and e: "energy st' = energy (subStep FIXED_DT s2)"
    using step_Inr [OF assms(2) assms(1)] by (simp_all add: s2_def)
  have ne: "neurons s2 \<noteq> []"
    using assms(1) subStep_static(3) [of FIXED_DT "subStep FIXED_DT st"]
      subStep_static(3) [of FIXED_DT st]
    unfolding s2_def by (metis length_0_conv)
  have l: "length (neurons st') = length (neurons s2)" by (simp add: n)
  have e': "energy st' =
       sum_js (map (\<lambda>m. lengthSq (integrated_vel s2 FIXED_DT m)) (accumulate_forces s2))
         div Fin (real (length (neurons st')))"
    by (simp add: e energy_subStep [OF ne] l)
  show ?thesis
    using n e' no_reversion_vel [of s2 FIXED_DT] by simp
qed

text \<open>The statement at a tick of the two neurons in the cube.\<close>

theorem energy_is_mean_integrated_speed_witness:
  "neurons two_nodes \<noteq> [] \<and> step two_nodes = Inr (projr (step two_nodes)) \<and>
   energy (projr (step two_nodes)) =
     sum_js (map (\<lambda>m. lengthSq (integrated_vel (subStep FIXED_DT (subStep FIXED_DT two_nodes)) FIXED_DT m))
               (accumulate_forces (subStep FIXED_DT (subStep FIXED_DT two_nodes))))
       div Fin (real (length (neurons (projr (step two_nodes)))))"
proof -
  have ne: "neurons two_nodes \<noteq> []" by (simp add: two_nodes_def cube_layout_def)
  obtain st' where st': "step two_nodes = Inr st'"
    using step_runs [of two_nodes] by (auto simp: two_nodes_def cube_layout_def)
  then have p: "step two_nodes = Inr (projr (step two_nodes))" by simp
  show ?thesis
    using ne p energy_is_mean_integrated_speed [OF ne p] by blast
qed

lemma cell_coord_fin:
  "s \<noteq> 0 \<Longrightarrow> cell_coord (Fin a) (Fin m) (Fin s) = Fin (of_int \<lfloor>(a - m) / s * 32\<rfloor>)"
  by (simp add: cell_coord_def G_val)

lemma cell_centre_fin: "cell_centre (Fin n) (Fin m) (Fin s) = Fin (m + (n + 1 / 2) / 32 * s)"
  by (simp add: cell_centre_def G_val)

lemma Math_max_fin: "Math_max (Fin a) (Fin b) = Fin (max a b)"
  by (simp add: max_def not_less [symmetric] less_imp_le)

lemma Math_min_fin: "Math_min (Fin a) (Fin b) = Fin (min a b)"
  by (auto simp: min_def)

lemma proper_boundsE:
  assumes "proper_bounds b"
  obtains m1 m2 m3 s1 s2 s3 where "bmin b = vfin (m1, m2, m3)" "bsize b = vfin (s1, s2, s3)"
    "0 < s1" "0 < s2" "0 < s3"
proof -
  from assms obtain m s where m: "bmin b = vfin m" and s: "bsize b = vfin s"
    by (auto simp: proper_bounds_def finite_vec_iff)
  obtain m1 m2 m3 where m': "m = (m1, m2, m3)" by (cases m)
  obtain s1 s2 s3 where s': "s = (s1, s2, s3)" by (cases s)
  from assms have "0 < s1" "0 < s2" "0 < s3" by (simp_all add: proper_bounds_def s s')
  with m s m' s' that show ?thesis by blast
qed

lemma pscale_zero [simp]: "pscale 0 p = (0, 0, 0)"
  by (cases p) simp

lemma padd_zero [simp]: "padd p (0, 0, 0) = p"
  by (cases p) simp

lemma boundary_cell_zero:
  assumes k: "kBoundary st = Fin 0" and b: "proper_bounds (bounds st)"
  shows "boundary_cell st (vfin p) (Fin a1, Fin a2, Fin a3) off (vfin f) = vfin f"
proof -
  from b obtain m1 m2 m3 s1 s2 s3 where mn: "bmin (bounds st) = vfin (m1, m2, m3)"
    and sz: "bsize (bounds st) = vfin (s1, s2, s3)"
    by (rule proper_boundsE)
  obtain dx dy dz where off: "off = (dx, dy, dz)" by (cases off)
  have z: "Fin 0 div Math_max (Fin r) (Fin (1 / 100)) = Fin 0" for r :: real
  proof -
    have "max r (1 / 100) \<noteq> 0" by (simp add: max_def)
    then show ?thesis unfolding Math_max_fin by simp
  qed
  show ?thesis
    by (simp add: boundary_cell_def off Let_def mn sz cell_centre_fin vfin_Vector3 k z
        del: Math_max.simps)
qed

lemma fold_boundary_cell_zero:
  assumes "kBoundary st = Fin 0" and "proper_bounds (bounds st)"
  shows "fold (boundary_cell st (vfin p) (Fin a1, Fin a2, Fin a3)) offs (vfin f) = vfin f"
  by (induction offs) (simp_all add: boundary_cell_zero [OF assms])

lemma boundary_zero:
  assumes k: "kBoundary st = Fin 0" and b: "proper_bounds (bounds st)"
    and p: "pos n = vfin p" and f: "force n = vfin f"
  shows "boundary st n = n"
proof -
  from b obtain m1 m2 m3 s1 s2 s3 where mn: "bmin (bounds st) = vfin (m1, m2, m3)"
    and sz: "bsize (bounds st) = vfin (s1, s2, s3)" and s: "0 < s1" "0 < s2" "0 < s3"
    by (rule proper_boundsE)
  obtain p1 p2 p3 where p': "p = (p1, p2, p3)" by (cases p)
  show ?thesis
    using s f
    by (simp add: boundary_def Let_def mn sz p p' cell_coord_fin
        fold_boundary_cell_zero [OF k b, unfolded p'])
qed

lemma single_forces:
  assumes n: "neurons st = [n]" and t: "layerTargets st = []" and k: "kBoundary st = Fin 0"
    and b: "proper_bounds (bounds st)" and p: "pos n = vfin p"
  shows "accumulate_forces st = [n\<lparr>force := vfin (0, 0, 0)\<rparr>]"
proof -
  have "boundary st (n\<lparr>force := vfin (0, 0, 0)\<rparr>) = n\<lparr>force := vfin (0, 0, 0)\<rparr>"
    by (rule boundary_zero [OF k b, of _ p "(0, 0, 0)"]) (simp_all add: p)
  then show ?thesis
    by (simp add: accumulate_forces_def n zero_forces_def repulsion_def repel_row_def
        guide_def t vfin_Vector3)
qed

lemma single_subStep:
  assumes n: "neurons st = [n]" and t: "layerTargets st = []" and k: "kBoundary st = Fin 0"
    and b: "proper_bounds (bounds st)" and p: "pos n = vfin p"
  shows "neurons (subStep dt st) = [fst (integrate st dt (n\<lparr>force := vfin (0, 0, 0)\<rparr>))]"
    and "energy (subStep dt st) =
           (Fin 0 + lengthSq (integrated_vel st dt (n\<lparr>force := vfin (0, 0, 0)\<rparr>))) div Fin 1"
  using n
  by (simp_all add: neurons_subStep energy_subStep sum_js_def single_forces [OF assms])

lemma integrate_subStep: "integrate (subStep dt' st) dt m = integrate st dt m"
  by (simp add: integrate_def integrated_pos_def integrated_vel_def isInside_subStep)

lemma integrated_vel_subStep: "integrated_vel (subStep dt' st) dt m = integrated_vel st dt m"
  by (simp add: integrated_vel_def)

lemma cube_proper: "proper_bounds cube_bounds"
  by (simp add: proper_bounds_def cube_bounds_def)

lemma bouncing_fields:
  "layerTargets bouncing = []" "kBoundary bouncing = Fin 0" "bounds bouncing = cube_bounds"
  "damping bouncing = Fin (17 / 20)"
  "neurons bouncing = [mk_neuron (9999 / 2000, 0, 0) (1 / 20, 0, 0) 0 0]"
  "positions bouncing = [[vfin (9999 / 2000, 0, 0)]]"
  by (simp_all add: bouncing_def cube_layout_def mk_neuron_def)

lemma bouncing_inside:
  "isInside bouncing (vfin (359981 / 72000, 0, 0))"
  "isInside bouncing (vfin (7199909 / 1440000, 0, 0))"
  "\<not> isInside bouncing (vfin (48001031 / 9600000, 0, 0))"
  by (simp_all add: isInside_def bouncing_def cube_layout_def cube_bounds_def cell_coord_fin
      flat_index_def G_val GRID_SIZE_def Let_def)

lemma subStep_keeps_setup:
  assumes "layerTargets st = []" "kBoundary st = Fin 0" "proper_bounds (bounds st)"
  shows "layerTargets (subStep dt st) = []" "kBoundary (subStep dt st) = Fin 0"
    "proper_bounds (bounds (subStep dt st))"
  using assms by simp_all

lemma bounce1: "neurons (subStep FIXED_DT bouncing) = [b1]"
proof -
  have p: "proper_bounds (bounds bouncing)" by (simp add: bouncing_fields cube_proper)
  have "neurons (subStep FIXED_DT bouncing) =
        [fst (integrate bouncing FIXED_DT
               ((mk_neuron (9999 / 2000, 0, 0) (1 / 20, 0, 0) 0 0)\<lparr>force := vfin (0, 0, 0)\<rparr>))]"
    by (rule single_subStep(1) [OF bouncing_fields(5) bouncing_fields(1) bouncing_fields(2) p])
      (simp add: mk_neuron_def)
  also have "\<dots> = [b1]"
    by (simp add: mk_neuron_def integrate_fst integrated_pos_def integrated_vel_def FIXED_DT_val
        bouncing_fields bouncing_inside b1_def)
  finally show ?thesis .
qed

lemma bounce2: "neurons (subStep FIXED_DT (subStep FIXED_DT bouncing)) = [b2]"
proof -
  have p: "proper_bounds (bounds bouncing)" by (simp add: bouncing_fields cube_proper)
  note s = subStep_keeps_setup [OF bouncing_fields(1) bouncing_fields(2) p, of FIXED_DT]
  have "neurons (subStep FIXED_DT (subStep FIXED_DT bouncing)) =
        [fst (integrate (subStep FIXED_DT bouncing) FIXED_DT (b1\<lparr>force := vfin (0, 0, 0)\<rparr>))]"
    by (rule single_subStep(1) [OF bounce1 s]) (simp add: b1_def)
  also have "\<dots> = [b2]"
    by (simp add: integrate_subStep integrate_fst integrated_pos_def integrated_vel_def
        FIXED_DT_val bouncing_fields bouncing_inside b1_def b2_def)
  finally show ?thesis .
qed

lemma bounce3:
  "neurons (subStep FIXED_DT (subStep FIXED_DT (subStep FIXED_DT bouncing))) = [b3] \<and>
   energy (subStep FIXED_DT (subStep FIXED_DT (subStep FIXED_DT bouncing))) =
     Fin (24137569 / 25600000000)"
proof -
  have p: "proper_bounds (bounds bouncing)" by (simp add: bouncing_fields cube_proper)
  note s = subStep_keeps_setup [OF bouncing_fields(1) bouncing_fields(2) p, of FIXED_DT]
  note s' = subStep_keeps_setup [OF s, of FIXED_DT]
  have q: "pos b2 = vfin (7199909 / 1440000, 0, 0)" by (simp add: b2_def)
  let ?s2 = "subStep FIXED_DT (subStep FIXED_DT bouncing)"
  have "neurons (subStep FIXED_DT ?s2) =
        [fst (integrate ?s2 FIXED_DT (b2\<lparr>force := vfin (0, 0, 0)\<rparr>))]"
    by (rule single_subStep(1) [OF bounce2 s' q])
  also have "\<dots> = [b3]"
    by (simp add: integrate_subStep integrate_fst integrated_pos_def integrated_vel_def
        FIXED_DT_val bouncing_fields bouncing_inside b2_def b3_def)
  finally have n: "neurons (subStep FIXED_DT ?s2) = [b3]" .
  have "energy (subStep FIXED_DT ?s2) =
        (Fin 0 + lengthSq (integrated_vel ?s2 FIXED_DT (b2\<lparr>force := vfin (0, 0, 0)\<rparr>))) div Fin 1"
    by (rule single_subStep(2) [OF bounce2 s' q])
  also have "\<dots> = Fin (24137569 / 25600000000)"
    by (simp add: integrated_vel_subStep integrated_vel_def FIXED_DT_val bouncing_fields b2_def)
  finally show ?thesis using n by simp
qed

text \<open>
  Claim C5 as stated equates \<open>energy\<close> with the mean squared velocity of the committed
  state. In the tick of \<open>bouncing\<close> the third substep takes the neuron across the face
  \<open>x = 5\<close> and reverts it: the committed velocity is \<open>-0.3\<close> times the integrated one,
  its square is \<open>0.09\<close> times the value that \<open>energy\<close> holds.
\<close>

theorem energy_after_bounce_counterexample:
  "\<not> isl (step bouncing) \<and>
   map vel (neurons (projr (step bouncing))) = [vfin (- (14739 / 1600000), 0, 0)] \<and>
   sum_js (map (\<lambda>n. lengthSq (vel n)) (neurons (projr (step bouncing))))
     div Fin (real (length (neurons (projr (step bouncing))))) = Fin (217238121 / 2560000000000) \<and>
   energy (projr (step bouncing)) = Fin (24137569 / 25600000000) \<and>
   energy (projr (step bouncing)) \<noteq>
     sum_js (map (\<lambda>n. lengthSq (vel n)) (neurons (projr (step bouncing))))
       div Fin (real (length (neurons (projr (step bouncing)))))"
proof -
  obtain st' where st': "step bouncing = Inr st'"
    using step_runs [of bouncing] by (auto simp: bouncing_fields)
  have ne: "neurons bouncing \<noteq> []" by (simp add: bouncing_fields)
  from step_Inr [OF st' ne] bounce3 have "neurons st' = [b3]"
    and "energy st' = Fin (24137569 / 25600000000)" by simp_all
  then show ?thesis
    by (simp add: st' b3_def sum_js_def power2_eq_square)
qed

section \<open>The all-pairs repulsion\<close>

lemma pair_update_length [simp]: "length (pair_update w i j fs) = length fs"
  by (simp add: pair_update_def)

lemma pair_update_nth:
  assumes "i < length fs" "j < length fs" "i \<noteq> j" "m < length fs"
  shows "pair_update w i j fs ! m =
         (if m = i then fs ! i + w i j else if m = j then fs ! j - w i j else fs ! m)"
  using assms by (simp add: pair_update_def nth_list_update)

lemma inner_fold:
  assumes "i < t" "t \<le> length fs"
  shows "length (fold (pair_update w i) [i + 1 ..< t] fs) = length fs \<and>
         (\<forall>m < length fs. fold (pair_update w i) [i + 1 ..< t] fs ! m =
            (if m = i then fs ! i + (\<Sum>j = i + 1 ..< t. w i j)
             else if i < m \<and> m < t then fs ! m - w i m else fs ! m))"
  using assms
proof (induction t)
  case 0
  then show ?case by simp
next
  case (Suc t)
  show ?case
  proof (cases "i = t")
    case True
    then show ?thesis by simp
  next
    case False
    with Suc.prems have it: "i < t" and tl: "t \<le> length fs" and t: "t < length fs" by simp_all
    let ?g = "fold (pair_update w i) [i + 1 ..< t] fs"
    from Suc.IH [OF it tl] have len: "length ?g = length fs"
      and nth: "\<And>m. m < length fs \<Longrightarrow> ?g ! m =
            (if m = i then fs ! i + (\<Sum>j = i + 1 ..< t. w i j)
             else if i < m \<and> m < t then fs ! m - w i m else fs ! m)"
      by simp_all
    have up: "[i + 1 ..< Suc t] = [i + 1 ..< t] @ [t]" using it by simp
    have f: "fold (pair_update w i) [i + 1 ..< Suc t] fs = pair_update w i t ?g"
      by (simp only: up fold_append) simp
    have il: "i < length fs" using it t by simp
    show ?thesis
    proof (intro conjI allI impI)
      show "length (fold (pair_update w i) [i + 1 ..< Suc t] fs) = length fs"
        by (simp only: f pair_update_length len)
    next
      fix m assume m: "m < length fs"
      have "pair_update w i t ?g ! m =
            (if m = i then ?g ! i + w i t else if m = t then ?g ! t - w i t else ?g ! m)"
        using pair_update_nth [of i ?g t m w] il t it m len by simp
      then show "fold (pair_update w i) [i + 1 ..< Suc t] fs ! m =
            (if m = i then fs ! i + (\<Sum>j = i + 1 ..< Suc t. w i j)
             else if i < m \<and> m < Suc t then fs ! m - w i m else fs ! m)"
        unfolding f using nth [OF m] nth [OF il] nth [OF t] it m
        by auto
    qed
  qed
qed

lemma row_update_nth:
  assumes "i < length fs"
  shows "length (row_update w i fs) = length fs \<and>
         (\<forall>m < length fs. row_update w i fs ! m =
            (if m = i then fs ! i + (\<Sum>j = i + 1 ..< length fs. w i j)
             else if i < m then fs ! m - w i m else fs ! m))"
  using inner_fold [of i "length fs" fs w] assms by (simp add: row_update_def)

lemma outer_fold:
  assumes "r \<le> length fs"
  shows "length (fold (row_update w) [0 ..< r] fs) = length fs \<and>
         (\<forall>m < length fs. fold (row_update w) [0 ..< r] fs ! m =
            fs ! m + (if m < r then (\<Sum>j = m + 1 ..< length fs. w m j) else 0)
                   - (\<Sum>i = 0 ..< min r m. w i m))"
  using assms
proof (induction r)
  case 0
  then show ?case by simp
next
  case (Suc r)
  then have r: "r < length fs" and rl: "r \<le> length fs" by simp_all
  let ?g = "fold (row_update w) [0 ..< r] fs"
  from Suc.IH [OF rl] have len: "length ?g = length fs"
    and nth: "\<And>m. m < length fs \<Longrightarrow> ?g ! m =
            fs ! m + (if m < r then (\<Sum>j = m + 1 ..< length fs. w m j) else 0)
                   - (\<Sum>i = 0 ..< min r m. w i m)"
    by simp_all
  have f: "fold (row_update w) [0 ..< Suc r] fs = row_update w r ?g" by simp
  from row_update_nth [of r ?g w] r len
  have len': "length (row_update w r ?g) = length fs"
    and nth': "\<And>m. m < length fs \<Longrightarrow> row_update w r ?g ! m =
            (if m = r then ?g ! r + (\<Sum>j = r + 1 ..< length fs. w r j)
             else if r < m then ?g ! m - w r m else ?g ! m)"
    by simp_all
  show ?case
  proof (intro conjI allI impI)
    show "length (fold (row_update w) [0 ..< Suc r] fs) = length fs" by (simp only: f len')
  next
    fix m assume m: "m < length fs"
    consider "m = r" | "r < m" | "m < r" by linarith
    then show "fold (row_update w) [0 ..< Suc r] fs ! m =
            fs ! m + (if m < Suc r then (\<Sum>j = m + 1 ..< length fs. w m j) else 0)
                   - (\<Sum>i = 0 ..< min (Suc r) m. w i m)"
    proof cases
      case 1
      then show ?thesis using nth' [OF m] nth [OF m] by (simp only: f) (simp add: min_def)
    next
      case 2
      then have "min (Suc r) m = Suc r" "min r m = r" by simp_all
      then show ?thesis using 2 nth' [OF m] nth [OF m] by (simp only: f) simp
    next
      case 3
      then have "min (Suc r) m = m" "min r m = m" by simp_all
      then show ?thesis using 3 nth' [OF m] nth [OF m] by (simp only: f) simp
    qed
  qed
qed

lemma all_update_nth:
  assumes "m < length fs"
  shows "all_update w fs ! m =
         fs ! m + (\<Sum>j = m + 1 ..< length fs. w m j) - (\<Sum>i = 0 ..< m. w i m)"
  using outer_fold [of "length fs" fs w] assms by (simp add: all_update_def)

lemma all_update_length [simp]: "length (all_update w fs) = length fs"
  using outer_fold [of "length fs" fs w] by (simp add: all_update_def)

lemma all_update_antisym:
  assumes "m < length fs" and anti: "\<And>i j. w i j = - w j i"
  shows "all_update w fs ! m = fs ! m + (\<Sum>j \<in> {..< length fs} - {m}. w m j)"
proof -
  have split: "{..< length fs} - {m} = {0 ..< m} \<union> {m + 1 ..< length fs}"
    using assms(1) by auto
  have "(\<Sum>j \<in> {..< length fs} - {m}. w m j) =
        (\<Sum>j = 0 ..< m. w m j) + (\<Sum>j = m + 1 ..< length fs. w m j)"
    unfolding split by (rule sum.union_disjoint) auto
  moreover have "(\<Sum>j = 0 ..< m. w m j) = - (\<Sum>i = 0 ..< m. w i m)"
    by (subst anti) (simp add: sum_negf)
  ultimately show ?thesis using all_update_nth [OF assms(1), of w] by simp
qed

lemma MIN_DIST_SQ_val: "MIN_DIST_SQ = Fin (9 / 100)"
  by (simp add: MIN_DIST_SQ_def)

lemma repel_force_fin: "repel_force (Fin k) (vfin p) (vfin q) = vfin (pair_force k p q)"
proof -
  have "(9 / 100 :: real) \<le> max (dot (psub p q) (psub p q)) (9 / 100)" by (rule max.cobounded2)
  then have "max (dot (psub p q) (psub p q)) (9 / 100) \<noteq> 0" by linarith
  then show ?thesis
    by (simp add: repel_force_def Let_def MIN_DIST_SQ_val Math_max_fin pair_force_def
        del: Math_max.simps)
qed

lemma link_pair:
  assumes sel_add: "\<And>a b. sel (add a b) = sel a + sel b"
    and sel_sub: "\<And>a b. sel (sub a b) = sel a - sel b"
    and sel_vfin: "\<And>p. sel (vfin p) = Fin (g p)"
    and P: "map pos ns = map vfin ps"
    and F: "map (\<lambda>n. sel (force n)) ns = map Fin fs"
    and i: "i < length ns" and j: "j < length ns" and ij: "i \<noteq> j"
  shows "map pos (repel_pair (Fin k) i j ns) = map vfin ps \<and>
         map (\<lambda>n. sel (force n)) (repel_pair (Fin k) i j ns) =
           map Fin (pair_update (\<lambda>i j. g (pair_force k (ps ! i) (ps ! j))) i j fs)"
proof -
  have lp: "length ps = length ns" using P by (metis length_map)
  have lf: "length fs = length ns" using F by (metis length_map)
  have pi: "pos (ns ! i) = vfin (ps ! i)" using P i lp by (metis nth_map)
  have pj: "pos (ns ! j) = vfin (ps ! j)" using P j lp by (metis nth_map)
  have fm: "sel (force (ns ! m)) = Fin (fs ! m)" if "m < length ns" for m
  proof -
    have "map (\<lambda>n. sel (force n)) ns ! m = map Fin fs ! m" by (simp only: F)
    then show ?thesis using that lf by simp
  qed
  have rf: "repel_force (Fin k) (pos (ns ! i)) (pos (ns ! j)) = vfin (pair_force k (ps ! i) (ps ! j))"
    by (simp add: pi pj repel_force_fin)
  have a: "map pos (repel_pair (Fin k) i j ns) = map vfin ps"
    using repel_pair_pos [OF i j] P by simp
  have b: "map (\<lambda>n. sel (force n)) (repel_pair (Fin k) i j ns) =
           map Fin (pair_update (\<lambda>i j. g (pair_force k (ps ! i) (ps ! j))) i j fs)"
  proof (rule nth_equalityI)
    show "length (map (\<lambda>n. sel (force n)) (repel_pair (Fin k) i j ns)) =
          length (map Fin (pair_update (\<lambda>i j. g (pair_force k (ps ! i) (ps ! j))) i j fs))"
      by (simp add: lf)
  next
    fix m assume "m < length (map (\<lambda>n. sel (force n)) (repel_pair (Fin k) i j ns))"
    then have m: "m < length ns" by simp
    have "sel (force (repel_pair (Fin k) i j ns ! m)) =
          Fin (pair_update (\<lambda>i j. g (pair_force k (ps ! i) (ps ! j))) i j fs ! m)"
      using m i j ij fm [OF m] fm [OF i] fm [OF j]
      by (simp add: repel_pair_def Let_def rf nth_list_update sel_add sel_sub sel_vfin
          pair_update_nth lf)
    then show "map (\<lambda>n. sel (force n)) (repel_pair (Fin k) i j ns) ! m =
          map Fin (pair_update (\<lambda>i j. g (pair_force k (ps ! i) (ps ! j))) i j fs) ! m"
      using m lf by simp
  qed
  from a b show ?thesis by simp
qed

lemma link_inner:
  assumes sel_add: "\<And>a b. sel (add a b) = sel a + sel b"
    and sel_sub: "\<And>a b. sel (sub a b) = sel a - sel b"
    and sel_vfin: "\<And>p. sel (vfin p) = Fin (g p)"
    and P: "map pos ns = map vfin ps"
    and F: "map (\<lambda>n. sel (force n)) ns = map Fin fs"
    and i: "i < length ns" and js: "\<forall>j \<in> set js. j < length ns \<and> i \<noteq> j"
  shows "map pos (fold (repel_pair (Fin k) i) js ns) = map vfin ps \<and>
         map (\<lambda>n. sel (force n)) (fold (repel_pair (Fin k) i) js ns) =
           map Fin (fold (pair_update (\<lambda>i j. g (pair_force k (ps ! i) (ps ! j))) i) js fs)"
  using P F i js
proof (induction js arbitrary: ns fs)
  case Nil
  then show ?case by simp
next
  case (Cons j js)
  let ?ns = "repel_pair (Fin k) i j ns"
  let ?fs = "pair_update (\<lambda>i j. g (pair_force k (ps ! i) (ps ! j))) i j fs"
  from Cons.prems have j: "j < length ns" "i \<noteq> j" by simp_all
  from link_pair [OF sel_add sel_sub sel_vfin Cons.prems(1) Cons.prems(2) Cons.prems(3) j, of k]
  have P': "map pos ?ns = map vfin ps" and F': "map (\<lambda>n. sel (force n)) ?ns = map Fin ?fs"
    by simp_all
  have i': "i < length ?ns" using Cons.prems(3) by simp
  have js': "\<forall>j \<in> set js. j < length ?ns \<and> i \<noteq> j" using Cons.prems(4) by simp
  from Cons.IH [OF P' F' i' js'] show ?case by simp
qed

lemma link_row:
  assumes sel_add: "\<And>a b. sel (add a b) = sel a + sel b"
    and sel_sub: "\<And>a b. sel (sub a b) = sel a - sel b"
    and sel_vfin: "\<And>p. sel (vfin p) = Fin (g p)"
    and P: "map pos ns = map vfin ps"
    and F: "map (\<lambda>n. sel (force n)) ns = map Fin fs"
    and i: "i < length ns"
  shows "map pos (repel_row (Fin k) i ns) = map vfin ps \<and>
         map (\<lambda>n. sel (force n)) (repel_row (Fin k) i ns) =
           map Fin (row_update (\<lambda>i j. g (pair_force k (ps ! i) (ps ! j))) i fs)"
proof -
  have lf: "length fs = length ns" using F by (metis length_map)
  have js: "\<forall>j \<in> set [i + 1 ..< length ns]. j < length ns \<and> i \<noteq> j" by auto
  from link_inner [OF sel_add sel_sub sel_vfin P F i js, of k]
  show ?thesis by (simp add: repel_row_def row_update_def lf)
qed

lemma link_outer:
  assumes sel_add: "\<And>a b. sel (add a b) = sel a + sel b"
    and sel_sub: "\<And>a b. sel (sub a b) = sel a - sel b"
    and sel_vfin: "\<And>p. sel (vfin p) = Fin (g p)"
    and P: "map pos ns = map vfin ps"
    and F: "map (\<lambda>n. sel (force n)) ns = map Fin fs"
    and rows: "\<forall>i \<in> set rs. i < length ns"
  shows "map pos (fold (repel_row (Fin k)) rs ns) = map vfin ps \<and>
         map (\<lambda>n. sel (force n)) (fold (repel_row (Fin k)) rs ns) =
           map Fin (fold (row_update (\<lambda>i j. g (pair_force k (ps ! i) (ps ! j)))) rs fs)"
  using P F rows
proof (induction rs arbitrary: ns fs)
  case Nil
  then show ?case by simp
next
  case (Cons i rs)
  let ?ns = "repel_row (Fin k) i ns"
  let ?fs = "row_update (\<lambda>i j. g (pair_force k (ps ! i) (ps ! j))) i fs"
  from Cons.prems have i: "i < length ns" by simp
  from link_row [OF sel_add sel_sub sel_vfin Cons.prems(1) Cons.prems(2) i, of k]
  have P': "map pos ?ns = map vfin ps" and F': "map (\<lambda>n. sel (force n)) ?ns = map Fin ?fs"
    by simp_all
  have "length ?ns = length ns" using P' Cons.prems(1) by (metis length_map)
  then have rows': "\<forall>i \<in> set rs. i < length ?ns" using Cons.prems(3) by simp
  from Cons.IH [OF P' F' rows'] show ?case by simp
qed

lemma link_repulsion:
  assumes sel_add: "\<And>a b. sel (add a b) = sel a + sel b"
    and sel_sub: "\<And>a b. sel (sub a b) = sel a - sel b"
    and sel_vfin: "\<And>p. sel (vfin p) = Fin (g p)"
    and P: "map pos ns = map vfin ps"
    and F: "map (\<lambda>n. sel (force n)) ns = map Fin fs"
  shows "map (\<lambda>n. sel (force n)) (repulsion (Fin k) ns) =
           map Fin (all_update (\<lambda>i j. g (pair_force k (ps ! i) (ps ! j))) fs)"
proof -
  have lf: "length fs = length ns" using F by (metis length_map)
  have rows: "\<forall>i \<in> set [0 ..< length ns]. i < length ns" by simp
  from link_outer [OF sel_add sel_sub sel_vfin P F rows, of k]
  show ?thesis by (simp add: repulsion_def all_update_def lf)
qed

lemma psub_swap: "psub q p = pscale (- 1) (psub p q)"
  by (cases p; cases q) simp

lemma dot_pscale: "dot (pscale c p) (pscale c p) = c * c * dot p p"
  by (cases p) (simp add: algebra_simps)

lemma pnorm_pscale: "pnorm (pscale c p) = \<bar>c\<bar> * pnorm p"
  by (simp add: pnorm_def dot_pscale real_sqrt_mult)

lemma pscale_pscale [simp]: "pscale a (pscale b p) = pscale (a * b) p"
  by (cases p) (simp add: mult.assoc)

lemma pscale_eq_zero: "pscale c p = (0, 0, 0) \<longleftrightarrow> c = 0 \<or> p = (0, 0, 0)"
  by (cases p) auto

lemma punit_neg: "punit (pscale (- 1) d) = pscale (- 1) (punit d)"
  by (simp add: punit_def pnorm_pscale pscale_eq_zero)

lemma pnorm_punit: "d \<noteq> (0, 0, 0) \<Longrightarrow> pnorm (punit d) = 1"
proof -
  assume "d \<noteq> (0, 0, 0)"
  then have "pnorm d \<noteq> 0" by simp
  moreover have "0 \<le> pnorm d" by (simp add: pnorm_def)
  ultimately show ?thesis using \<open>d \<noteq> (0, 0, 0)\<close>
    by (simp add: punit_def pnorm_pscale)
qed

lemma pair_force_antisym: "pair_force k q p = pscale (- 1) (pair_force k p q)"
proof -
  have "dot (psub q p) (psub q p) = dot (psub p q) (psub p q)"
    by (cases p; cases q) (simp add: algebra_simps)
  moreover have "punit (psub q p) = pscale (- 1) (punit (psub p q))"
    by (simp only: psub_swap [of q p] punit_neg)
  ultimately show ?thesis by (simp add: pair_force_def)
qed

lemma psub_eq_zero: "psub p q = (0, 0, 0) \<longleftrightarrow> p = q"
  by (cases p; cases q) auto

lemma pair_force_norm:
  assumes "p \<noteq> q"
  shows "pnorm (pair_force k p q) = \<bar>k\<bar> / max (dot (psub p q) (psub p q)) (9 / 100)"
proof -
  have "psub p q \<noteq> (0, 0, 0)" using assms by (simp add: psub_eq_zero)
  then have "pnorm (punit (psub p q)) = 1" by (rule pnorm_punit)
  moreover have "(0::real) < max (dot (psub p q) (psub p q)) (9 / 100)"
    by (simp add: less_max_iff_disj)
  ultimately show ?thesis by (simp add: pair_force_def pnorm_pscale abs_of_pos)
qed

lemma pair_force_same: "pair_force k p p = (0, 0, 0)"
proof -
  have "psub p p = (0, 0, 0)" by (simp add: psub_eq_zero)
  then show ?thesis by (simp add: pair_force_def punit_def)
qed

lemma comp_antisym:
  "px (pscale (- 1) p) = - px p" "py (pscale (- 1) p) = - py p" "pz (pscale (- 1) p) = - pz p"
  by (cases p; simp)+

lemma sel_vfin_p: "vx (vfin p) = Fin (px p)" "vy (vfin p) = Fin (py p)" "vz (vfin p) = Fin (pz p)"
  by (cases p; simp)+

lemma sel_add_sub:
  "vx (add a b) = vx a + vx b" "vy (add a b) = vy a + vy b" "vz (add a b) = vz a + vz b"
  "vx (sub a b) = vx a - vx b" "vy (sub a b) = vy a - vy b" "vz (sub a b) = vz a - vz b"
  by (simp_all add: add_def sub_def)

lemma vec3_eq_vfin:
  "vx v = Fin a \<Longrightarrow> vy v = Fin b \<Longrightarrow> vz v = Fin c \<Longrightarrow> v = vfin (a, b, c)"
  by (simp add: vfin_def Vector3_def)

lemma repulsion_component:
  assumes sel_add: "\<And>a b. sel (add a b) = sel a + sel b"
    and sel_sub: "\<And>a b. sel (sub a b) = sel a - sel b"
    and sel_vfin: "\<And>p. sel (vfin p) = Fin (g p)"
    and g_neg: "\<And>p. g (pscale (- 1) p) = - g p"
    and g_zero: "g (0, 0, 0) = 0"
    and P: "map pos ns = map vfin ps" and m: "m < length ns"
  shows "sel (force (repulsion (Fin k) (zero_forces ns) ! m)) =
         Fin (\<Sum>j \<in> {..< length ns} - {m}. g (pair_force k (ps ! m) (ps ! j)))"
proof -
  let ?w = "\<lambda>i j. g (pair_force k (ps ! i) (ps ! j))"
  let ?z = "zero_forces ns"
  let ?fs = "replicate (length ns) (0::real)"
  have Pz: "map pos ?z = map vfin ps" using P by (simp add: zero_forces_def comp_def)
  have "sel (Vector3 (Fin 0) (Fin 0) (Fin 0)) = Fin 0"
    using sel_vfin [of "(0, 0, 0)"] g_zero by (simp add: vfin_def)
  then have Fz: "map (\<lambda>n. sel (force n)) ?z = map Fin ?fs"
    by (simp add: zero_forces_def comp_def map_replicate_const)
  have anti: "\<And>i j. ?w i j = - ?w j i"
    by (subst pair_force_antisym) (simp add: g_neg)
  have lr: "length (repulsion (Fin k) ?z) = length ns"
    using repulsion_keeps [of "Fin k" ?z] by (simp add: zero_forces_def)
  have "map (\<lambda>n. sel (force n)) (repulsion (Fin k) ?z) ! m = map Fin (all_update ?w ?fs) ! m"
    by (simp only: link_repulsion [OF sel_add sel_sub sel_vfin Pz Fz])
  then have "sel (force (repulsion (Fin k) ?z ! m)) = Fin (all_update ?w ?fs ! m)"
    using m lr by simp
  also have "all_update ?w ?fs ! m = ?fs ! m + (\<Sum>j \<in> {..< length ?fs} - {m}. ?w m j)"
  proof (rule all_update_antisym)
    show "m < length ?fs" using m by simp
    show "\<And>i j. ?w i j = - ?w j i" by (rule anti)
  qed
  finally show ?thesis using m by simp
qed

text \<open>
  Claim C2, as the code has it. With finite positions and a finite coefficient \<open>k\<close>, the
  repulsion phase applies to every unordered pair of nodes the force
  \<open>k / max(squaredDistance, 0.09)\<close> times the normalized separation vector, added to one
  node and subtracted from the other: after the phase the force on a node is the sum,
  over all other nodes, of that pair force, and the force of \<open>j\<close> on \<open>m\<close> is the opposite of
  the force of \<open>m\<close> on \<open>j\<close>. The magnitude is \<open>|k| / max(squaredDistance, 0.09)\<close> when the two
  positions differ; two nodes at the same position exert no force on each other (the
  zero vector is not normalized). The minimum squared distance is \<open>0.09 = (0.3 units)\<^sup>2\<close>.
\<close>

theorem repulsion_pairwise:
  assumes "map pos ns = map vfin ps" and "m < length ns"
  shows "force (repulsion (Fin k) (zero_forces ns) ! m) =
           vfin (\<Sum>j \<in> {..< length ns} - {m}. px (pair_force k (ps ! m) (ps ! j)),
                 \<Sum>j \<in> {..< length ns} - {m}. py (pair_force k (ps ! m) (ps ! j)),
                 \<Sum>j \<in> {..< length ns} - {m}. pz (pair_force k (ps ! m) (ps ! j))) \<and>
         (\<forall>j. pair_force k (ps ! j) (ps ! m) = pscale (- 1) (pair_force k (ps ! m) (ps ! j))) \<and>
         (\<forall>j. ps ! m \<noteq> ps ! j \<longrightarrow>
            pnorm (pair_force k (ps ! m) (ps ! j)) =
              \<bar>k\<bar> / max (dot (psub (ps ! m) (ps ! j)) (psub (ps ! m) (ps ! j))) (9 / 100)) \<and>
         (\<forall>j. ps ! m = ps ! j \<longrightarrow> pair_force k (ps ! m) (ps ! j) = (0, 0, 0)) \<and>
         (\<forall>p q. repel_force (Fin k) (vfin p) (vfin q) = vfin (pair_force k p q))"
proof -
  have x: "vx (force (repulsion (Fin k) (zero_forces ns) ! m)) =
         Fin (\<Sum>j \<in> {..< length ns} - {m}. px (pair_force k (ps ! m) (ps ! j)))"
    by (rule repulsion_component [OF sel_add_sub(1) sel_add_sub(4) sel_vfin_p(1) comp_antisym(1) _ assms])
      simp
  have y: "vy (force (repulsion (Fin k) (zero_forces ns) ! m)) =
         Fin (\<Sum>j \<in> {..< length ns} - {m}. py (pair_force k (ps ! m) (ps ! j)))"
    by (rule repulsion_component [OF sel_add_sub(2) sel_add_sub(5) sel_vfin_p(2) comp_antisym(2) _ assms])
      simp
  have z: "vz (force (repulsion (Fin k) (zero_forces ns) ! m)) =
         Fin (\<Sum>j \<in> {..< length ns} - {m}. pz (pair_force k (ps ! m) (ps ! j)))"
    by (rule repulsion_component [OF sel_add_sub(3) sel_add_sub(6) sel_vfin_p(3) comp_antisym(3) _ assms])
      simp
  show ?thesis
  proof (intro conjI allI impI)
    show "force (repulsion (Fin k) (zero_forces ns) ! m) =
           vfin (\<Sum>j \<in> {..< length ns} - {m}. px (pair_force k (ps ! m) (ps ! j)),
                 \<Sum>j \<in> {..< length ns} - {m}. py (pair_force k (ps ! m) (ps ! j)),
                 \<Sum>j \<in> {..< length ns} - {m}. pz (pair_force k (ps ! m) (ps ! j)))"
      by (rule vec3_eq_vfin [OF x y z])
  next
    fix j show "pair_force k (ps ! j) (ps ! m) = pscale (- 1) (pair_force k (ps ! m) (ps ! j))"
      by (rule pair_force_antisym)
  next
    fix j assume "ps ! m \<noteq> ps ! j"
    then show "pnorm (pair_force k (ps ! m) (ps ! j)) =
              \<bar>k\<bar> / max (dot (psub (ps ! m) (ps ! j)) (psub (ps ! m) (ps ! j))) (9 / 100)"
      by (rule pair_force_norm)
  next
    fix j assume "ps ! m = ps ! j"
    then show "pair_force k (ps ! m) (ps ! j) = (0, 0, 0)" by (simp add: pair_force_same)
  next
    fix p q show "repel_force (Fin k) (vfin p) (vfin q) = vfin (pair_force k p q)"
      by (rule repel_force_fin)
  qed
qed

lemma pnorm_x: "pnorm (a, 0, 0) = \<bar>a\<bar>"
  by (simp add: pnorm_def)

text \<open>
  Claim C2 as stated takes the minimum squared distance to be \<open>0.3\<close>. Two nodes at distance
  \<open>0.5\<close> (squared distance \<open>0.25\<close>) repel with a force of magnitude \<open>0.6 / 0.25 = 2.4\<close>; the
  magnitude with a minimum of \<open>0.3\<close> would be \<open>0.6 / 0.3 = 2\<close>.
\<close>

theorem repulsion_clamp_counterexample:
  "repel_force (Fin (6 / 10)) (vfin (0, 0, 0)) (vfin (1 / 2, 0, 0)) = vfin (- (12 / 5), 0, 0) \<and>
   length_vec (repel_force (Fin (6 / 10)) (vfin (0, 0, 0)) (vfin (1 / 2, 0, 0))) = Fin (12 / 5) \<and>
   claimed_magnitude (6 / 10) (0, 0, 0) (1 / 2, 0, 0) = 2"
  by (simp add: repel_force_fin pair_force_def punit_def pnorm_x claimed_magnitude_def)

text \<open>The statement at three nodes, for the forces on the first one.\<close>

theorem repulsion_pairwise_witness:
  "map pos three_nodes = map vfin [(0, 0, 0), (1, 0, 0), (0, 2, 0)] \<and>
   (0::nat) < length three_nodes \<and>
   force (repulsion (Fin (3 / 5)) (zero_forces three_nodes) ! 0) = vfin (- (3 / 5), - (3 / 20), 0) \<and>
   pair_force (3 / 5) (1, 0, 0) (0, 0, 0) = pscale (- 1) (pair_force (3 / 5) (0, 0, 0) (1, 0, 0)) \<and>
   (0, 0, 0) \<noteq> (1 :: real, 0 :: real, 0 :: real) \<and>
   pnorm (pair_force (3 / 5) (0, 0, 0) (1, 0, 0)) = \<bar>3 / 5\<bar> / max (dot (psub (0, 0, 0) (1, 0, 0)) (psub (0, 0, 0) (1, 0, 0))) (9 / 100)"
proof -
  have a: "map pos three_nodes = map vfin [(0, 0, 0), (1, 0, 0), (0, 2, 0)]"
    and b: "(0::nat) < length three_nodes"
    by (simp_all add: three_nodes_def mk_neuron_def)
  note inst = repulsion_pairwise [OF a b, of "3 / 5"]
  have s: "{..< length three_nodes} - {0} = {1, 2}"
    by (auto simp: three_nodes_def)
  have f1: "pair_force (3 / 5) (0, 0, 0) (1, 0, 0) = (- (3 / 5), 0, 0)"
    by (simp add: pair_force_def punit_def pnorm_x)
  have n2: "pnorm (0, - 2, 0) = 2"
    by (simp add: pnorm_def real_sqrt_unique)
  have f2: "pair_force (3 / 5) (0, 0, 0) (0, 2, 0) = (0, - (3 / 20), 0)"
    by (simp add: pair_force_def punit_def n2)
  from inst have "force (repulsion (Fin (3 / 5)) (zero_forces three_nodes) ! 0) =
      vfin (\<Sum>j \<in> {..< length three_nodes} - {0}. px (pair_force (3 / 5) ([(0, 0, 0), (1, 0, 0), (0, 2, 0)] ! 0) ([(0, 0, 0), (1, 0, 0), (0, 2, 0)] ! j)),
            \<Sum>j \<in> {..< length three_nodes} - {0}. py (pair_force (3 / 5) ([(0, 0, 0), (1, 0, 0), (0, 2, 0)] ! 0) ([(0, 0, 0), (1, 0, 0), (0, 2, 0)] ! j)),
            \<Sum>j \<in> {..< length three_nodes} - {0}. pz (pair_force (3 / 5) ([(0, 0, 0), (1, 0, 0), (0, 2, 0)] ! 0) ([(0, 0, 0), (1, 0, 0), (0, 2, 0)] ! j)))"
    by (rule conjunct1)
  then have c: "force (repulsion (Fin (3 / 5)) (zero_forces three_nodes) ! 0) =
      vfin (- (3 / 5), - (3 / 20), 0)"
    by (simp add: s f1 f2)
  from inst have "\<forall>j. pair_force (3 / 5) ([(0, 0, 0), (1, 0, 0), (0, 2, 0)] ! j) ([(0, 0, 0), (1, 0, 0), (0, 2, 0)] ! 0) =
      pscale (- 1) (pair_force (3 / 5) ([(0, 0, 0), (1, 0, 0), (0, 2, 0)] ! 0) ([(0, 0, 0), (1, 0, 0), (0, 2, 0)] ! j))"
    by (elim conjE)
  from this [rule_format, of 1]
  have d: "pair_force (3 / 5) (1, 0, 0) (0, 0, 0) =
      pscale (- 1) (pair_force (3 / 5) (0, 0, 0) (1, 0, 0))"
    by simp
  have e: "pnorm (pair_force (3 / 5) (0, 0, 0) (1, 0, 0)) =
      \<bar>3 / 5\<bar> / max (dot (psub (0, 0, 0) (1, 0, 0)) (psub (0, 0, 0) (1, 0, 0))) (9 / 100)"
    by (simp add: f1 pnorm_x)
  from a b c d e show ?thesis by simp
qed

section \<open>What a scanline marks, and that voxelization returns\<close>

lemma span_loop_stop: "\<not> cx \<le> cx1 \<Longrightarrow> span_loop vs cy cz cx cx1 = Some vs"
  by (subst span_loop.simps) simp

lemma span_loop_step:
  "cx \<le> cx1 \<Longrightarrow>
   span_loop vs cy cz cx cx1 = span_loop (write_voxel vs (flat_index cx cy cz)) cy cz (cx + Fin 1) cx1"
  by (subst span_loop.simps) simp

lemma write_voxel_length [simp]: "length (write_voxel vs i) = length vs"
  by (cases i) simp_all

lemma flat_index_nat:
  "flat_index (Fin (real c)) (Fin (real cy)) (Fin (real cz)) =
   Fin (real (c * GRID_SIZE * GRID_SIZE + cy * GRID_SIZE + cz))"
  by (simp add: flat_index_def G_def)

lemma write_voxel_nat:
  "write_voxel vs (Fin (real n)) = (if n < length vs then vs[n := 1] else vs)"
  by simp

lemma with_marks_refl: "with_marks vs {} vs"
  by (simp add: with_marks_def)

lemma with_marks_trans:
  "with_marks vs M vs' \<Longrightarrow> with_marks vs' N vs'' \<Longrightarrow> with_marks vs (M \<union> N) vs''"
  by (auto simp: with_marks_def)

lemma with_marks_write:
  "with_marks vs {n} (write_voxel vs (Fin (real n)))"
  by (auto simp: with_marks_def nth_list_update)

text \<open>The loop from the integer \<open>a\<close> to the integer \<open>b\<close>.\<close>

lemma span_loop_nat:
  "\<exists>vs'. span_loop vs (Fin (real cy)) (Fin (real cz)) (Fin (real a)) (Fin (real_of_int b)) = Some vs' \<and>
         with_marks vs ((\<lambda>c. c * GRID_SIZE * GRID_SIZE + cy * GRID_SIZE + cz) ` {c. int a \<le> int c \<and> int c \<le> b}) vs'"
proof (induction "nat (b - int a + 1)" arbitrary: a vs)
  case 0
  then have "\<not> Fin (real a) \<le> Fin (real_of_int b)" by simp
  then have "span_loop vs (Fin (real cy)) (Fin (real cz)) (Fin (real a)) (Fin (real_of_int b)) = Some vs"
    by (rule span_loop_stop)
  moreover have e: "{c. int a \<le> int c \<and> int c \<le> b} = {}" using 0 by auto
  have "with_marks vs ((\<lambda>c. c * GRID_SIZE * GRID_SIZE + cy * GRID_SIZE + cz) ` {c. int a \<le> int c \<and> int c \<le> b}) vs"
    unfolding e by (simp add: with_marks_refl)
  ultimately show ?case by blast
next
  case (Suc n)
  then have le: "Fin (real a) \<le> Fin (real_of_int b)" by simp
  let ?f = "\<lambda>c. c * GRID_SIZE * GRID_SIZE + cy * GRID_SIZE + cz"
  let ?vs1 = "write_voxel vs (flat_index (Fin (real a)) (Fin (real cy)) (Fin (real cz)))"
  have n: "n = nat (b - int (Suc a) + 1)" using Suc.hyps(2) by simp
  from Suc.hyps(1) [OF n, of ?vs1]
  obtain vs' where r: "span_loop ?vs1 (Fin (real cy)) (Fin (real cz)) (Fin (real (Suc a))) (Fin (real_of_int b)) = Some vs'"
    and m: "with_marks ?vs1 (?f ` {c. int (Suc a) \<le> int c \<and> int c \<le> b}) vs'"
    by blast
  have s: "Fin (real a) + Fin 1 = Fin (real (Suc a))" by (simp add: add.commute)
  have "span_loop vs (Fin (real cy)) (Fin (real cz)) (Fin (real a)) (Fin (real_of_int b)) = Some vs'"
    by (simp only: span_loop_step [OF le, of vs "Fin (real cy)" "Fin (real cz)"] s r)
  moreover have "with_marks vs {?f a} ?vs1"
    unfolding flat_index_nat by (rule with_marks_write)
  from with_marks_trans [OF this m]
  have "with_marks vs ({?f a} \<union> ?f ` {c. int (Suc a) \<le> int c \<and> int c \<le> b}) vs'" .
  moreover have "{?f a} \<union> ?f ` {c. int (Suc a) \<le> int c \<and> int c \<le> b} = ?f ` {c. int a \<le> int c \<and> int c \<le> b}"
  proof -
    have "{c. int a \<le> int c \<and> int c \<le> b} = insert a {c. int (Suc a) \<le> int c \<and> int c \<le> b}"
      using Suc.hyps(2) by auto
    then show ?thesis by simp
  qed
  ultimately show ?case by auto
qed

lemma cell_coord_cases:
  "(\<exists>i. cell_coord x m s = Fin (of_int i)) \<or> cell_coord x m s = PInf \<or>
   cell_coord x m s = NInf \<or> cell_coord x m s = NaN"
  unfolding cell_coord_def by (cases "(x - m) div s * G") auto

lemma cx0_cases:
  "(\<exists>a::nat. Math_max (Fin 0) (cell_coord x m s) = Fin (real a)) \<or>
   Math_max (Fin 0) (cell_coord x m s) = PInf \<or> Math_max (Fin 0) (cell_coord x m s) = NaN"
proof -
  consider i where "cell_coord x m s = Fin (of_int i)" | "cell_coord x m s = PInf"
    | "cell_coord x m s = NInf" | "cell_coord x m s = NaN"
    using cell_coord_cases [of x m s] by blast
  then show ?thesis
  proof cases
    case 1
    have "Math_max (Fin 0) (Fin (of_int i)) = Fin (real (nat i))"
      by (cases "0 < i") (simp_all add: not_less)
    with 1 show ?thesis by auto
  next
    case 3
    then have "Math_max (Fin 0) (cell_coord x m s) = Fin (real 0)" by simp
    then show ?thesis by blast
  qed simp_all
qed

lemma cx1_cases:
  "(\<exists>b::int. Math_min (G - Fin 1) (cell_coord x m s) = Fin (of_int b)) \<or>
   Math_min (G - Fin 1) (cell_coord x m s) = NInf \<or> Math_min (G - Fin 1) (cell_coord x m s) = NaN"
proof -
  have g: "G - Fin 1 = Fin (of_int 31)" by (simp add: G_val)
  consider i where "cell_coord x m s = Fin (of_int i)" | "cell_coord x m s = PInf"
    | "cell_coord x m s = NInf" | "cell_coord x m s = NaN"
    using cell_coord_cases [of x m s] by blast
  then show ?thesis
  proof cases
    case 1
    have "Math_min (Fin (of_int 31)) (Fin (of_int i)) = Fin (of_int (min 31 i))"
      by (simp add: min_def not_less)
    with 1 g show ?thesis by auto
  next
    case 2
    then have "Math_min (G - Fin 1) (cell_coord x m s) = Fin (of_int 31)" by (simp add: g)
    then show ?thesis by blast
  qed (simp_all add: g)
qed

lemma mark_span_marks:
  "\<exists>vs'. mark_span mn sz (Fin (real cy)) (Fin (real cz)) vs x0 x1 = Some vs' \<and>
         with_marks vs ((\<lambda>c. c * GRID_SIZE * GRID_SIZE + cy * GRID_SIZE + cz) ` span_cells mn sz x0 x1) vs'"
proof -
  let ?c0 = "Math_max (Fin 0) (cell_coord x0 (vx mn) (vx sz))"
  let ?c1 = "Math_min (G - Fin 1) (cell_coord x1 (vx mn) (vx sz))"
  let ?f = "\<lambda>c. c * GRID_SIZE * GRID_SIZE + cy * GRID_SIZE + cz"
  have sc: "span_cells mn sz x0 x1 = {c. ?c0 \<le> Fin (real c) \<and> Fin (real c) \<le> ?c1}"
    by (simp add: span_cells_def)
  have ms: "mark_span mn sz (Fin (real cy)) (Fin (real cz)) vs x0 x1 =
        span_loop vs (Fin (real cy)) (Fin (real cz)) ?c0 ?c1"
    by (simp add: mark_span_def Let_def)
  have c1: "?c1 \<noteq> PInf"
    using cx1_cases [of x1 "vx mn" "vx sz"] by auto
  have c0: "?c0 \<noteq> NInf"
    using cx0_cases [of x0 "vx mn" "vx sz"] by auto
  consider (fin) a b where "?c0 = Fin (real a)" "?c1 = Fin (of_int b)"
    | (stop0) "?c0 = PInf \<or> ?c0 = NaN" | (stop1) "?c1 = NInf \<or> ?c1 = NaN"
    using cx0_cases [of x0 "vx mn" "vx sz"] cx1_cases [of x1 "vx mn" "vx sz"] by blast
  then show ?thesis
  proof cases
    case fin
    have "{c. ?c0 \<le> Fin (real c) \<and> Fin (real c) \<le> ?c1} = {c. int a \<le> int c \<and> int c \<le> b}"
      unfolding fin by auto
    then show ?thesis
      using span_loop_nat [of vs cy cz a b] unfolding ms sc fin by simp
  next
    case stop0
    then have "\<not> ?c0 \<le> ?c1" using c1 by (cases ?c1) (auto simp: less_eq_jsnum_def)
    then have l: "span_loop vs (Fin (real cy)) (Fin (real cz)) ?c0 ?c1 = Some vs"
      by (rule span_loop_stop)
    have e: "{c. ?c0 \<le> Fin (real c) \<and> Fin (real c) \<le> ?c1} = {}"
      using stop0 by (auto simp: less_eq_jsnum_def)
    show ?thesis unfolding ms sc e image_empty using l with_marks_refl by blast
  next
    case stop1
    then have "\<not> ?c0 \<le> ?c1" using c0 by (cases ?c0) (auto simp: less_eq_jsnum_def)
    then have l: "span_loop vs (Fin (real cy)) (Fin (real cz)) ?c0 ?c1 = Some vs"
      by (rule span_loop_stop)
    have e: "{c. ?c0 \<le> Fin (real c) \<and> Fin (real c) \<le> ?c1} = {}"
      using stop1 by (auto simp: less_eq_jsnum_def)
    show ?thesis unfolding ms sc e image_empty using l with_marks_refl by blast
  qed
qed

lemma marked_by_Cons2:
  "marked_by mn sz cy cz (x0 # x1 # rest) =
     (\<lambda>c. c * GRID_SIZE * GRID_SIZE + cy * GRID_SIZE + cz) ` span_cells mn sz x0 x1 \<union>
     marked_by mn sz cy cz rest"
  by (simp add: marked_by_def)

lemma marked_by_short [simp]: "marked_by mn sz cy cz [] = {}" "marked_by mn sz cy cz [x] = {}"
  by (simp_all add: marked_by_def)

lemma mark_pairs_marks:
  "\<exists>vs'. mark_pairs mn sz (Fin (real cy)) (Fin (real cz)) vs ds = Some vs' \<and>
         with_marks vs (marked_by mn sz cy cz ds) vs'"
proof (induction ds arbitrary: vs rule: pairs_of.induct)
  case (1 x0 x1 rest)
  obtain vs1 where a: "mark_span mn sz (Fin (real cy)) (Fin (real cz)) vs x0 x1 = Some vs1"
    and b: "with_marks vs ((\<lambda>c. c * GRID_SIZE * GRID_SIZE + cy * GRID_SIZE + cz) ` span_cells mn sz x0 x1) vs1"
    using mark_span_marks by blast
  obtain vs2 where c: "mark_pairs mn sz (Fin (real cy)) (Fin (real cz)) vs1 rest = Some vs2"
    and d: "with_marks vs1 (marked_by mn sz cy cz rest) vs2"
    using "1.IH" by blast
  from a c have "mark_pairs mn sz (Fin (real cy)) (Fin (real cz)) vs (x0 # x1 # rest) = Some vs2"
    by simp
  moreover from with_marks_trans [OF b d]
  have "with_marks vs (marked_by mn sz cy cz (x0 # x1 # rest)) vs2"
    by (simp add: marked_by_Cons2)
  ultimately show ?case by blast
qed (simp_all add: with_marks_refl)

lemma pairs_of_odd: "odd (length ds) \<Longrightarrow> pairs_of ds = pairs_of (butlast ds)"
proof (induction ds rule: pairs_of.induct)
  case (1 a b rest)
  then have "rest \<noteq> []" by auto
  with 1 show ?case by simp
qed simp_all

lemma marked_by_odd:
  "odd (length ds) \<Longrightarrow> marked_by mn sz cy cz ds = marked_by mn sz cy cz (butlast ds)"
  by (simp add: marked_by_def pairs_of_odd)

lemma insert_hit_fin:
  "\<exists>cs. insert_hit (Fin a) (map Fin bs) = map Fin cs \<and> mset cs = add_mset a (mset bs) \<and>
        (sorted bs \<longrightarrow> sorted cs)"
proof (induction bs)
  case Nil
  have "insert_hit (Fin a) (map Fin []) = map Fin [a]" by simp
  then show ?case by (metis mset.simps sorted1)
next
  case (Cons b bs)
  show ?case
  proof (cases "a < b")
    case True
    have "insert_hit (Fin a) (map Fin (b # bs)) = map Fin (a # b # bs)" using True by simp
    moreover have "sorted (b # bs) \<longrightarrow> sorted (a # b # bs)" using True by auto
    ultimately show ?thesis by (metis mset.simps(2))
  next
    case False
    from Cons.IH obtain cs where cs: "insert_hit (Fin a) (map Fin bs) = map Fin cs"
      "mset cs = add_mset a (mset bs)" "sorted bs \<longrightarrow> sorted cs" by blast
    have "insert_hit (Fin a) (map Fin (b # bs)) = map Fin (b # cs)" using False cs(1) by simp
    moreover have "mset (b # cs) = add_mset a (mset (b # bs))" using cs(2) by simp
    moreover have "sorted (b # bs) \<longrightarrow> sorted (b # cs)"
    proof
      assume s: "sorted (b # bs)"
      then have "sorted cs" using cs(3) by simp
      moreover have "\<forall>c \<in> set cs. b \<le> c"
      proof
        fix c assume "c \<in> set cs"
        then have "c \<in># mset cs" by simp
        then have "c = a \<or> c \<in> set bs" unfolding cs(2) by auto
        then show "b \<le> c" using False s by auto
      qed
      ultimately show "sorted (b # cs)" by simp
    qed
    ultimately show ?thesis by blast
  qed
qed

lemma fold_insert_hit_fin:
  "sorted acc \<Longrightarrow>
   \<exists>cs. fold insert_hit (map Fin rs) (map Fin acc) = map Fin cs \<and> mset cs = mset rs + mset acc \<and> sorted cs"
proof (induction rs arbitrary: acc)
  case Nil
  then show ?case by auto
next
  case (Cons r rs)
  obtain cs where cs: "insert_hit (Fin r) (map Fin acc) = map Fin cs" "mset cs = add_mset r (mset acc)"
    "sorted cs"
    using insert_hit_fin [of r acc] Cons.prems by blast
  from Cons.IH [OF cs(3)] obtain ds where "fold insert_hit (map Fin rs) (map Fin cs) = map Fin ds"
    "mset ds = mset rs + mset cs" "sorted ds" by blast
  then show ?case using cs by auto
qed

lemma sort_hits_fin: "sort_hits (map Fin rs) = map Fin (sort rs)"
proof -
  obtain cs where cs: "fold insert_hit (map Fin rs) (map Fin []) = map Fin cs"
    "mset cs = mset rs + mset []" "sorted cs"
    using fold_insert_hit_fin [of "[]" rs] by auto
  then have "sort rs = cs" by (intro properties_for_sort) simp_all
  with cs(1) show ?thesis by (simp add: sort_hits_def)
qed

lemma dedupe_from_fin:
  "\<exists>ks. dedupe_from (Fin k) (map Fin rs) = map Fin ks \<and> subseq ks rs \<and>
        successively (\<lambda>a b. 1 / 10 ^ 5 < b - a) (k # ks) \<and>
        (sorted (k # rs) \<longrightarrow> (\<forall>r \<in> set rs. \<exists>c \<in> set (k # ks). c \<le> r \<and> r - c \<le> 1 / 10 ^ 5))"
proof (induction rs arbitrary: k)
  case Nil
  then show ?case by simp
next
  case (Cons r rs)
  show ?case
  proof (cases "1 / 10 ^ 5 < r - k")
    case True
    from Cons.IH [of r] obtain ks where ks: "dedupe_from (Fin r) (map Fin rs) = map Fin ks"
      "subseq ks rs" "successively (\<lambda>a b. 1 / 10 ^ 5 < b - a) (r # ks)"
      "sorted (r # rs) \<longrightarrow> (\<forall>x \<in> set rs. \<exists>c \<in> set (r # ks). c \<le> x \<and> x - c \<le> 1 / 10 ^ 5)"
      by blast
    have "dedupe_from (Fin k) (map Fin (r # rs)) = map Fin (r # ks)" using True ks(1) by simp
    moreover have "subseq (r # ks) (r # rs)" using ks(2) by simp
    moreover have "successively (\<lambda>a b. 1 / 10 ^ 5 < b - a) (k # r # ks)" using True ks(3) by simp
    moreover have "sorted (k # r # rs) \<longrightarrow>
        (\<forall>x \<in> set (r # rs). \<exists>c \<in> set (k # r # ks). c \<le> x \<and> x - c \<le> 1 / 10 ^ 5)"
      using ks(4) by auto
    ultimately show ?thesis by blast
  next
    case False
    from Cons.IH [of k] obtain ks where ks: "dedupe_from (Fin k) (map Fin rs) = map Fin ks"
      "subseq ks rs" "successively (\<lambda>a b. 1 / 10 ^ 5 < b - a) (k # ks)"
      "sorted (k # rs) \<longrightarrow> (\<forall>x \<in> set rs. \<exists>c \<in> set (k # ks). c \<le> x \<and> x - c \<le> 1 / 10 ^ 5)"
      by blast
    have "dedupe_from (Fin k) (map Fin (r # rs)) = map Fin ks" using False ks(1) by simp
    moreover have "subseq ks (r # rs)" using ks(2) by (rule list_emb_Cons)
    moreover have "sorted (k # r # rs) \<longrightarrow>
        (\<forall>x \<in> set (r # rs). \<exists>c \<in> set (k # ks). c \<le> x \<and> x - c \<le> 1 / 10 ^ 5)"
    proof
      assume s: "sorted (k # r # rs)"
      then have "sorted (k # rs)" by auto
      with ks(4) have rest: "\<forall>x \<in> set rs. \<exists>c \<in> set (k # ks). c \<le> x \<and> x - c \<le> 1 / 10 ^ 5" by blast
      have "k \<le> r \<and> r - k \<le> 1 / 10 ^ 5" using s False by auto
      then have "\<exists>c \<in> set (k # ks). c \<le> r \<and> r - c \<le> 1 / 10 ^ 5" by auto
      with rest show "\<forall>x \<in> set (r # rs). \<exists>c \<in> set (k # ks). c \<le> x \<and> x - c \<le> 1 / 10 ^ 5" by simp
    qed
    ultimately show ?thesis using ks(3) by blast
  qed
qed

lemma dedupe_fin:
  "\<exists>ks. dedupe (map Fin rs) = map Fin ks \<and> subseq ks rs \<and>
        successively (\<lambda>a b. 1 / 10 ^ 5 < b - a) ks \<and>
        (sorted rs \<longrightarrow> (\<forall>r \<in> set rs. \<exists>c \<in> set ks. c \<le> r \<and> r - c \<le> 1 / 10 ^ 5))"
proof (cases rs)
  case Nil
  then show ?thesis by simp
next
  case (Cons r rs')
  from dedupe_from_fin [of r rs'] obtain ks where ks: "dedupe_from (Fin r) (map Fin rs') = map Fin ks"
    "subseq ks rs'" "successively (\<lambda>a b. 1 / 10 ^ 5 < b - a) (r # ks)"
    "sorted (r # rs') \<longrightarrow> (\<forall>x \<in> set rs'. \<exists>c \<in> set (r # ks). c \<le> x \<and> x - c \<le> 1 / 10 ^ 5)"
    by blast
  have "dedupe (map Fin rs) = map Fin (r # ks)" using Cons ks(1) by simp
  moreover have "subseq (r # ks) rs" using Cons ks(2) by simp
  moreover have "sorted rs \<longrightarrow> (\<forall>x \<in> set rs. \<exists>c \<in> set (r # ks). c \<le> x \<and> x - c \<le> 1 / 10 ^ 5)"
    using Cons ks(4) by auto
  ultimately show ?thesis using ks(3) by blast
qed

lemma scan_line_marks:
  "\<exists>vs'. scan_line geo mn sz cy cz vs = Some vs' \<and>
     with_marks vs (marked_by mn sz cy cz
       (dedupe (sort_hits (collect_hits (vx mn - Fin 1)
          (cell_centre (Fin (real cy)) (vy mn) (vy sz))
          (cell_centre (Fin (real cz)) (vz mn) (vz sz)) geo)))) vs'"
proof -
  let ?hits = "collect_hits (vx mn - Fin 1) (cell_centre (Fin (real cy)) (vy mn) (vy sz))
          (cell_centre (Fin (real cz)) (vz mn) (vz sz)) geo"
  show ?thesis
  proof (cases "?hits = []")
    case True
    then show ?thesis by (simp add: scan_line_def Let_def sort_hits_def with_marks_refl)
  next
    case False
    then show ?thesis
      using mark_pairs_marks [of mn sz cy cz vs "dedupe (sort_hits ?hits)"]
      by (simp add: scan_line_def Let_def)
  qed
qed

lemma fold_opt_marks:
  assumes "\<And>a s. \<exists>s'. f a s = Some s' \<and> with_marks s (M a) s'"
  shows "\<exists>s'. fold_opt f as s = Some s' \<and> with_marks s (\<Union>a \<in> set as. M a) s'"
proof (induction as arbitrary: s)
  case Nil
  then show ?case by (simp add: with_marks_refl)
next
  case (Cons a as)
  obtain s1 where a: "f a s = Some s1" "with_marks s (M a) s1" using assms by blast
  obtain s2 where b: "fold_opt f as s1 = Some s2" "with_marks s1 (\<Union>a \<in> set as. M a) s2"
    using Cons.IH by blast
  from a(1) b(1) have "fold_opt f (a # as) s = Some s2" by simp
  moreover from with_marks_trans [OF a(2) b(2)]
  have "with_marks s (\<Union>a \<in> set (a # as). M a) s2" by simp
  ultimately show ?case by blast
qed

lemma scan_line_marks':
  "\<exists>vs'. scan_line geo mn sz cy cz vs = Some vs' \<and> with_marks vs (line_marks geo mn sz cy cz) vs'"
  using scan_line_marks [of geo mn sz cy cz vs] by (simp add: line_marks_def scan_hits_def)

lemma scan_row_marks:
  "\<exists>vs'. scan_row geo mn sz cy vs = Some vs' \<and>
         with_marks vs (\<Union>cz \<in> set [0 ..< GRID_SIZE]. line_marks geo mn sz cy cz) vs'"
  unfolding scan_row_def by (rule fold_opt_marks) (rule scan_line_marks')

lemma scan_rows_marks:
  "\<exists>vs'. scan_rows geo mn sz lo hi vs = Some vs' \<and> with_marks vs (grid_marks geo mn sz lo hi) vs'"
  unfolding scan_rows_def grid_marks_def by (rule fold_opt_marks) (rule scan_row_marks)

lemma voxelize_total:
  "\<exists>st' k'. voxelize rnd k geo st = Some (st', k') \<and>
     with_marks (replicate (GRID_SIZE * GRID_SIZE * GRID_SIZE) 0)
       (grid_marks geo (bmin (bounds st)) (bsize (bounds st)) 0 GRID_SIZE) (voxels st')"
proof -
  let ?z = "replicate (GRID_SIZE * GRID_SIZE * GRID_SIZE) (0 :: 8 word)"
  obtain vs where vs: "scan_rows geo (bmin (bounds st)) (bsize (bounds st)) 0 GRID_SIZE ?z = Some vs"
    and m: "with_marks ?z (grid_marks geo (bmin (bounds st)) (bsize (bounds st)) 0 GRID_SIZE) vs"
    using scan_rows_marks by blast
  let ?s0 = "st\<lparr>voxels := ?z, insideCache := []\<rparr>\<lparr>voxels := vs\<rparr>"
  obtain st' k' where f: "finish_voxelize rnd k ?s0 = (st', k')" by (cases "finish_voxelize rnd k ?s0")
  then have "voxels st' = vs" by (auto simp: finish_voxelize_def case_prod_beta)
  moreover have "voxelize rnd k geo st = Some (st', k')"
    using vs f by (simp add: voxelize_def begin_voxelize_def)
  ultimately show ?thesis using m by blast
qed

text \<open>
  Claim C6. For every mesh, every bounds and every scanline \<open>(cy, cz)\<close>, the scanline
  returns, and the cells it marks are the cells between the two hits of each consecutive
  pair \<open>(hit[2k], hit[2k+1])\<close> of the sorted, deduplicated hit list, and no others. When
  that list has an odd length, the cells are those of the list without its last hit: the
  unpaired hit marks nothing. When the hits are finite numbers, the deduplicated list is
  a subsequence of the hits in ascending order in which consecutive elements are more
  than \<open>1e-5\<close> apart, and every hit is at most \<open>1e-5\<close> above an element of it. The whole
  voxelization returns for every mesh, with a grid in which exactly the cells of the
  scanlines' spans are marked.
\<close>

theorem scanline_marks_pairs:
  fixes geo :: geometry and st :: layout and cy cz :: nat
  defines "mn \<equiv> bmin (bounds st)" and "sz \<equiv> bsize (bounds st)"
  defines "hits \<equiv> scan_hits geo mn sz cy cz"
  defines "ds \<equiv> dedupe (sort_hits hits)"
  shows "(\<exists>vs'. scan_line geo mn sz cy cz vs = Some vs' \<and> with_marks vs (marked_by mn sz cy cz ds) vs') \<and>
    (odd (length ds) \<longrightarrow> marked_by mn sz cy cz ds = marked_by mn sz cy cz (butlast ds)) \<and>
    (\<forall>rs. hits = map Fin rs \<longrightarrow>
       (\<exists>ks. ds = map Fin ks \<and> subseq ks (sort rs) \<and>
             successively (\<lambda>a b. 1 / 10 ^ 5 < b - a) ks \<and>
             (\<forall>r \<in> set rs. \<exists>c \<in> set ks. c \<le> r \<and> r - c \<le> 1 / 10 ^ 5))) \<and>
    (\<exists>st' k'. voxelize rnd k geo st = Some (st', k') \<and>
       with_marks (replicate (GRID_SIZE * GRID_SIZE * GRID_SIZE) 0)
         (grid_marks geo mn sz 0 GRID_SIZE) (voxels st'))"
proof (intro conjI allI impI)
  show "\<exists>vs'. scan_line geo mn sz cy cz vs = Some vs' \<and> with_marks vs (marked_by mn sz cy cz ds) vs'"
    using scan_line_marks' [of geo mn sz cy cz vs]
    by (simp add: line_marks_def ds_def hits_def)
next
  assume "odd (length ds)"
  then show "marked_by mn sz cy cz ds = marked_by mn sz cy cz (butlast ds)"
    by (rule marked_by_odd)
next
  fix rs assume h: "hits = map Fin rs"
  have s: "sort_hits hits = map Fin (sort rs)" by (simp add: h sort_hits_fin)
  from dedupe_fin [of "sort rs"] obtain ks where ks: "dedupe (map Fin (sort rs)) = map Fin ks"
    "subseq ks (sort rs)" "successively (\<lambda>a b. 1 / 10 ^ 5 < b - a) ks"
    "\<forall>r \<in> set (sort rs). \<exists>c \<in> set ks. c \<le> r \<and> r - c \<le> 1 / 10 ^ 5"
    by auto
  then show "\<exists>ks. ds = map Fin ks \<and> subseq ks (sort rs) \<and>
             successively (\<lambda>a b. 1 / 10 ^ 5 < b - a) ks \<and>
             (\<forall>r \<in> set rs. \<exists>c \<in> set ks. c \<le> r \<and> r - c \<le> 1 / 10 ^ 5)"
    unfolding ds_def s by auto
next
  show "\<exists>st' k'. voxelize rnd k geo st = Some (st', k') \<and>
       with_marks (replicate (GRID_SIZE * GRID_SIZE * GRID_SIZE) 0)
         (grid_marks geo mn sz 0 GRID_SIZE) (voxels st')"
    unfolding mn_def sz_def by (rule voxelize_total)
qed

lemma plane_hit:
  "rayTriX (Fin (- 6)) (Fin (- (155 / 32))) (Fin (- (155 / 32)))
     (vfin (c, - 6, - 6)) (vfin (c, 20, - 6)) (vfin (c, - 6, 20)) =
   (if 1 / 10 ^ 8 \<le> c + 6 then Some (Fin c) else None)"
proof -
  have "- 6 - (- 4056 - 676 * c) / 676 = c" by (simp add: field_simps)
  then show ?thesis by (simp add: rayTriX_def EPSILON_def Let_def)
qed

lemma three_planes_hits:
  "scan_hits three_planes (bmin cube_bounds) (bsize cube_bounds) 0 0 = map Fin [5, - 5, 0]"
  by (simp add: scan_hits_def collect_hits_def three_planes_def plane_triangle_def cube_bounds_def
      cell_centre_fin plane_hit)

lemma three_planes_deduped:
  "dedupe (sort_hits (map Fin [5, - 5, 0])) = map Fin [- 5, 0, 5]"
  by (simp add: sort_hits_def)

text \<open>
  The statement at the scanline \<open>(0, 0)\<close> of the three planes: the hits \<open>5, -5, 0\<close> are
  sorted to \<open>-5, 0, 5\<close>, an odd count, and the cells marked are those of \<open>(-5, 0)\<close> alone.
\<close>

theorem scanline_marks_pairs_witness:
  "scan_hits three_planes (bmin (bounds (cube_layout []))) (bsize (bounds (cube_layout []))) 0 0 =
     map Fin [5, - 5, 0] \<and>
   dedupe (sort_hits (map Fin [5, - 5, 0])) = map Fin [- 5, 0, 5] \<and>
   odd (length (map Fin [- 5, 0, 5 :: real])) \<and>
   marked_by (bmin cube_bounds) (bsize cube_bounds) 0 0 (map Fin [- 5, 0, 5]) =
     marked_by (bmin cube_bounds) (bsize cube_bounds) 0 0 (map Fin [- 5, 0]) \<and>
   (\<exists>vs'. scan_line three_planes (bmin cube_bounds) (bsize cube_bounds) 0 0 (voxels (cube_layout [])) = Some vs')"
proof -
  have b: "bounds (cube_layout []) = cube_bounds" by (simp add: cube_layout_def)
  have h: "scan_hits three_planes (bmin (bounds (cube_layout []))) (bsize (bounds (cube_layout []))) 0 0 =
     map Fin [5, - 5, 0]"
    unfolding b by (rule three_planes_hits)
  note inst = scanline_marks_pairs [of three_planes "cube_layout []" 0 0 "voxels (cube_layout [])",
      unfolded h three_planes_deduped]
  have o: "odd (length (map Fin [- 5, 0, 5 :: real]))" by simp
  from inst o have "marked_by (bmin (bounds (cube_layout []))) (bsize (bounds (cube_layout []))) 0 0 (map Fin [- 5, 0, 5]) =
     marked_by (bmin (bounds (cube_layout []))) (bsize (bounds (cube_layout []))) 0 0 (butlast (map Fin [- 5, 0, 5]))"
    by blast
  moreover from inst have "\<exists>vs'. scan_line three_planes (bmin (bounds (cube_layout []))) (bsize (bounds (cube_layout []))) 0 0 (voxels (cube_layout [])) = Some vs'"
    by blast
  ultimately show ?thesis using h o three_planes_deduped by (simp add: b)
qed

section \<open>The inside-point sampler\<close>

lemma centre_back:
  assumes "0 < s"
  shows "cell_coord (cell_centre (Fin (real c)) (Fin m) (Fin s)) (Fin m) (Fin s) = Fin (real c)"
proof -
  have "(m + (real c + 1 / 2) / 32 * s - m) / s * 32 = real c + 1 / 2"
    using assms by (simp add: field_simps)
  moreover have "\<lfloor>real c + 1 / 2\<rfloor> = int c" by linarith
  ultimately have e: "real_of_int \<lfloor>(m + (real c + 1 / 2) / 32 * s - m) / s * 32\<rfloor> = real c" by simp
  have nz: "s \<noteq> 0" using assms by simp
  show ?thesis unfolding cell_centre_fin cell_coord_fin [OF nz] e ..
qed

lemma isInside_centre:
  assumes b: "proper_bounds (bounds st)" and c: "cx < GRID_SIZE" "cy < GRID_SIZE" "cz < GRID_SIZE"
  shows "isInside st (cellToWorld st cx cy cz) \<longleftrightarrow>
         voxel_at (voxels st) (Fin (real (cx * GRID_SIZE * GRID_SIZE + cy * GRID_SIZE + cz))) = Some 1"
proof -
  from b obtain m1 m2 m3 s1 s2 s3 where mn: "bmin (bounds st) = vfin (m1, m2, m3)"
    and sz: "bsize (bounds st) = vfin (s1, s2, s3)" and s: "0 < s1" "0 < s2" "0 < s3"
    by (rule proper_boundsE)
  have r: "real cx < 32" "real cy < 32" "real cz < 32" using c by (simp_all add: GRID_SIZE_def)
  show ?thesis
    using r
    by (simp add: isInside_def cellToWorld_def Let_def mn sz centre_back s G_val
        flat_index_nat [unfolded G_val [symmetric]] del: voxel_at.simps)
qed

lemma cache_cell_inside:
  assumes b: "proper_bounds (bounds st)" and ok: "cache_ok st" and c: "c \<in> set (insideCache st)"
  shows "isInside st (cellToWorld st (ix c) (iy c) (iz c))"
proof -
  from ok c have r: "ix c < GRID_SIZE" "iy c < GRID_SIZE" "iz c < GRID_SIZE"
    and l: "cell_index c < length (voxels st)" and v: "voxels st ! cell_index c = 1"
    by (auto simp: cache_ok_def list_all_iff)
  have "voxel_at (voxels st) (Fin (real (cell_index c))) = Some 1"
    using l v by simp
  then show ?thesis
    using isInside_centre [OF b r] by (simp add: cell_index_def)
qed

lemma to_int32_index:
  assumes "0 \<le> r" "r < 1" "0 < n" "n < 2 ^ 31"
  shows "0 \<le> to_int32 (Fin r * Fin (real n)) \<and> nat (to_int32 (Fin r * Fin (real n))) < n"
proof -
  have nn: "0 \<le> r * real n" using assms by simp
  have lt: "r * real n < real n" using assms by simp
  have f0: "0 \<le> \<lfloor>r * real n\<rfloor>" using nn by simp
  have f1: "\<lfloor>r * real n\<rfloor> < int n" using lt by linarith
  have "int n < 2 ^ 31" using assms(4) by (metis of_nat_less_iff of_nat_numeral of_nat_power)
  then have f2: "\<lfloor>r * real n\<rfloor> < 2 ^ 31" using f1 by linarith
  have m: "\<lfloor>r * real n\<rfloor> mod 2 ^ 32 = \<lfloor>r * real n\<rfloor>" using f0 f2 by simp
  have e: "to_int32 (Fin r * Fin (real n)) = \<lfloor>r * real n\<rfloor>"
    using nn m f2 by (simp add: Let_def)
  have "nat \<lfloor>r * real n\<rfloor> < n" using f0 f1 by linarith
  then show ?thesis unfolding e using f0 by simp
qed

lemma cache_at_random:
  assumes "rng_ok rnd" "insideCache st \<noteq> []" "length (insideCache st) < 2 ^ 31"
  shows "\<exists>c \<in> set (insideCache st).
     cache_at (insideCache st) (to_int32 (Fin (rnd k) * Fin (real (length (insideCache st))))) = Inr c"
proof -
  have "0 \<le> rnd k" "rnd k < 1" using assms(1) by (simp_all add: rng_ok_def)
  from to_int32_index [OF this, of "length (insideCache st)"] assms(2,3)
  show ?thesis by (simp add: cache_at_def)
qed

lemma sample_cache_result:
  assumes "rng_ok rnd" "insideCache st \<noteq> []" "length (insideCache st) < 2 ^ 31"
  shows "\<exists>best' k'. sample_cache st rnd k target best bestDist n = Inr (best', k') \<and>
     (best' = best \<or> (\<exists>c \<in> set (insideCache st). best' = Some (cellToWorld st (ix c) (iy c) (iz c))))"
proof (induction n arbitrary: k best bestDist)
  case 0
  then show ?case by simp
next
  case (Suc n)
  obtain c where c: "c \<in> set (insideCache st)"
    "cache_at (insideCache st) (to_int32 (Fin (rnd k) * Fin (real (length (insideCache st))))) = Inr c"
    using cache_at_random [OF assms] by blast
  let ?p = "cellToWorld st (ix c) (iy c) (iz c)"
  show ?case
  proof (cases "distanceToSquared ?p target < bestDist")
    case True
    from Suc.IH [of "k + 1" "Some ?p" "distanceToSquared ?p target"]
    obtain best' k' where "sample_cache st rnd (k + 1) target (Some ?p) (distanceToSquared ?p target) n = Inr (best', k')"
      "best' = Some ?p \<or> (\<exists>c \<in> set (insideCache st). best' = Some (cellToWorld st (ix c) (iy c) (iz c)))"
      by blast
    then show ?thesis using c True by (auto simp: Let_def)
  next
    case False
    from Suc.IH [of "k + 1" best bestDist]
    obtain best' k' where "sample_cache st rnd (k + 1) target best bestDist n = Inr (best', k')"
      "best' = best \<or> (\<exists>c \<in> set (insideCache st). best' = Some (cellToWorld st (ix c) (iy c) (iz c)))"
      by blast
    then show ?thesis using c False by (auto simp: Let_def)
  qed
qed

lemma try_random_inside:
  "try_random st rnd k target spread n = (Some p, k') \<Longrightarrow> isInside st p"
  by (induction n arbitrary: k) (auto simp: Let_def split: if_splits)

lemma findInsidePointNear_inside:
  assumes b: "proper_bounds (bounds st)" and ok: "cache_ok st" and r: "rng_ok rnd"
    and ne: "insideCache st \<noteq> []"
  shows "\<exists>p k'. findInsidePointNear st rnd k target maxTries = Inr (p, k') \<and> isInside st p"
proof -
  let ?spread = "length_vec (bsize (bounds st)) * Fin (1 / 4)"
  have len: "length (insideCache st) < 2 ^ 31" using ok by (simp add: cache_ok_def)
  obtain q k1 where t: "try_random st rnd k target ?spread maxTries = (q, k1)"
    by (cases "try_random st rnd k target ?spread maxTries")
  show ?thesis
  proof (cases q)
    case (Some p)
    with t have "isInside st p" by (auto dest: try_random_inside)
    then show ?thesis using t Some by (simp add: findInsidePointNear_def Let_def)
  next
    case None
    obtain best' k2 where s: "sample_cache st rnd k1 target None PInf (min 60 (length (insideCache st))) = Inr (best', k2)"
      and bb: "best' = None \<or> (\<exists>c \<in> set (insideCache st). best' = Some (cellToWorld st (ix c) (iy c) (iz c)))"
      using sample_cache_result [OF r ne len] by blast
    show ?thesis
    proof (cases best')
      case (Some p)
      with bb obtain c where "c \<in> set (insideCache st)" "p = cellToWorld st (ix c) (iy c) (iz c)"
        by auto
      then have "isInside st p" using cache_cell_inside [OF b ok] by simp
      then show ?thesis using t None s Some by (simp add: findInsidePointNear_def Let_def)
    next
      case None': None
      obtain c cs where cs: "insideCache st = c # cs" using ne by (cases "insideCache st") auto
      then have "cache_at (insideCache st) 0 = Inr c" by (simp add: cache_at_def)
      moreover have "isInside st (cellToWorld st (ix c) (iy c) (iz c))"
        using cache_cell_inside [OF b ok, of c] cs by simp
      ultimately show ?thesis using t None s None' by (simp add: findInsidePointNear_def Let_def)
    qed
  qed
qed

text \<open>What voxelization leaves in the cache.\<close>

lemma swap_cells_mset [simp]: "mset (swap_cells cs i j) = mset cs"
  by (simp add: swap_cells_def mset_swap)

lemma shuffle_from_mset: "mset (fst (shuffle_from rnd k cs n)) = mset cs"
  by (induction n arbitrary: k cs) (simp_all add: Let_def)

lemma shuffle_mset: "mset (fst (shuffle rnd k cs)) = mset cs"
  by (simp add: shuffle_def shuffle_from_mset)

lemma all_cells_range: "c \<in> set all_cells \<Longrightarrow> ix c < GRID_SIZE \<and> iy c < GRID_SIZE \<and> iz c < GRID_SIZE"
  by (auto simp: all_cells_def)

lemma length_all_cells: "length all_cells = GRID_SIZE * GRID_SIZE * GRID_SIZE"
proof -
  have "length (concat (map (\<lambda>x. f x) [0 ..< n])) = n * m" if "\<And>x. length (f x) = m"
    for f :: "nat \<Rightarrow> cell list" and n m
    using that by (induction n) (simp_all add: algebra_simps)
  note c = this
  have row: "length (concat (map (\<lambda>cy. map (\<lambda>cz. \<lparr>ix = cx, iy = cy, iz = cz\<rparr>) [0 ..< GRID_SIZE]) [0 ..< GRID_SIZE]))
      = GRID_SIZE * GRID_SIZE" for cx
    by (rule c) simp
  show ?thesis unfolding all_cells_def by (simp add: c [OF row])
qed

lemma with_marks_zero_one:
  assumes "with_marks (replicate n 0) M vs" "j < length vs" "vs ! j \<noteq> 0"
  shows "vs ! j = 1"
  using assms by (auto simp: with_marks_def split: if_splits)

lemma voxelize_cache_ok:
  assumes "voxelize rnd k geo st = Some (st', k')"
  shows "cache_ok st'"
proof -
  let ?z = "replicate (GRID_SIZE * GRID_SIZE * GRID_SIZE) (0 :: 8 word)"
  obtain st1 k1 where v: "voxelize rnd k geo st = Some (st1, k1)"
    and m: "with_marks ?z (grid_marks geo (bmin (bounds st)) (bsize (bounds st)) 0 GRID_SIZE) (voxels st1)"
    using voxelize_total by blast
  with assms have st1: "st1 = st'" by simp
  obtain vs where vs: "scan_rows geo (bmin (bounds st)) (bsize (bounds st)) 0 GRID_SIZE ?z = Some vs"
    using scan_rows_marks by blast
  let ?s0 = "st\<lparr>voxels := ?z, insideCache := []\<rparr>\<lparr>voxels := vs\<rparr>"
  have f: "finish_voxelize rnd k ?s0 = (st', k')"
    using assms vs by (simp add: voxelize_def begin_voxelize_def)
  have vv: "voxels st' = vs" using f by (auto simp: finish_voxelize_def case_prod_beta)
  have cc: "insideCache st' = fst (shuffle rnd k (inside_cells vs))"
    using f by (auto simp: finish_voxelize_def case_prod_beta)
  have ms: "mset (insideCache st') = mset (inside_cells vs)" by (simp add: cc shuffle_mset)
  then have set_eq: "set (insideCache st') = set (inside_cells vs)" by (rule mset_eq_setD)
  have "length (insideCache st') = length (inside_cells vs)" using ms by (rule mset_eq_length)
  also have "\<dots> \<le> length all_cells" by (simp add: inside_cells_def)
  also have "\<dots> < 2 ^ 31" by (simp add: length_all_cells GRID_SIZE_def)
  finally have len: "length (insideCache st') < 2 ^ 31" .
  have m': "with_marks ?z (grid_marks geo (bmin (bounds st)) (bsize (bounds st)) 0 GRID_SIZE) vs"
    using m st1 vv by simp
  have "\<forall>c \<in> set (insideCache st'). ix c < GRID_SIZE \<and> iy c < GRID_SIZE \<and> iz c < GRID_SIZE \<and>
          cell_index c < length (voxels st') \<and> voxels st' ! cell_index c = 1"
  proof
    fix c assume "c \<in> set (insideCache st')"
    then have c: "c \<in> set all_cells" "truthy_at vs (cell_index c)"
      by (simp_all add: set_eq inside_cells_def)
    then have "cell_index c < length vs" "vs ! cell_index c \<noteq> 0" by (simp_all add: truthy_at_def)
    with with_marks_zero_one [OF m'] all_cells_range [OF c(1)] vv
    show "ix c < GRID_SIZE \<and> iy c < GRID_SIZE \<and> iz c < GRID_SIZE \<and>
          cell_index c < length (voxels st') \<and> voxels st' ! cell_index c = 1" by simp
  qed
  with len show ?thesis by (simp add: cache_ok_def list_all_iff)
qed

section \<open>Mesh normalization\<close>

lemma translate_fin:
  "applyMatrix4 (makeTranslation (Fin tx) (Fin ty) (Fin tz)) (vfin p) = vfin (padd p (tx, ty, tz))"
  by (cases p) (simp add: applyMatrix4_def makeTranslation_def Let_def vfin_Vector3)

lemma scale_fin:
  "applyMatrix4 (makeScale (Fin s) (Fin s) (Fin s)) (vfin p) = vfin (pscale s p)"
  by (cases p) (simp add: applyMatrix4_def makeScale_def Let_def vfin_Vector3)

lemma vertices_fin: "vertices (fin_geo ts) = map vfin (rvertices ts)"
  by (induction ts) (auto simp: vertices_def fin_geo_def rvertices_def)

lemma rvertices_map: "rvertices (map_rtriangles g ts) = map g (rvertices ts)"
  by (induction ts) (auto simp: rvertices_def map_rtriangles_def)

lemma rvertices_empty [simp]: "rvertices ts = [] \<longleftrightarrow> ts = []"
  by (cases ts) (auto simp: rvertices_def)

lemma expand_fin:
  "expandByPoint (vfin (a, b, c)) \<lparr>bx_min = vfin (l1, l2, l3), bx_max = vfin (h1, h2, h3)\<rparr> =
   \<lparr>bx_min = vfin (min l1 a, min l2 b, min l3 c), bx_max = vfin (max h1 a, max h2 b, max h3 c)\<rparr>"
  by (simp add: expandByPoint_def vec_min_def vec_max_def Math_min_fin Math_max_fin vfin_Vector3
      del: Math_min.simps Math_max.simps)

lemma expand_empty:
  "expandByPoint (vfin (a, b, c)) makeEmpty = \<lparr>bx_min = vfin (a, b, c), bx_max = vfin (a, b, c)\<rparr>"
  by (simp add: expandByPoint_def makeEmpty_def vec_min_def vec_max_def vfin_Vector3)

lemma fold_expand_fin:
  "fold expandByPoint (map vfin ps) \<lparr>bx_min = vfin (l1, l2, l3), bx_max = vfin (h1, h2, h3)\<rparr> =
   \<lparr>bx_min = vfin (fold min (map px ps) l1, fold min (map py ps) l2, fold min (map pz ps) l3),
    bx_max = vfin (fold max (map px ps) h1, fold max (map py ps) h2, fold max (map pz ps) h3)\<rparr>"
proof (induction ps arbitrary: l1 l2 l3 h1 h2 h3)
  case Nil
  then show ?case by simp
next
  case (Cons p ps)
  obtain a b c where p: "p = (a, b, c)" by (cases p)
  show ?case by (simp add: p expand_fin Cons.IH min.commute max.commute)
qed

lemma lowest_fold: "lowest (x # xs) = fold min xs x"
  unfolding lowest_def by (rule Min.set_eq_fold)

lemma highest_fold: "highest (x # xs) = fold max xs x"
  unfolding highest_def by (rule Max.set_eq_fold)

lemma bbox_fin:
  assumes "ts \<noteq> []"
  shows "computeBoundingBox (fin_geo ts) =
     \<lparr>bx_min = vfin (lowest (map px (rvertices ts)), lowest (map py (rvertices ts)),
                     lowest (map pz (rvertices ts))),
      bx_max = vfin (highest (map px (rvertices ts)), highest (map py (rvertices ts)),
                     highest (map pz (rvertices ts)))\<rparr>"
proof -
  obtain p ps where ps: "rvertices ts = p # ps" using assms by (cases "rvertices ts") auto
  obtain a b c where p: "p = (a, b, c)" by (cases p)
  show ?thesis
    by (simp add: computeBoundingBox_def vertices_fin ps p expand_empty fold_expand_fin
        lowest_fold highest_fold)
qed

lemma lowest_le_highest: "xs \<noteq> [] \<Longrightarrow> lowest xs \<le> highest xs"
  by (simp add: lowest_def highest_def)

lemma padd_neg: "padd p (- a, - b, - c) = psub p (a, b, c)"
  by (cases p) simp

lemma map_rtriangles_comp: "map_rtriangles g (map_rtriangles f ts) = map_rtriangles (\<lambda>p. g (f p)) ts"
  by (induction ts) (auto simp: map_rtriangles_def)

lemma map_rtriangles_empty [simp]: "map_rtriangles f ts = [] \<longleftrightarrow> ts = []"
  by (simp add: map_rtriangles_def)

lemma isEmpty_fin:
  "l1 \<le> h1 \<Longrightarrow> l2 \<le> h2 \<Longrightarrow> l3 \<le> h3 \<Longrightarrow>
   \<not> isEmpty \<lparr>bx_min = vfin (l1, l2, l3), bx_max = vfin (h1, h2, h3)\<rparr>"
  by (simp add: isEmpty_def)

lemma length_fin_geo [simp]: "length (fin_geo ts) = length ts"
  by (simp add: fin_geo_def)

lemma length_map_rtriangles [simp]: "length (map_rtriangles f ts) = length ts"
  by (simp add: map_rtriangles_def)


lemma map_geometry_fin:
  assumes "\<And>p. p \<in> set (rvertices ts) \<Longrightarrow> f (vfin p) = vfin (g p)"
  shows "map_geometry f (fin_geo ts) = fin_geo (map_rtriangles g ts)"
  using assms
  by (induction ts) (auto simp: map_geometry_def fin_geo_def map_rtriangles_def rvertices_def)

lemma lowest_le: "x \<in> set xs \<Longrightarrow> lowest xs \<le> x"
  by (simp add: lowest_def)

lemma highest_ge: "x \<in> set xs \<Longrightarrow> x \<le> highest xs"
  by (simp add: highest_def)

lemma lowest_mono_map: "mono F \<Longrightarrow> xs \<noteq> [] \<Longrightarrow> lowest (map F xs) = F (lowest xs)"
  using mono_Min_commute [of F "set xs"] by (simp add: lowest_def)

lemma highest_mono_map: "mono F \<Longrightarrow> xs \<noteq> [] \<Longrightarrow> highest (map F xs) = F (highest xs)"
  using mono_Max_commute [of F "set xs"] by (simp add: highest_def)

lemma lowest_bound: "xs \<noteq> [] \<Longrightarrow> (\<And>x. x \<in> set xs \<Longrightarrow> a \<le> x) \<Longrightarrow> a \<le> lowest xs"
  by (simp add: lowest_def)

lemma highest_bound: "xs \<noteq> [] \<Longrightarrow> (\<And>x. x \<in> set xs \<Longrightarrow> x \<le> b) \<Longrightarrow> highest xs \<le> b"
  by (simp add: highest_def)

text \<open>Writing finite numbers in the range of the 32-bit floats.\<close>

lemma Math_fround_fin: "\<bar>x\<bar> \<le> max_float32 \<Longrightarrow> Math_fround (Fin x) = Fin (f32_round x)"
  using f32_round_range [of x] max_float32_less by simp

lemma setXYZ_fin:
  assumes "\<bar>px p\<bar> \<le> max_float32" "\<bar>py p\<bar> \<le> max_float32" "\<bar>pz p\<bar> \<le> max_float32"
  shows "setXYZ (vfin p) = vfin (pround p)"
  using assms by (cases p) (simp add: setXYZ_def Math_fround_fin vfin_Vector3 del: Math_fround.simps)

lemma mono_f32_round: "mono f32_round"
  by (simp add: mono_def f32_round_mono)

lemma mono_shift_round: "mono (\<lambda>x. f32_round (x - c))"
  by (simp add: mono_def f32_round_mono)

lemma mono_scale_round: "0 \<le> s \<Longrightarrow> mono (\<lambda>x. f32_round (s * x))"
  by (simp add: mono_def f32_round_mono mult_left_mono)

lemma f32_round_abs_le: "\<bar>x\<bar> \<le> b \<Longrightarrow> \<bar>f32_round x\<bar> \<le> f32_round b"
proof -
  assume "\<bar>x\<bar> \<le> b"
  then have "f32_round x \<le> f32_round b" "f32_round (- b) \<le> f32_round x"
    by (auto intro: f32_round_mono)
  then show ?thesis by (simp add: f32_round_minus)
qed

text \<open>One axis: the coordinates \<open>xs\<close>, their centre and the half of their extent.\<close>

lemma axis_centre:
  assumes ne: "xs \<noteq> []" and rng: "\<And>x. x \<in> set xs \<Longrightarrow> \<bar>x\<bar> \<le> max_float32"
  defines "c \<equiv> (lowest xs + highest xs) / 2" and "R \<equiv> (highest xs - lowest xs) / 2"
  shows "0 \<le> R" and "R \<le> max_float32"
    and "\<And>x. x \<in> set xs \<Longrightarrow> \<bar>x - c\<bar> \<le> R"
    and "lowest xs - c = - R" and "highest xs - c = R"
proof -
  have le: "lowest xs \<le> highest xs" using ne by (rule lowest_le_highest)
  then show "0 \<le> R" by (simp add: R_def)
  have "- max_float32 \<le> lowest xs"
  proof (rule lowest_bound [OF ne])
    fix x assume "x \<in> set xs"
    from rng [OF this] show "- max_float32 \<le> x" by linarith
  qed
  moreover have "highest xs \<le> max_float32"
  proof (rule highest_bound [OF ne])
    fix x assume "x \<in> set xs"
    from rng [OF this] show "x \<le> max_float32" by linarith
  qed
  ultimately show "R \<le> max_float32" by (simp add: R_def)
  show "lowest xs - c = - R" "highest xs - c = R"
    by (simp_all add: c_def R_def field_simps)
  fix x assume "x \<in> set xs"
  then have "lowest xs \<le> x" "x \<le> highest xs" by (simp_all add: lowest_le highest_ge)
  then show "\<bar>x - c\<bar> \<le> R" by (simp add: c_def R_def abs_le_iff field_simps)
qed

lemma axis_translated:
  assumes ne: "xs \<noteq> []"
  defines "c \<equiv> (lowest xs + highest xs) / 2" and "R \<equiv> (highest xs - lowest xs) / 2"
  shows "lowest (map (\<lambda>x. f32_round (x - c)) xs) = - f32_round R"
    and "highest (map (\<lambda>x. f32_round (x - c)) xs) = f32_round R"
proof -
  have e: "lowest xs - c = - R" "highest xs - c = R"
    by (simp_all add: c_def R_def field_simps)
  show "lowest (map (\<lambda>x. f32_round (x - c)) xs) = - f32_round R"
    using lowest_mono_map [OF mono_shift_round ne, of c] by (simp add: e f32_round_minus)
  show "highest (map (\<lambda>x. f32_round (x - c)) xs) = f32_round R"
    using highest_mono_map [OF mono_shift_round ne, of c] by (simp add: e)
qed

lemma axis_scaled:
  assumes ne: "xs \<noteq> []" and s: "0 \<le> s"
  defines "c \<equiv> (lowest xs + highest xs) / 2" and "R \<equiv> (highest xs - lowest xs) / 2"
  shows "lowest (map (\<lambda>x. f32_round (s * f32_round (x - c))) xs) = - f32_round (s * f32_round R)"
    and "highest (map (\<lambda>x. f32_round (s * f32_round (x - c))) xs) = f32_round (s * f32_round R)"
proof -
  have e: "lowest xs - c = - R" "highest xs - c = R"
    by (simp_all add: c_def R_def field_simps)
  have m: "mono (\<lambda>x. f32_round (s * f32_round (x - c)))"
    using s by (simp add: mono_def f32_round_mono mult_left_mono)
  show "lowest (map (\<lambda>x. f32_round (s * f32_round (x - c))) xs) = - f32_round (s * f32_round R)"
    using lowest_mono_map [OF m ne] by (simp add: e f32_round_minus)
  show "highest (map (\<lambda>x. f32_round (s * f32_round (x - c))) xs) = f32_round (s * f32_round R)"
    using highest_mono_map [OF m ne] by (simp add: e)
qed

lemma axis_scaled_bound:
  assumes "x \<in> set xs" and s: "0 \<le> s"
  defines "c \<equiv> (lowest xs + highest xs) / 2" and "R \<equiv> (highest xs - lowest xs) / 2"
  shows "\<bar>f32_round (x - c)\<bar> \<le> f32_round R"
    and "\<bar>f32_round (s * f32_round (x - c))\<bar> \<le> f32_round (s * f32_round R)"
proof -
  have "lowest xs \<le> x" "x \<le> highest xs" using assms(1) by (simp_all add: lowest_le highest_ge)
  then have "\<bar>x - c\<bar> \<le> R" by (simp add: c_def R_def abs_le_iff field_simps)
  then show a: "\<bar>f32_round (x - c)\<bar> \<le> f32_round R" by (rule f32_round_abs_le)
  have "\<bar>s * f32_round (x - c)\<bar> \<le> s * f32_round R"
    using a s by (simp add: abs_mult mult_left_mono)
  then show "\<bar>f32_round (s * f32_round (x - c))\<bar> \<le> f32_round (s * f32_round R)"
    by (rule f32_round_abs_le)
qed

lemma half_extent_max:
  "half_extent ts =
     max (max (f32_round ((highest (map px (rvertices ts)) - lowest (map px (rvertices ts))) / 2))
              (f32_round ((highest (map py (rvertices ts)) - lowest (map py (rvertices ts))) / 2)))
         (f32_round ((highest (map pz (rvertices ts)) - lowest (map pz (rvertices ts))) / 2))"
proof -
  have d: "max a b / 2 = max (a / 2) (b / 2)" for a b :: real by (simp add: max_def)
  have m: "f32_round (max a b) = max (f32_round a) (f32_round b)" for a b
    by (rule max_of_mono [OF mono_f32_round, symmetric])
  show ?thesis
    unfolding half_extent_def mesh_extent_def Let_def d m ..
qed

lemma pround_sel [simp]:
  "px (pround p) = f32_round (px p)" "py (pround p) = f32_round (py p)" "pz (pround p) = f32_round (pz p)"
  by (cases p; simp)+

lemma psub_sel [simp]:
  "px (psub p c) = px p - px c" "py (psub p c) = py p - py c" "pz (psub p c) = pz p - pz c"
  by (cases p; cases c; simp)+

lemma pscale_sel [simp]:
  "px (pscale s p) = s * px p" "py (pscale s p) = s * py p" "pz (pscale s p) = s * pz p"
  by (cases p; simp)+

lemma float32_rangeD:
  assumes "float32_range ts" "p \<in> set (rvertices ts)"
  shows "\<bar>px p\<bar> \<le> max_float32" "\<bar>py p\<bar> \<le> max_float32" "\<bar>pz p\<bar> \<le> max_float32"
  using assms by (auto simp: float32_range_def list_all_iff)

lemma five_le_max: "5 \<le> max_float32"
  by (simp add: max_float32_def)

text \<open>
  The normalization of a mesh with coordinates in the range of the floats whose largest
  extent does not vanish when it is stored: the mesh and its bounds.
\<close>

lemma normalize_mesh_fin:
  fixes ts :: "rtriangle list"
  defines "s \<equiv> 10 / (2 * half_extent ts)"
  defines "ax \<equiv> f32_round (s * f32_round ((highest (map px (rvertices ts)) - lowest (map px (rvertices ts))) / 2))"
  defines "ay \<equiv> f32_round (s * f32_round ((highest (map py (rvertices ts)) - lowest (map py (rvertices ts))) / 2))"
  defines "az \<equiv> f32_round (s * f32_round ((highest (map pz (rvertices ts)) - lowest (map pz (rvertices ts))) / 2))"
  assumes ne: "ts \<noteq> []" and rng: "float32_range ts" and pos: "0 < half_extent ts"
  shows "normalize_mesh (fin_geo ts) =
    (fin_geo (map_rtriangles (normal_map ts) ts),
     \<lparr>bmin = vfin (- ax, - ay, - az), bmax = vfin (ax, ay, az), bsize = vfin (2 * ax, 2 * ay, 2 * az)\<rparr>)"
    and "0 \<le> ax \<and> 0 \<le> ay \<and> 0 \<le> az"
    and "max (max ax ay) az = 5"
    and "\<And>q. q \<in> set (rvertices (map_rtriangles (normal_map ts) ts)) \<Longrightarrow>
           \<bar>px q\<bar> \<le> ax \<and> \<bar>py q\<bar> \<le> ay \<and> \<bar>pz q\<bar> \<le> az"
proof -
  let ?ps = "rvertices ts"
  let ?X = "map px ?ps" and ?Y = "map py ?ps" and ?Z = "map pz ?ps"
  define cx cy cz where "cx = (lowest ?X + highest ?X) / 2" and "cy = (lowest ?Y + highest ?Y) / 2"
    and "cz = (lowest ?Z + highest ?Z) / 2"
  define Rx Ry Rz where "Rx = (highest ?X - lowest ?X) / 2" and "Ry = (highest ?Y - lowest ?Y) / 2"
    and "Rz = (highest ?Z - lowest ?Z) / 2"
  define Hx Hy Hz where "Hx = f32_round Rx" and "Hy = f32_round Ry" and "Hz = f32_round Rz"
  define H where "H = half_extent ts"
  note cd = cx_def cy_def cz_def and Rd = Rx_def Ry_def Rz_def and Hd = Hx_def Hy_def Hz_def
  have a: "ax = f32_round (s * Hx)" "ay = f32_round (s * Hy)" "az = f32_round (s * Hz)"
    by (simp_all add: ax_def ay_def az_def Hd Rd)
  have psne: "?ps \<noteq> []" using ne by simp
  have ne3: "?X \<noteq> []" "?Y \<noteq> []" "?Z \<noteq> []" using psne by simp_all
  have inX: "\<bar>x\<bar> \<le> max_float32" if "x \<in> set ?X" for x using that float32_rangeD(1) [OF rng] by auto
  have inY: "\<bar>x\<bar> \<le> max_float32" if "x \<in> set ?Y" for x using that float32_rangeD(2) [OF rng] by auto
  have inZ: "\<bar>x\<bar> \<le> max_float32" if "x \<in> set ?Z" for x using that float32_rangeD(3) [OF rng] by auto
  note fx = axis_centre [OF ne3(1) inX, folded cd Rd]
  note fy = axis_centre [OF ne3(2) inY, folded cd Rd]
  note fz = axis_centre [OF ne3(3) inZ, folded cd Rd]
  have Hn: "0 \<le> Hx" "0 \<le> Hy" "0 \<le> Hz"
    using fx(1) fy(1) fz(1) by (simp_all add: Hd f32_round_nonneg)
  have Hm: "H = max (max Hx Hy) Hz"
    unfolding H_def half_extent_max Hd Rd ..
  have Hpos: "0 < H" using pos by (simp add: H_def)
  have sH: "s = 10 / (2 * H)" by (simp add: s_def H_def)
  have spos: "0 < s" "0 \<le> s" using Hpos by (simp_all add: sH)
  have s5: "s * H = 5" using Hpos by (simp add: sH)
  have c: "mesh_centre ts = (cx, cy, cz)" by (simp add: mesh_centre_def Let_def cd)
  \<comment> \<open>the first bounding box and the centre\<close>
  have le: "lowest ?X \<le> highest ?X" "lowest ?Y \<le> highest ?Y" "lowest ?Z \<le> highest ?Z"
    using ne3 by (simp_all add: lowest_le_highest)
  have bb0: "computeBoundingBox (fin_geo ts) =
      \<lparr>bx_min = vfin (lowest ?X, lowest ?Y, lowest ?Z), bx_max = vfin (highest ?X, highest ?Y, highest ?Z)\<rparr>"
    by (rule bbox_fin [OF ne])
  have cent: "getCenter (computeBoundingBox (fin_geo ts)) = vfin (cx, cy, cz)"
    using isEmpty_fin [OF le] by (simp add: bb0 getCenter_def cd)
  \<comment> \<open>the translated mesh\<close>
  define g1 where "g1 = (\<lambda>p. pround (psub p (cx, cy, cz)))"
  let ?ts1 = "map_rtriangles g1 ts"
  have t1: "setXYZ (applyMatrix4 (makeTranslation (- Fin cx) (- Fin cy) (- Fin cz)) (vfin p)) = vfin (g1 p)"
    if p: "p \<in> set ?ps" for p
  proof -
    have "\<bar>px p - cx\<bar> \<le> Rx" "\<bar>py p - cy\<bar> \<le> Ry" "\<bar>pz p - cz\<bar> \<le> Rz"
      using p fx(3) [of "px p"] fy(3) [of "py p"] fz(3) [of "pz p"] by simp_all
    with fx(2) fy(2) fz(2) have "\<bar>px (psub p (cx, cy, cz))\<bar> \<le> max_float32"
      "\<bar>py (psub p (cx, cy, cz))\<bar> \<le> max_float32" "\<bar>pz (psub p (cx, cy, cz))\<bar> \<le> max_float32"
      by simp_all
    from setXYZ_fin [OF this] show ?thesis
      by (simp add: translate_fin padd_neg g1_def)
  qed
  have geo1: "translate (fin_geo ts) (- Fin cx) (- Fin cy) (- Fin cz) = fin_geo ?ts1"
    unfolding translate_def by (rule map_geometry_fin) (rule t1)
  have ne1: "?ts1 \<noteq> []" using ne by simp
  have X1: "map px (rvertices ?ts1) = map (\<lambda>x. f32_round (x - cx)) ?X"
    "map py (rvertices ?ts1) = map (\<lambda>x. f32_round (x - cy)) ?Y"
    "map pz (rvertices ?ts1) = map (\<lambda>x. f32_round (x - cz)) ?Z"
    by (simp_all add: rvertices_map g1_def comp_def)
  have bb1: "computeBoundingBox (fin_geo ?ts1) =
      \<lparr>bx_min = vfin (- Hx, - Hy, - Hz), bx_max = vfin (Hx, Hy, Hz)\<rparr>"
    unfolding bbox_fin [OF ne1] X1 cd Hd Rd
    by (simp only: axis_translated [OF ne3(1)] axis_translated [OF ne3(2)] axis_translated [OF ne3(3)])
  have size1: "getSize (computeBoundingBox (fin_geo ?ts1)) = vfin (2 * Hx, 2 * Hy, 2 * Hz)"
    using isEmpty_fin [of "- Hx" Hx "- Hy" Hy "- Hz" Hz] Hn
    by (simp add: bb1 getSize_def)
  have maxDim: "Math_max (Math_max (Fin (2 * Hx)) (Fin (2 * Hy))) (Fin (2 * Hz)) = Fin (2 * H)"
    by (simp add: Math_max_fin Hm del: Math_max.simps)
  have sv: "Fin 10 div Fin (2 * H) = Fin s" using Hpos by (simp add: sH)
  \<comment> \<open>the scaled mesh\<close>
  define g2 where "g2 = (\<lambda>q. pround (pscale s q))"
  have HxH: "Hx \<le> H" "Hy \<le> H" "Hz \<le> H" by (simp_all add: Hm)
  have t2: "setXYZ (applyMatrix4 (makeScale (Fin s) (Fin s) (Fin s)) (vfin q)) = vfin (g2 q)"
    if q: "q \<in> set (rvertices ?ts1)" for q
  proof -
    from q obtain p where p: "p \<in> set ?ps" and qp: "q = g1 p" by (auto simp: rvertices_map)
    have b: "\<bar>px q\<bar> \<le> Hx" "\<bar>py q\<bar> \<le> Hy" "\<bar>pz q\<bar> \<le> Hz"
      using p axis_scaled_bound(1) [of "px p" ?X s] axis_scaled_bound(1) [of "py p" ?Y s]
        axis_scaled_bound(1) [of "pz p" ?Z s] spos(2)
      by (simp_all add: qp g1_def cd Hd Rd)
    have "\<bar>s * x\<bar> \<le> max_float32" if "\<bar>x\<bar> \<le> H" for x
    proof -
      have "\<bar>s * x\<bar> = s * \<bar>x\<bar>" using spos(2) by (simp add: abs_mult)
      also have "\<dots> \<le> s * H" using that spos(2) by (rule mult_left_mono)
      finally show ?thesis using s5 five_le_max by linarith
    qed
    then have "\<bar>px (pscale s q)\<bar> \<le> max_float32" "\<bar>py (pscale s q)\<bar> \<le> max_float32"
      "\<bar>pz (pscale s q)\<bar> \<le> max_float32"
      using b HxH by simp_all
    from setXYZ_fin [OF this] show ?thesis by (simp add: scale_fin g2_def)
  qed
  have geo2: "scale (fin_geo ?ts1) (Fin s) (Fin s) (Fin s) = fin_geo (map_rtriangles g2 ?ts1)"
    unfolding scale_def by (rule map_geometry_fin) (rule t2)
  have nm: "(\<lambda>p. g2 (g1 p)) = normal_map ts"
    by (rule ext) (simp add: normal_map_def c s_def g1_def g2_def)
  have ts2: "map_rtriangles g2 ?ts1 = map_rtriangles (normal_map ts) ts"
    by (simp only: map_rtriangles_comp nm)
  let ?ts2 = "map_rtriangles (normal_map ts) ts"
  have ne2: "?ts2 \<noteq> []" using ne by simp
  have X2: "map px (rvertices ?ts2) = map (\<lambda>x. f32_round (s * f32_round (x - cx))) ?X"
    "map py (rvertices ?ts2) = map (\<lambda>x. f32_round (s * f32_round (x - cy))) ?Y"
    "map pz (rvertices ?ts2) = map (\<lambda>x. f32_round (s * f32_round (x - cz))) ?Z"
    by (simp_all add: rvertices_map nm [symmetric] g1_def g2_def comp_def)
  have bb2: "computeBoundingBox (fin_geo ?ts2) =
      \<lparr>bx_min = vfin (- ax, - ay, - az), bx_max = vfin (ax, ay, az)\<rparr>"
    unfolding bbox_fin [OF ne2] X2 cd ax_def ay_def az_def
    by (simp only: axis_scaled [OF ne3(1) spos(2)] axis_scaled [OF ne3(2) spos(2)]
        axis_scaled [OF ne3(3) spos(2)])
  show an: "0 \<le> ax \<and> 0 \<le> ay \<and> 0 \<le> az"
    using Hn spos(2) by (simp add: a f32_round_nonneg)
  have size2: "getSize (computeBoundingBox (fin_geo ?ts2)) = vfin (2 * ax, 2 * ay, 2 * az)"
    using isEmpty_fin [of "- ax" ax "- ay" ay "- az" az] an
    by (simp add: bb2 getSize_def)
  show "normalize_mesh (fin_geo ts) =
    (fin_geo ?ts2, \<lparr>bmin = vfin (- ax, - ay, - az), bmax = vfin (ax, ay, az), bsize = vfin (2 * ax, 2 * ay, 2 * az)\<rparr>)"
    unfolding normalize_mesh_def Let_def cent vfin_sel geo1 size1 maxDim sv geo2 ts2 bb2
      size2 [unfolded bb2]
    by simp
  have m: "f32_round (s * max a b) = max (f32_round (s * a)) (f32_round (s * b))" for a b
    by (rule max_of_mono [OF mono_scale_round [OF spos(2)], symmetric])
  have "max (max ax ay) az = f32_round (s * H)"
    unfolding a Hm m ..
  then show "max (max ax ay) az = 5" by (simp add: s5 f32_round_five)
  fix q assume "q \<in> set (rvertices ?ts2)"
  then obtain p where p: "p \<in> set ?ps" and qp: "q = normal_map ts p" by (auto simp: rvertices_map)
  show "\<bar>px q\<bar> \<le> ax \<and> \<bar>py q\<bar> \<le> ay \<and> \<bar>pz q\<bar> \<le> az"
    using p axis_scaled_bound(2) [of "px p" ?X s] axis_scaled_bound(2) [of "py p" ?Y s]
      axis_scaled_bound(2) [of "pz p" ?Z s] spos(2)
    by (simp add: qp nm [symmetric] g1_def g2_def cd ax_def ay_def az_def)
qed

lemma half_extent_pos:
  assumes "1 / 2 ^ 149 < mesh_extent ts"
  shows "0 < half_extent ts"
proof -
  have "power_int (2 :: real) (- 150) = 1 / 2 ^ 150" by (simp add: power_int_minus_divide)
  also have "\<dots> = (1 / 2 ^ 149) / 2" by simp
  also have "\<dots> < mesh_extent ts / 2" using assms by (simp only: divide_strict_right_mono zero_less_numeral)
  finally show ?thesis unfolding half_extent_def by (rule f32_round_pos)
qed


text \<open>A mesh whose stored half-extent is zero has no bounds after normalization.\<close>

lemma scale_inf_x: "vx (setXYZ (applyMatrix4 (makeScale PInf PInf PInf) (vfin (0, b, c)))) = NaN"
  by (simp add: setXYZ_def applyMatrix4_def makeScale_def Let_def times_jsnum_def plus_jsnum_def)

lemma fold_expand_NaN:
  assumes "\<And>v. v \<in> set vs \<Longrightarrow> vx v = NaN" and "vs \<noteq> [] \<or> vx (bx_min b) = NaN"
  shows "vx (bx_min (fold expandByPoint vs b)) = NaN"
  using assms
proof (induction vs arbitrary: b)
  case Nil
  then show ?case by simp
next
  case (Cons v vs)
  have "vx v = NaN" using Cons.prems(1) by simp
  then have "vx (bx_min (expandByPoint v b)) = NaN"
    by (cases "vx (bx_min b)") (simp_all add: expandByPoint_def vec_min_def)
  then show ?case using Cons.IH [of "expandByPoint v b"] Cons.prems(1) by simp
qed

lemma vertices_map_geometry: "vertices (map_geometry f geo) = map f (vertices geo)"
  by (induction geo) (auto simp: vertices_def map_geometry_def)

lemma vertices_empty [simp]: "vertices geo = [] \<longleftrightarrow> geo = []"
  by (cases geo) (auto simp: vertices_def)

lemma normalize_mesh_point:
  assumes ne: "ts \<noteq> []" and rng: "float32_range ts" and z: "\<not> 0 < half_extent ts"
  shows "vx (bmin (snd (normalize_mesh (fin_geo ts)))) = NaN"
proof -
  let ?ps = "rvertices ts"
  let ?X = "map px ?ps" and ?Y = "map py ?ps" and ?Z = "map pz ?ps"
  define cx cy cz where "cx = (lowest ?X + highest ?X) / 2" and "cy = (lowest ?Y + highest ?Y) / 2"
    and "cz = (lowest ?Z + highest ?Z) / 2"
  define Rx Ry Rz where "Rx = (highest ?X - lowest ?X) / 2" and "Ry = (highest ?Y - lowest ?Y) / 2"
    and "Rz = (highest ?Z - lowest ?Z) / 2"
  define Hx Hy Hz where "Hx = f32_round Rx" and "Hy = f32_round Ry" and "Hz = f32_round Rz"
  note cd = cx_def cy_def cz_def and Rd = Rx_def Ry_def Rz_def and Hd = Hx_def Hy_def Hz_def
  have psne: "?ps \<noteq> []" using ne by simp
  have ne3: "?X \<noteq> []" "?Y \<noteq> []" "?Z \<noteq> []" using psne by simp_all
  have inX: "\<bar>x\<bar> \<le> max_float32" if "x \<in> set ?X" for x using that float32_rangeD(1) [OF rng] by auto
  have inY: "\<bar>x\<bar> \<le> max_float32" if "x \<in> set ?Y" for x using that float32_rangeD(2) [OF rng] by auto
  have inZ: "\<bar>x\<bar> \<le> max_float32" if "x \<in> set ?Z" for x using that float32_rangeD(3) [OF rng] by auto
  note fx = axis_centre [OF ne3(1) inX, folded cd Rd]
  note fy = axis_centre [OF ne3(2) inY, folded cd Rd]
  note fz = axis_centre [OF ne3(3) inZ, folded cd Rd]
  have Hn: "0 \<le> Hx" "0 \<le> Hy" "0 \<le> Hz"
    using fx(1) fy(1) fz(1) by (simp_all add: Hd f32_round_nonneg)
  have Hm: "half_extent ts = max (max Hx Hy) Hz"
    unfolding half_extent_max Hd Rd ..
  with z Hn have H0: "Hx = 0" "Hy = 0" "Hz = 0" by simp_all
  have le: "lowest ?X \<le> highest ?X" "lowest ?Y \<le> highest ?Y" "lowest ?Z \<le> highest ?Z"
    using ne3 by (simp_all add: lowest_le_highest)
  have bb0: "computeBoundingBox (fin_geo ts) =
      \<lparr>bx_min = vfin (lowest ?X, lowest ?Y, lowest ?Z), bx_max = vfin (highest ?X, highest ?Y, highest ?Z)\<rparr>"
    by (rule bbox_fin [OF ne])
  have cent: "getCenter (computeBoundingBox (fin_geo ts)) = vfin (cx, cy, cz)"
    using isEmpty_fin [OF le] by (simp add: bb0 getCenter_def cd)
  define g1 where "g1 = (\<lambda>p. pround (psub p (cx, cy, cz)))"
  let ?ts1 = "map_rtriangles g1 ts"
  have t1: "setXYZ (applyMatrix4 (makeTranslation (- Fin cx) (- Fin cy) (- Fin cz)) (vfin p)) = vfin (g1 p)"
    if p: "p \<in> set ?ps" for p
  proof -
    have "\<bar>px p - cx\<bar> \<le> Rx" "\<bar>py p - cy\<bar> \<le> Ry" "\<bar>pz p - cz\<bar> \<le> Rz"
      using p fx(3) [of "px p"] fy(3) [of "py p"] fz(3) [of "pz p"] by simp_all
    with fx(2) fy(2) fz(2) have "\<bar>px (psub p (cx, cy, cz))\<bar> \<le> max_float32"
      "\<bar>py (psub p (cx, cy, cz))\<bar> \<le> max_float32" "\<bar>pz (psub p (cx, cy, cz))\<bar> \<le> max_float32"
      by simp_all
    from setXYZ_fin [OF this] show ?thesis
      by (simp add: translate_fin padd_neg g1_def)
  qed
  have geo1: "translate (fin_geo ts) (- Fin cx) (- Fin cy) (- Fin cz) = fin_geo ?ts1"
    unfolding translate_def by (rule map_geometry_fin) (rule t1)
  have ne1: "?ts1 \<noteq> []" using ne by simp
  have X1: "map px (rvertices ?ts1) = map (\<lambda>x. f32_round (x - cx)) ?X"
    "map py (rvertices ?ts1) = map (\<lambda>x. f32_round (x - cy)) ?Y"
    "map pz (rvertices ?ts1) = map (\<lambda>x. f32_round (x - cz)) ?Z"
    by (simp_all add: rvertices_map g1_def comp_def)
  have bb1: "computeBoundingBox (fin_geo ?ts1) =
      \<lparr>bx_min = vfin (- Hx, - Hy, - Hz), bx_max = vfin (Hx, Hy, Hz)\<rparr>"
    unfolding bbox_fin [OF ne1] X1 cd Hd Rd
    by (simp only: axis_translated [OF ne3(1)] axis_translated [OF ne3(2)] axis_translated [OF ne3(3)])
  have size1: "getSize (computeBoundingBox (fin_geo ?ts1)) = vfin (0, 0, 0)"
    by (simp add: bb1 H0 getSize_def isEmpty_def)
  have sv: "Fin 10 div Math_max (Math_max (Fin 0) (Fin 0)) (Fin 0) = PInf"
    by (simp add: divide_jsnum_def)
  let ?geo2 = "scale (fin_geo ?ts1) PInf PInf PInf"
  have r: "normalize_mesh (fin_geo ts) =
      (?geo2, \<lparr>bmin = bx_min (computeBoundingBox ?geo2), bmax = bx_max (computeBoundingBox ?geo2),
               bsize = getSize (computeBoundingBox ?geo2)\<rparr>)"
    unfolding normalize_mesh_def Let_def cent vfin_sel geo1 size1 sv
    by simp
  have x0: "px q = 0" if "q \<in> set (rvertices ?ts1)" for q
  proof -
    from that obtain p where p: "p \<in> set ?ps" and q: "q = g1 p"
      by (auto simp: rvertices_map)
    have "\<bar>f32_round (px p - cx)\<bar> \<le> Hx"
      using p axis_scaled_bound(1) [of "px p" ?X 0] by (simp add: cd Hd Rd)
    then show ?thesis by (simp add: q g1_def H0)
  qed
  have "vx v = NaN" if "v \<in> set (vertices ?geo2)" for v
  proof -
    from that obtain q where q: "q \<in> set (rvertices ?ts1)"
      and v: "v = setXYZ (applyMatrix4 (makeScale PInf PInf PInf) (vfin q))"
      by (auto simp: scale_def vertices_map_geometry vertices_fin)
    obtain a b c where qq: "q = (a, b, c)" by (cases q)
    from x0 [OF q] have "a = 0" by (simp add: qq)
    then show ?thesis by (simp add: v qq scale_inf_x)
  qed
  moreover have "vertices ?geo2 \<noteq> []"
    using ne by (simp add: scale_def vertices_map_geometry vertices_fin)
  ultimately have "vx (bx_min (computeBoundingBox ?geo2)) = NaN"
    unfolding computeBoundingBox_def by (intro fold_expand_NaN) simp_all
  then show ?thesis by (simp add: r)
qed

lemma normalize_mesh_empty: "fst (normalize_mesh []) = []"
  by (simp add: normalize_mesh_def Let_def scale_def translate_def map_geometry_def)




lemma one_triangle_extent: "mesh_extent one_triangle = 4"
  by (simp add: mesh_extent_def one_triangle_def rvertices_def lowest_def highest_def Let_def)

lemma one_triangle_range: "float32_range one_triangle"
  by (simp add: float32_range_def one_triangle_def rvertices_def max_float32_def)


text \<open>Two meshes whose coordinates normalization leaves as they are, or flat.\<close>

lemma f32_round_small_ints [simp]: "f32_round 5 = 5" "f32_round (- 5) = - 5" "f32_round 2 = 2"
  using f32_round_int [of 5] f32_round_int [of "- 5"] f32_round_int [of 2] by simp_all

lemma map_rtriangles_id:
  assumes "\<And>p. p \<in> set (rvertices ts) \<Longrightarrow> f p = p"
  shows "map_rtriangles f ts = ts"
  using assms by (induction ts) (auto simp: map_rtriangles_def rvertices_def)

lemma two_planes_normalized:
  "normalize_mesh (fin_geo two_planes) = (fin_geo two_planes, cube_bounds)"
proof -
  have ne: "two_planes \<noteq> []" by (simp add: two_planes_def)
  have rng: "float32_range two_planes"
    by (simp add: float32_range_def two_planes_def rvertices_def max_float32_def)
  have rv: "rvertices two_planes =
    [(- 5, - 5, - 5), (- 5, 5, - 5), (- 5, - 5, 5), (5, - 5, - 5), (5, 5, - 5), (5, - 5, 5)]"
    by (simp add: two_planes_def rvertices_def)
  have lh: "lowest (map px (rvertices two_planes)) = - 5" "highest (map px (rvertices two_planes)) = 5"
    "lowest (map py (rvertices two_planes)) = - 5" "highest (map py (rvertices two_planes)) = 5"
    "lowest (map pz (rvertices two_planes)) = - 5" "highest (map pz (rvertices two_planes)) = 5"
    by (simp_all add: rv lowest_def highest_def)
  have ex: "mesh_extent two_planes = 10" by (simp add: mesh_extent_def Let_def lh)
  have he: "half_extent two_planes = 5" by (simp add: half_extent_def ex)
  have ce: "mesh_centre two_planes = (0, 0, 0)" by (simp add: mesh_centre_def Let_def lh)
  have nm: "normal_map two_planes (a, b, c) = (a, b, c)"
    if "a = 5 \<or> a = - 5" "b = 5 \<or> b = - 5" "c = 5 \<or> c = - 5" for a b c
    using that by (auto simp: normal_map_def he ce)
  have m: "map_rtriangles (normal_map two_planes) two_planes = two_planes"
  proof (rule map_rtriangles_id)
    fix p assume "p \<in> set (rvertices two_planes)"
    then show "normal_map two_planes p = p" unfolding rv by (auto simp: nm)
  qed
  have pos: "0 < half_extent two_planes" by (simp add: he)
  show ?thesis
    using normalize_mesh_fin(1) [OF ne rng pos]
    by (simp add: m he lh cube_bounds_def)
qed

lemma one_triangle_flat_bounds:
  "\<not> proper_bounds (snd (normalize_mesh (fin_geo one_triangle)))"
proof -
  have ne: "one_triangle \<noteq> []" by (simp add: one_triangle_def)
  have pos: "0 < half_extent one_triangle"
    by (rule half_extent_pos) (simp add: one_triangle_extent)
  have z: "lowest (map pz (rvertices one_triangle)) = 0" "highest (map pz (rvertices one_triangle)) = 0"
    by (simp_all add: one_triangle_def rvertices_def lowest_def highest_def)
  have "vz (bsize (snd (normalize_mesh (fin_geo one_triangle)))) = Fin 0"
    by (simp add: normalize_mesh_fin(1) [OF ne one_triangle_range pos] z)
  then show ?thesis by (simp add: proper_bounds_def less_jsnum_def)
qed

section \<open>The state that loading leaves, and the sampler on it\<close>

text \<open>What the sort and the deduplication keep, and scanlines that mark nothing.\<close>

lemma pairs_of_set: "(a, b) \<in> set (pairs_of ds) \<Longrightarrow> a \<in> set ds \<and> b \<in> set ds"
  by (induction ds rule: pairs_of.induct) auto

lemma insert_hit_set: "set (insert_hit a bs) = insert a (set bs)"
  by (induction bs) auto

lemma fold_insert_hit_set: "set (fold insert_hit hs acc) = set hs \<union> set acc"
  by (induction hs arbitrary: acc) (auto simp: insert_hit_set)

lemma sort_hits_set: "set (sort_hits hs) = set hs"
  by (simp add: sort_hits_def fold_insert_hit_set)

lemma dedupe_from_set: "set (dedupe_from k hs) \<subseteq> set hs"
  by (induction hs arbitrary: k) auto

lemma dedupe_set: "set (dedupe hs) \<subseteq> set hs"
  using dedupe_from_set by (cases hs) auto

lemma line_marks_empty:
  assumes "\<And>a b. a \<in> set (scan_hits geo mn sz cy cz) \<Longrightarrow> b \<in> set (scan_hits geo mn sz cy cz) \<Longrightarrow>
    span_cells mn sz a b = {}"
  shows "line_marks geo mn sz cy cz = {}"
proof -
  have "span_cells mn sz (fst p) (snd p) = {}"
    if "p \<in> set (pairs_of (dedupe (sort_hits (scan_hits geo mn sz cy cz))))" for p
  proof -
    obtain a b where p: "p = (a, b)" by (cases p)
    from that pairs_of_set [of a b] have "a \<in> set (dedupe (sort_hits (scan_hits geo mn sz cy cz)))"
      "b \<in> set (dedupe (sort_hits (scan_hits geo mn sz cy cz)))" by (simp_all add: p)
    then have "a \<in> set (scan_hits geo mn sz cy cz)" "b \<in> set (scan_hits geo mn sz cy cz)"
      using dedupe_set sort_hits_set by blast+
    then show ?thesis using assms by (simp add: p)
  qed
  then show ?thesis by (simp add: line_marks_def marked_by_def)
qed

lemma grid_marks_empty:
  assumes "\<And>cy cz. line_marks geo mn sz cy cz = {}"
  shows "grid_marks geo mn sz lo hi = {}"
  by (simp add: grid_marks_def assms)

lemma span_cells_NaN: "vx mn = NaN \<Longrightarrow> span_cells mn sz x0 x1 = {}"
  by (cases x0) (simp_all add: span_cells_def cell_coord_def minus_jsnum_def divide_jsnum_def
      times_jsnum_def less_eq_jsnum_def)

lemma span_cells_flat:
  "vx mn = Fin m \<Longrightarrow> vx sz = Fin 0 \<Longrightarrow> span_cells mn sz (Fin m) x1 = {}"
  by (simp add: span_cells_def cell_coord_def minus_jsnum_def divide_jsnum_def
      times_jsnum_def less_eq_jsnum_def)

lemma inside_cells_zero: "inside_cells (replicate n 0) = []"
  by (simp add: inside_cells_def truthy_at_def filter_empty_conv)

lemma shuffle_empty: "fst (shuffle rnd k []) = []"
  by (simp add: shuffle_def)

lemma with_marks_none: "with_marks vs {} vs' \<Longrightarrow> vs' = vs"
  by (auto simp: with_marks_def intro: nth_equalityI)

lemma no_marks_no_cache:
  assumes v: "voxelize rnd k geo st = Some (st', k')"
    and e: "grid_marks geo (bmin (bounds st)) (bsize (bounds st)) 0 GRID_SIZE = {}"
  shows "insideCache st' = []"
proof -
  let ?z = "replicate (GRID_SIZE * GRID_SIZE * GRID_SIZE) (0 :: 8 word)"
  obtain vs where vs: "scan_rows geo (bmin (bounds st)) (bsize (bounds st)) 0 GRID_SIZE ?z = Some vs"
    and m: "with_marks ?z (grid_marks geo (bmin (bounds st)) (bsize (bounds st)) 0 GRID_SIZE) vs"
    using scan_rows_marks by blast
  have z: "vs = ?z" using m unfolding e by (rule with_marks_none)
  let ?s0 = "st\<lparr>voxels := ?z, insideCache := []\<rparr>\<lparr>voxels := vs\<rparr>"
  have f: "finish_voxelize rnd k ?s0 = (st', k')"
    using v vs by (simp add: voxelize_def begin_voxelize_def)
  have "insideCache st' = fst (shuffle rnd k (inside_cells vs))"
    using f by (auto simp: finish_voxelize_def case_prod_beta)
  then show ?thesis unfolding z by (simp add: inside_cells_zero shuffle_empty)
qed

lemma collect_hits_set:
  "h \<in> set (collect_hits ox wy wz geo) \<longleftrightarrow>
   (\<exists>tri \<in> set geo. (case tri of (v0, v1, v2) \<Rightarrow> rayTriX ox wy wz v0 v1 v2) = Some h)"
  by (induction geo) (auto simp: collect_hits_def map_filter_simps split: option.splits)

lemma fin_geo_set:
  "tri \<in> set (fin_geo ts) \<longleftrightarrow> (\<exists>p0 p1 p2. (p0, p1, p2) \<in> set ts \<and> tri = (vfin p0, vfin p1, vfin p2))"
  by (induction ts) (auto simp: fin_geo_def)

lemma mt_a_flat_y: "py p0 = py p1 \<Longrightarrow> py p0 = py p2 \<Longrightarrow> mt_a p0 p1 p2 = 0"
  by (cases p0; cases p1; cases p2) (simp add: mt_a_def xdir_def)

lemma mt_a_flat_z: "pz p0 = pz p1 \<Longrightarrow> pz p0 = pz p2 \<Longrightarrow> mt_a p0 p1 p2 = 0"
  by (cases p0; cases p1; cases p2) (simp add: mt_a_def xdir_def)

lemma rayTriX_parallel:
  "mt_a p0 p1 p2 = 0 \<Longrightarrow> rayTriX (Fin ox) (Fin wy) (Fin wz) (vfin p0) (vfin p1) (vfin p2) = None"
  by (simp add: rayTriX_fin eps_def)

lemma rayTriX_flat_x:
  assumes x: "px p0 = X" "px p1 = X" "px p2 = X"
    and h: "rayTriX (Fin ox) (Fin wy) (Fin wz) (vfin p0) (vfin p1) (vfin p2) = Some h"
  shows "h = Fin X"
proof -
  let ?o = "(ox, wy, wz)"
  from h have a: "eps \<le> \<bar>mt_a p0 p1 p2\<bar>" and hv: "h = Fin (ox + mt_t ?o p0 p1 p2)"
    by (auto simp: rayTriX_fin split: if_splits)
  have "0 < eps" by (simp add: eps_def)
  with a have nz: "mt_a p0 p1 p2 \<noteq> 0" by auto
  have "px (padd ?o (pscale (mt_t ?o p0 p1 p2) xdir)) =
        px (padd p0 (padd (pscale (mt_u ?o p0 p1 p2) (psub p1 p0)) (pscale (mt_v ?o p0 p1 p2) (psub p2 p0))))"
    by (simp only: mt_point [OF nz])
  moreover have "px (padd ?o (pscale (mt_t ?o p0 p1 p2) xdir)) = ox + mt_t ?o p0 p1 p2"
    by (simp add: xdir_def)
  moreover have "px (padd p0 (padd (pscale (mt_u ?o p0 p1 p2) (psub p1 p0)) (pscale (mt_v ?o p0 p1 p2) (psub p2 p0)))) = X"
    using x by (cases p0; cases p1; cases p2) simp
  ultimately show ?thesis by (simp add: hv)
qed

text \<open>A mesh whose vertices agree in one coordinate.\<close>

lemma rvertices_set:
  "(p0, p1, p2) \<in> set ts \<Longrightarrow> p0 \<in> set (rvertices ts) \<and> p1 \<in> set (rvertices ts) \<and> p2 \<in> set (rvertices ts)"
  by (induction ts) (auto simp: rvertices_def)

lemma flat_y_no_hits:
  assumes "\<And>p. p \<in> set (rvertices ts) \<Longrightarrow> py p = Y"
  shows "collect_hits (Fin ox) (Fin wy) (Fin wz) (fin_geo ts) = []"
proof -
  have "h \<notin> set (collect_hits (Fin ox) (Fin wy) (Fin wz) (fin_geo ts))" for h
  proof
    assume "h \<in> set (collect_hits (Fin ox) (Fin wy) (Fin wz) (fin_geo ts))"
    then obtain p0 p1 p2 where t: "(p0, p1, p2) \<in> set ts"
      and r: "rayTriX (Fin ox) (Fin wy) (Fin wz) (vfin p0) (vfin p1) (vfin p2) = Some h"
      by (auto simp: collect_hits_set fin_geo_set)
    from rvertices_set [OF t] assms have "py p0 = py p1" "py p0 = py p2" by simp_all
    then have "mt_a p0 p1 p2 = 0" by (rule mt_a_flat_y)
    with r show False by (simp add: rayTriX_parallel)
  qed
  then show ?thesis by (cases "collect_hits (Fin ox) (Fin wy) (Fin wz) (fin_geo ts)") auto
qed

lemma flat_z_no_hits:
  assumes "\<And>p. p \<in> set (rvertices ts) \<Longrightarrow> pz p = Z"
  shows "collect_hits (Fin ox) (Fin wy) (Fin wz) (fin_geo ts) = []"
proof -
  have "h \<notin> set (collect_hits (Fin ox) (Fin wy) (Fin wz) (fin_geo ts))" for h
  proof
    assume "h \<in> set (collect_hits (Fin ox) (Fin wy) (Fin wz) (fin_geo ts))"
    then obtain p0 p1 p2 where t: "(p0, p1, p2) \<in> set ts"
      and r: "rayTriX (Fin ox) (Fin wy) (Fin wz) (vfin p0) (vfin p1) (vfin p2) = Some h"
      by (auto simp: collect_hits_set fin_geo_set)
    from rvertices_set [OF t] assms have "pz p0 = pz p1" "pz p0 = pz p2" by simp_all
    then have "mt_a p0 p1 p2 = 0" by (rule mt_a_flat_z)
    with r show False by (simp add: rayTriX_parallel)
  qed
  then show ?thesis by (cases "collect_hits (Fin ox) (Fin wy) (Fin wz) (fin_geo ts)") auto
qed

lemma flat_x_hits:
  assumes "\<And>p. p \<in> set (rvertices ts) \<Longrightarrow> px p = X"
    and "h \<in> set (collect_hits (Fin ox) (Fin wy) (Fin wz) (fin_geo ts))"
  shows "h = Fin X"
proof -
  from assms(2) obtain p0 p1 p2 where t: "(p0, p1, p2) \<in> set ts"
    and r: "rayTriX (Fin ox) (Fin wy) (Fin wz) (vfin p0) (vfin p1) (vfin p2) = Some h"
    by (auto simp: collect_hits_set fin_geo_set)
  from rvertices_set [OF t] assms(1) have "px p0 = X" "px p1 = X" "px p2 = X" by simp_all
  then show ?thesis using r by (rule rayTriX_flat_x)
qed

text \<open>The scanlines of a finite mesh in finite bounds.\<close>

lemma scan_hits_fin:
  "scan_hits geo (vfin (m1, m2, m3)) (vfin (s1, s2, s3)) cy cz =
     collect_hits (Fin (m1 - 1)) (Fin (m2 + (real cy + 1 / 2) / 32 * s2))
       (Fin (m3 + (real cz + 1 / 2) / 32 * s3)) geo"
  by (simp add: scan_hits_def cell_centre_fin)

lemma flat_mesh_no_marks:
  assumes lo: "\<And>p. p \<in> set (rvertices ts) \<Longrightarrow> m1 \<le> px p \<and> px p \<le> m1 + s1"
      "\<And>p. p \<in> set (rvertices ts) \<Longrightarrow> m2 \<le> py p \<and> py p \<le> m2 + s2"
      "\<And>p. p \<in> set (rvertices ts) \<Longrightarrow> m3 \<le> pz p \<and> pz p \<le> m3 + s3"
    and flat: "\<not> (0 < s1 \<and> 0 < s2 \<and> 0 < s3)"
    and nn: "0 \<le> s1"
  shows "line_marks (fin_geo ts) (vfin (m1, m2, m3)) (vfin (s1, s2, s3)) cy cz = {}"
proof (rule line_marks_empty)
  fix a b
  let ?hits = "scan_hits (fin_geo ts) (vfin (m1, m2, m3)) (vfin (s1, s2, s3)) cy cz"
  assume a: "a \<in> set ?hits" and b: "b \<in> set ?hits"
  consider (y) "s2 \<le> 0" | (z) "s3 \<le> 0" | (x) "s1 = 0" using flat nn by linarith
  then show "span_cells (vfin (m1, m2, m3)) (vfin (s1, s2, s3)) a b = {}"
  proof cases
    case y
    have "py p = m2" if "p \<in> set (rvertices ts)" for p using lo(2) [OF that] y by linarith
    then have "?hits = []" unfolding scan_hits_fin by (rule flat_y_no_hits)
    with a show ?thesis by simp
  next
    case z
    have "pz p = m3" if "p \<in> set (rvertices ts)" for p using lo(3) [OF that] z by linarith
    then have "?hits = []" unfolding scan_hits_fin by (rule flat_z_no_hits)
    with a show ?thesis by simp
  next
    case x
    have "px p = m1" if "p \<in> set (rvertices ts)" for p using lo(1) [OF that] x by linarith
    then have "a = Fin m1" using a unfolding scan_hits_fin by (rule flat_x_hits)
    then show ?thesis by (simp add: span_cells_flat x)
  qed
qed

lemma line_marks_no_mesh: "line_marks [] mn sz cy cz = {}"
  by (rule line_marks_empty) (simp add: scan_hits_def collect_hits_def map_filter_simps)

lemma voxelize_fields:
  assumes "voxelize rnd k geo st = Some (st', k')"
  shows "bounds st' = bounds st"
  using assms
  by (auto simp: voxelize_def begin_voxelize_def finish_voxelize_def case_prod_beta
      split: option.splits)

lemma loadFile_voxelize:
  assumes "loadFile rnd k geo st0 = Some (st, geo', k1)"
  obtains st2 where
    "voxelize rnd k (fst (normalize_mesh geo))
       (stop (st0\<lparr>isLoaded := False\<rparr>)\<lparr>bounds := snd (normalize_mesh geo)\<rparr>) = Some (st2, k1)"
    "st = st2\<lparr>isLoaded := True\<rparr>" "geo' = fst (normalize_mesh geo)"
  using assms
  by (auto simp: loadFile_def Let_def case_prod_beta split: option.splits)

lemma loaded_cache_ok:
  assumes "loadFile rnd k geo st0 = Some (st, geo', k1)"
  shows "cache_ok st"
proof -
  from assms obtain st2 where
    v: "voxelize rnd k (fst (normalize_mesh geo))
       (stop (st0\<lparr>isLoaded := False\<rparr>)\<lparr>bounds := snd (normalize_mesh geo)\<rparr>) = Some (st2, k1)"
    and st: "st = st2\<lparr>isLoaded := True\<rparr>"
    by (rule loadFile_voxelize)
  from voxelize_cache_ok [OF v] show ?thesis by (simp add: st cache_ok_def)
qed

text \<open>A normalized mesh that marks a cell has finite bounds of positive extent on every axis.\<close>

lemma normalized_marks_proper:
  assumes rng: "float32_range ts"
    and lm: "line_marks (fst (normalize_mesh (fin_geo ts))) (bmin (snd (normalize_mesh (fin_geo ts))))
      (bsize (snd (normalize_mesh (fin_geo ts)))) cy cz \<noteq> {}"
  shows "proper_bounds (snd (normalize_mesh (fin_geo ts)))"
proof -
  let ?g = "fst (normalize_mesh (fin_geo ts))" and ?b = "snd (normalize_mesh (fin_geo ts))"
  have tne: "ts \<noteq> []"
  proof
    assume "ts = []"
    then have "?g = []" by (simp add: fin_geo_def normalize_mesh_empty)
    with lm show False by (simp add: line_marks_no_mesh)
  qed
  have pos: "0 < half_extent ts"
  proof (rule ccontr)
    assume "\<not> 0 < half_extent ts"
    from normalize_mesh_point [OF tne rng this] have "vx (bmin ?b) = NaN" .
    then have "line_marks ?g (bmin ?b) (bsize ?b) cy cz = {}"
      by (intro line_marks_empty span_cells_NaN)
    with lm show False by simp
  qed
  define s where "s = 10 / (2 * half_extent ts)"
  define ax where "ax = f32_round (s * f32_round ((highest (map px (rvertices ts)) - lowest (map px (rvertices ts))) / 2))"
  define ay where "ay = f32_round (s * f32_round ((highest (map py (rvertices ts)) - lowest (map py (rvertices ts))) / 2))"
  define az where "az = f32_round (s * f32_round ((highest (map pz (rvertices ts)) - lowest (map pz (rvertices ts))) / 2))"
  note n = normalize_mesh_fin [OF tne rng pos, folded s_def, folded ax_def ay_def az_def]
  let ?ts' = "map_rtriangles (normal_map ts) ts"
  have g: "?g = fin_geo ?ts'" by (simp add: n(1))
  have mn: "bmin ?b = vfin (- ax, - ay, - az)" by (simp add: n(1))
  have sz: "bsize ?b = vfin (2 * ax, 2 * ay, 2 * az)" by (simp add: n(1))
  have all: "0 < 2 * ax \<and> 0 < 2 * ay \<and> 0 < 2 * az"
  proof (rule ccontr)
    assume flat: "\<not> (0 < 2 * ax \<and> 0 < 2 * ay \<and> 0 < 2 * az)"
    have "line_marks (fin_geo ?ts') (vfin (- ax, - ay, - az)) (vfin (2 * ax, 2 * ay, 2 * az)) cy cz = {}"
    proof (rule flat_mesh_no_marks [OF _ _ _ flat])
      fix q assume q: "q \<in> set (rvertices ?ts')"
      from n(4) [OF q] show "- ax \<le> px q \<and> px q \<le> - ax + 2 * ax" by (simp add: abs_le_iff)
      from n(4) [OF q] show "- ay \<le> py q \<and> py q \<le> - ay + 2 * ay" by (simp add: abs_le_iff)
      from n(4) [OF q] show "- az \<le> pz q \<and> pz q \<le> - az + 2 * az" by (simp add: abs_le_iff)
    next
      show "0 \<le> 2 * ax" using n(2) by simp
    qed
    with lm show False by (simp add: g mn sz)
  qed
  show ?thesis
    unfolding proper_bounds_def mn sz
    using all by (simp add: finite_vfin less_jsnum_def)
qed

lemma loaded_proper:
  assumes ld: "loadFile rnd k (fin_geo ts) st0 = Some (st, geo', k1)"
    and rng: "float32_range ts"
    and ne: "insideCache st \<noteq> []"
  shows "proper_bounds (bounds st)"
proof -
  let ?g = "fst (normalize_mesh (fin_geo ts))" and ?b = "snd (normalize_mesh (fin_geo ts))"
  let ?s1 = "stop (st0\<lparr>isLoaded := False\<rparr>)\<lparr>bounds := ?b\<rparr>"
  from ld obtain st2 where v: "voxelize rnd k ?g ?s1 = Some (st2, k1)"
    and st: "st = st2\<lparr>isLoaded := True\<rparr>"
    by (rule loadFile_voxelize)
  have b: "bounds st = ?b" using voxelize_fields [OF v] by (simp add: st)
  have "insideCache st2 \<noteq> []" using ne by (simp add: st)
  with no_marks_no_cache [OF v] have "grid_marks ?g (bmin (bounds ?s1)) (bsize (bounds ?s1)) 0 GRID_SIZE \<noteq> {}"
    by blast
  then have gm: "grid_marks ?g (bmin ?b) (bsize ?b) 0 GRID_SIZE \<noteq> {}" by simp
  then obtain cy cz where lm: "line_marks ?g (bmin ?b) (bsize ?b) cy cz \<noteq> {}"
    using grid_marks_empty [of ?g "bmin ?b" "bsize ?b" 0 GRID_SIZE] by blast
  show ?thesis unfolding b using rng lm by (rule normalized_marks_proper)
qed

text \<open>
  Claim C9, as the code has it. \<open>st\<close> is the state that one \<open>loadFile\<close>, with no other load
  started while it was suspended, leaves for a mesh with coordinates in the range of the
  finite 32-bit floats (the simulation writes neither the grid, nor the cache, nor the
  bounds afterwards), and \<open>Math.random\<close> returns numbers in \<open>[0, 1)\<close>. If the cache of
  interior cells is not empty, then for every target and every \<open>maxTries\<close> the sampler
  returns, without an error, a point that the voxel grid classifies as interior: the
  accepted random candidate, or the centre of a cached cell, which lies in that cell.
\<close>

theorem sampler_returns_interior_point:
  assumes "loadFile rnd k (fin_geo ts) st0 = Some (st, geo', k1)"
    and "float32_range ts"
    and "rng_ok rnd"
    and "insideCache st \<noteq> []"
  shows "\<exists>p k'. findInsidePointNear st rnd k2 target maxTries = Inr (p, k') \<and> isInside st p"
  using findInsidePointNear_inside [OF loaded_proper [OF assms(1,2,4)] loaded_cache_ok [OF assms(1)] assms(3,4)] .

lemma all_cells_mem:
  "cx < GRID_SIZE \<Longrightarrow> cy < GRID_SIZE \<Longrightarrow> cz < GRID_SIZE \<Longrightarrow> \<lparr>ix = cx, iy = cy, iz = cz\<rparr> \<in> set all_cells"
  unfolding all_cells_def by (simp, intro bexI [of _ cx] bexI [of _ cy]) auto

lemma marks_give_cache:
  assumes v: "voxelize rnd k geo st = Some (st', k')"
    and j: "cx * GRID_SIZE * GRID_SIZE + cy * GRID_SIZE + cz \<in>
      grid_marks geo (bmin (bounds st)) (bsize (bounds st)) 0 GRID_SIZE"
    and r: "cx < GRID_SIZE" "cy < GRID_SIZE" "cz < GRID_SIZE"
  shows "insideCache st' \<noteq> []"
proof -
  let ?z = "replicate (GRID_SIZE * GRID_SIZE * GRID_SIZE) (0 :: 8 word)"
  let ?j = "cx * GRID_SIZE * GRID_SIZE + cy * GRID_SIZE + cz"
  let ?c = "\<lparr>ix = cx, iy = cy, iz = cz\<rparr>"
  obtain vs where vs: "scan_rows geo (bmin (bounds st)) (bsize (bounds st)) 0 GRID_SIZE ?z = Some vs"
    and m: "with_marks ?z (grid_marks geo (bmin (bounds st)) (bsize (bounds st)) 0 GRID_SIZE) vs"
    using scan_rows_marks by blast
  have jl: "?j < GRID_SIZE * GRID_SIZE * GRID_SIZE" using r by (simp add: GRID_SIZE_def)
  have "vs ! ?j = 1" "length vs = GRID_SIZE * GRID_SIZE * GRID_SIZE"
    using m j jl by (simp_all add: with_marks_def)
  then have "truthy_at vs (cell_index ?c)" using jl by (simp add: truthy_at_def cell_index_def)
  then have c: "?c \<in> set (inside_cells vs)" using all_cells_mem [OF r] by (simp add: inside_cells_def)
  let ?s0 = "st\<lparr>voxels := ?z, insideCache := []\<rparr>\<lparr>voxels := vs\<rparr>"
  have f: "finish_voxelize rnd k ?s0 = (st', k')"
    using v vs by (simp add: voxelize_def begin_voxelize_def)
  have "insideCache st' = fst (shuffle rnd k (inside_cells vs))"
    using f by (auto simp: finish_voxelize_def case_prod_beta)
  then have "mset (insideCache st') = mset (inside_cells vs)" by (simp add: shuffle_mset)
  then have "set (insideCache st') = set (inside_cells vs)" by (rule mset_eq_setD)
  with c show ?thesis by auto
qed

lemma two_planes_hits:
  "scan_hits (fin_geo two_planes) (bmin cube_bounds) (bsize cube_bounds) 0 0 = map Fin [- 5, 5]"
proof -
  show ?thesis
    by (simp add: scan_hits_def collect_hits_def two_planes_def fin_geo_def cube_bounds_def
      cell_centre_fin rayTriX_fin mt_a_def mt_u_def mt_v_def mt_t_def xdir_def eps_def
      map_filter_simps)
qed

lemma two_planes_marks:
  "0 \<in> line_marks (fin_geo two_planes) (bmin cube_bounds) (bsize cube_bounds) 0 0"
proof -
  have d: "dedupe (sort_hits (map Fin [- 5, 5])) = map Fin [- 5, 5]"
    by (simp add: sort_hits_def)
  have "0 \<in> span_cells (bmin cube_bounds) (bsize cube_bounds) (Fin (- 5)) (Fin 5)"
    by (simp add: span_cells_def cube_bounds_def cell_coord_fin G_val less_eq_jsnum_def)
  then show ?thesis
    unfolding line_marks_def two_planes_hits d marked_by_def by force
qed

lemma loaded_planes_cache:
  "\<exists>geo' k1. loadFile half_rng 0 (fin_geo two_planes) (cube_layout []) = Some (loaded_planes, geo', k1) \<and>
     insideCache loaded_planes \<noteq> []"
proof -
  let ?s1 = "stop (cube_layout []\<lparr>isLoaded := False\<rparr>)\<lparr>bounds := cube_bounds\<rparr>"
  obtain st2 k1 where v: "voxelize half_rng 0 (fin_geo two_planes) ?s1 = Some (st2, k1)"
    using voxelize_total by blast
  have ld: "loadFile half_rng 0 (fin_geo two_planes) (cube_layout []) =
      Some (st2\<lparr>isLoaded := True\<rparr>, fin_geo two_planes, k1)"
    by (simp add: loadFile_def Let_def two_planes_normalized v)
  then have lp: "loaded_planes = st2\<lparr>isLoaded := True\<rparr>" by (simp add: loaded_planes_def)
  have "0 \<in> grid_marks (fin_geo two_planes) (bmin cube_bounds) (bsize cube_bounds) 0 GRID_SIZE"
    using two_planes_marks by (auto simp: grid_marks_def GRID_SIZE_def intro!: bexI [of _ 0])
  then have "0 * GRID_SIZE * GRID_SIZE + 0 * GRID_SIZE + 0 \<in>
      grid_marks (fin_geo two_planes) (bmin (bounds ?s1)) (bsize (bounds ?s1)) 0 GRID_SIZE"
    by simp
  from marks_give_cache [OF v this] have "insideCache st2 \<noteq> []" by (simp add: GRID_SIZE_def)
  then show ?thesis using ld by (simp add: lp)
qed

text \<open>
  The statement at the mesh of two triangles in the planes \<open>x = -5\<close> and \<open>x = 5\<close>: the
  scanline \<open>(0, 0)\<close> meets both, its cells are marked, and the cache is not empty.
\<close>

theorem sampler_returns_interior_point_witness:
  "float32_range two_planes \<and> rng_ok half_rng \<and> insideCache loaded_planes \<noteq> [] \<and>
   (\<exists>p k'. findInsidePointNear loaded_planes half_rng 0 (vfin (0, 0, 0)) 30 = Inr (p, k') \<and>
      isInside loaded_planes p)"
proof -
  obtain geo' k1 where ld: "loadFile half_rng 0 (fin_geo two_planes) (cube_layout []) = Some (loaded_planes, geo', k1)"
    and ne: "insideCache loaded_planes \<noteq> []"
    using loaded_planes_cache by blast
  have r: "rng_ok half_rng" by (simp add: rng_ok_def half_rng_def)
  have f: "float32_range two_planes"
    by (simp add: float32_range_def two_planes_def rvertices_def max_float32_def)
  from sampler_returns_interior_point [OF ld f r ne, of 0 "vfin (0, 0, 0)" 30] r ne f
  show ?thesis by blast
qed

section \<open>A load that starts while a voxelization is pending\<close>

lemma fold_opt_append:
  "fold_opt f (xs @ ys) s = (case fold_opt f xs s of None \<Rightarrow> None | Some s' \<Rightarrow> fold_opt f ys s')"
  by (induction xs arbitrary: s) (auto split: option.splits)

lemma scan_rows_split:
  assumes "lo \<le> mid" "mid \<le> hi"
  shows "scan_rows geo mn sz lo hi vs =
     (case scan_rows geo mn sz lo mid vs of None \<Rightarrow> None | Some vs' \<Rightarrow> scan_rows geo mn sz mid hi vs')"
proof -
  have "[lo ..< hi] = [lo ..< mid] @ [mid ..< hi]"
    using assms by (metis le_Suc_ex upt_add_eq_append)
  then show ?thesis by (simp add: scan_rows_def fold_opt_append split: option.splits)
qed

text \<open>One resumption of a job, in any state of the layout.\<close>

lemma resume_voxelize_marks:
  "\<exists>st2 k'. resume_voxelize rnd k j st =
       Some (if jrow j + 4 < GRID_SIZE then Some (j\<lparr>jrow := jrow j + 4\<rparr>) else None, st2, k') \<and>
     with_marks (voxels st)
       (grid_marks (jgeo j) (jmin j) (jsize j) (jrow j) (min (jrow j + 4) GRID_SIZE)) (voxels st2) \<and>
     (if jrow j + 4 < GRID_SIZE then insideCache st2 = insideCache st \<and> k' = k
      else mset (insideCache st2) = mset (insideCache st) + mset (inside_cells (voxels st2)))"
proof -
  obtain vs where vs: "scan_rows (jgeo j) (jmin j) (jsize j) (jrow j) (min (jrow j + 4) GRID_SIZE) (voxels st) = Some vs"
    and m: "with_marks (voxels st)
       (grid_marks (jgeo j) (jmin j) (jsize j) (jrow j) (min (jrow j + 4) GRID_SIZE)) vs"
    using scan_rows_marks by blast
  show ?thesis
  proof (cases "jrow j + 4 < GRID_SIZE")
    case True
    then show ?thesis using vs m by (simp add: resume_voxelize_def)
  next
    case False
    then show ?thesis using vs m
      by (simp add: resume_voxelize_def finish_voxelize_def case_prod_beta shuffle_mset)
  qed
qed

text \<open>A job that nothing interrupts is the whole voxelization.\<close>

lemma run_job_rows:
  assumes "jrow j + 4 * n = GRID_SIZE" "0 < n"
    and "scan_rows (jgeo j) (jmin j) (jsize j) (jrow j) GRID_SIZE (voxels st) = Some vs"
  shows "run_job n rnd k j st = Some (finish_voxelize rnd k (st\<lparr>voxels := vs\<rparr>))"
  using assms
proof (induction n arbitrary: j st)
  case 0
  then show ?case by simp
next
  case (Suc n)
  let ?mid = "min (jrow j + 4) GRID_SIZE"
  have le: "jrow j \<le> ?mid" "?mid \<le> GRID_SIZE" using Suc.prems(1) by simp_all
  obtain vs1 where vs1: "scan_rows (jgeo j) (jmin j) (jsize j) (jrow j) ?mid (voxels st) = Some vs1"
    using scan_rows_marks by blast
  from Suc.prems(3) scan_rows_split [OF le, of "jgeo j" "jmin j" "jsize j" "voxels st"] vs1
  have rest: "scan_rows (jgeo j) (jmin j) (jsize j) ?mid GRID_SIZE vs1 = Some vs" by simp
  show ?case
  proof (cases n)
    case 0
    then have e: "jrow j + 4 = GRID_SIZE" using Suc.prems(1) by simp
    then have "?mid = GRID_SIZE" by simp
    with rest have "vs1 = vs" by (simp add: scan_rows_def)
    then show ?thesis using vs1 e 0
      by (simp add: resume_voxelize_def case_prod_beta)
  next
    case (Suc m)
    then have lt: "jrow j + 4 < GRID_SIZE" using Suc.prems(1) by simp
    then have mid: "?mid = jrow j + 4" by simp
    let ?j = "j\<lparr>jrow := jrow j + 4\<rparr>" and ?st = "st\<lparr>voxels := vs1\<rparr>"
    have r: "resume_voxelize rnd k j st = Some (Some ?j, ?st, k)"
      using vs1 lt by (simp add: resume_voxelize_def)
    have "run_job n rnd k ?j ?st = Some (finish_voxelize rnd k (?st\<lparr>voxels := vs\<rparr>))"
    proof (rule Suc.IH)
      show "jrow ?j + 4 * n = GRID_SIZE" using Suc.prems(1) by simp
      show "0 < n" using Suc by simp
      show "scan_rows (jgeo ?j) (jmin ?j) (jsize ?j) (jrow ?j) GRID_SIZE (voxels ?st) = Some vs"
        using rest mid by simp
    qed
    then show ?thesis using r by simp
  qed
qed

lemma run_job_voxelize:
  "run_job 8 rnd k (fst (begin_voxelize geo st)) (snd (begin_voxelize geo st)) = voxelize rnd k geo st"
proof -
  let ?j = "fst (begin_voxelize geo st)" and ?s = "snd (begin_voxelize geo st)"
  obtain vs where vs: "scan_rows (jgeo ?j) (jmin ?j) (jsize ?j) (jrow ?j) GRID_SIZE (voxels ?s) = Some vs"
    using scan_rows_marks by blast
  have "jrow ?j + 4 * 8 = GRID_SIZE" by (simp add: begin_voxelize_def GRID_SIZE_def)
  from run_job_rows [OF this _ vs, of rnd k]
  have "run_job 8 rnd k ?j ?s = Some (finish_voxelize rnd k (?s\<lparr>voxels := vs\<rparr>))" by simp
  moreover have "voxelize rnd k geo st = Some (finish_voxelize rnd k (?s\<lparr>voxels := vs\<rparr>))"
    using vs by (simp add: voxelize_def begin_voxelize_def)
  ultimately show ?thesis by simp
qed

lemma begin_load_fresh:
  "voxels (snd (begin_load geo st)) = replicate (GRID_SIZE * GRID_SIZE * GRID_SIZE) 0 \<and>
   insideCache (snd (begin_load geo st)) = [] \<and>
   bounds (snd (begin_load geo st)) = snd (normalize_mesh geo) \<and>
   fst (begin_load geo st) =
     \<lparr>jgeo = fst (normalize_mesh geo), jmin = bmin (snd (normalize_mesh geo)),
      jsize = bsize (snd (normalize_mesh geo)), jrow = 0\<rparr>"
  by (simp add: begin_load_def begin_voxelize_def Let_def case_prod_beta)

lemma loadFile_begin_load:
  "loadFile rnd k geo st =
     (case run_job 8 rnd k (fst (begin_load geo st)) (snd (begin_load geo st)) of
        None \<Rightarrow> None
      | Some (st2, k') \<Rightarrow> Some (st2\<lparr>isLoaded := True\<rparr>, fst (normalize_mesh geo), k'))"
proof -
  let ?s1 = "stop (st\<lparr>isLoaded := False\<rparr>)\<lparr>bounds := snd (normalize_mesh geo)\<rparr>"
  have "begin_load geo st = begin_voxelize (fst (normalize_mesh geo)) ?s1"
    by (simp add: begin_load_def Let_def case_prod_beta)
  then show ?thesis
    by (simp add: run_job_voxelize loadFile_def Let_def case_prod_beta)
qed

text \<open>
  Claim C10, as the code has it. A new load replaces the grid and the cache by empty ones,
  so what a pending job had written is gone. The pending job is not cancelled: the code
  keeps no token or generation count, and whenever the job resumes at its checkpoint, in
  whatever state \<open>cur\<close> the layout is then, it returns, scans its next four rows with its own
  mesh and the bounds it started with, and writes the cells these rows mark into the
  grid of \<open>cur\<close>, the one the newest load installed. It goes on to its next checkpoint, or,
  after its last row, appends the marked cells of that grid to the cache of \<open>cur\<close>.
\<close>

theorem new_load_leaves_old_job_running:
  fixes old :: job and cur :: layout
  shows "voxels (snd (begin_load geo st)) = replicate (GRID_SIZE * GRID_SIZE * GRID_SIZE) 0 \<and>
    insideCache (snd (begin_load geo st)) = [] \<and>
    (\<exists>st2 k'. resume_voxelize rnd k old cur =
         Some (if jrow old + 4 < GRID_SIZE then Some (old\<lparr>jrow := jrow old + 4\<rparr>) else None, st2, k') \<and>
       with_marks (voxels cur)
         (grid_marks (jgeo old) (jmin old) (jsize old) (jrow old) (min (jrow old + 4) GRID_SIZE))
         (voxels st2) \<and>
       (if jrow old + 4 < GRID_SIZE then insideCache st2 = insideCache cur
        else mset (insideCache st2) = mset (insideCache cur) + mset (inside_cells (voxels st2))))"
proof -
  from resume_voxelize_marks [of rnd k old cur] obtain st2 k' where
    "resume_voxelize rnd k old cur =
       Some (if jrow old + 4 < GRID_SIZE then Some (old\<lparr>jrow := jrow old + 4\<rparr>) else None, st2, k')"
    "with_marks (voxels cur)
       (grid_marks (jgeo old) (jmin old) (jsize old) (jrow old) (min (jrow old + 4) GRID_SIZE)) (voxels st2)"
    "if jrow old + 4 < GRID_SIZE then insideCache st2 = insideCache cur \<and> k' = k
     else mset (insideCache st2) = mset (insideCache cur) + mset (inside_cells (voxels st2))"
    by blast
  then have "\<exists>st2 k'. resume_voxelize rnd k old cur =
         Some (if jrow old + 4 < GRID_SIZE then Some (old\<lparr>jrow := jrow old + 4\<rparr>) else None, st2, k') \<and>
       with_marks (voxels cur)
         (grid_marks (jgeo old) (jmin old) (jsize old) (jrow old) (min (jrow old + 4) GRID_SIZE))
         (voxels st2) \<and>
       (if jrow old + 4 < GRID_SIZE then insideCache st2 = insideCache cur
        else mset (insideCache st2) = mset (insideCache cur) + mset (inside_cells (voxels st2)))"
    by (cases "jrow old + 4 < GRID_SIZE") auto
  then show ?thesis using begin_load_fresh [of geo st] by blast
qed

lemma old_job_val:
  "fst old_job = \<lparr>jgeo = fin_geo two_planes, jmin = bmin cube_bounds, jsize = bsize cube_bounds, jrow = 0\<rparr>"
  using begin_load_fresh [of "fin_geo two_planes" "cube_layout []"]
  by (simp add: old_job_def two_planes_normalized)

lemma new_load_fresh:
  "voxels (snd new_load) = replicate (GRID_SIZE * GRID_SIZE * GRID_SIZE) 0" "insideCache (snd new_load) = []"
  using begin_load_fresh [of "fin_geo one_triangle" "snd old_job"] by (simp_all add: new_load_def)

lemma old_job_rows_mark:
  "0 \<in> grid_marks (fin_geo two_planes) (bmin cube_bounds) (bsize cube_bounds) 0 4"
  using two_planes_marks by (auto simp: grid_marks_def GRID_SIZE_def intro!: bexI [of _ 0])

lemma old_job_resumed:
  "\<exists>st2 k'. resume_voxelize half_rng 0 (fst old_job) (snd new_load) =
       Some (Some ((fst old_job)\<lparr>jrow := 4\<rparr>), st2, k') \<and>
     with_marks (voxels (snd new_load))
       (grid_marks (fin_geo two_planes) (bmin cube_bounds) (bsize cube_bounds) 0 4) (voxels st2) \<and>
     voxels st2 ! 0 = 1 \<and> insideCache st2 = []"
proof -
  have lt: "jrow (fst old_job) + 4 < GRID_SIZE" by (simp add: old_job_val GRID_SIZE_def)
  from resume_voxelize_marks [of half_rng 0 "fst old_job" "snd new_load"] lt
  obtain st2 k' where r: "resume_voxelize half_rng 0 (fst old_job) (snd new_load) =
       Some (Some ((fst old_job)\<lparr>jrow := jrow (fst old_job) + 4\<rparr>), st2, k')"
    and m: "with_marks (voxels (snd new_load))
       (grid_marks (jgeo (fst old_job)) (jmin (fst old_job)) (jsize (fst old_job)) (jrow (fst old_job))
          (min (jrow (fst old_job) + 4) GRID_SIZE)) (voxels st2)"
    and c: "insideCache st2 = insideCache (snd new_load)"
    by auto
  have m': "with_marks (voxels (snd new_load))
       (grid_marks (fin_geo two_planes) (bmin cube_bounds) (bsize cube_bounds) 0 4) (voxels st2)"
    using m by (simp add: old_job_val GRID_SIZE_def)
  have "voxels st2 ! 0 = 1"
    using m' old_job_rows_mark by (simp add: with_marks_def new_load_fresh GRID_SIZE_def)
  moreover have "(fst old_job)\<lparr>jrow := jrow (fst old_job) + 4\<rparr> = (fst old_job)\<lparr>jrow := 4\<rparr>"
    by (simp add: old_job_val)
  ultimately show ?thesis using r m' c by (simp add: new_load_fresh)
qed

lemma one_triangle_flat:
  "grid_marks (fst (normalize_mesh (fin_geo one_triangle))) (bmin (snd (normalize_mesh (fin_geo one_triangle))))
     (bsize (snd (normalize_mesh (fin_geo one_triangle)))) lo hi = {}"
proof (rule grid_marks_empty, rule ccontr)
  fix cy cz
  let ?b = "snd (normalize_mesh (fin_geo one_triangle))"
  assume "line_marks (fst (normalize_mesh (fin_geo one_triangle))) (bmin ?b) (bsize ?b) cy cz \<noteq> {}"
  with one_triangle_range have "proper_bounds ?b" by (rule normalized_marks_proper)
  with one_triangle_flat_bounds show False by simp
qed

text \<open>
  Claim C10 as stated says that the previous job writes nothing after its checkpoint and
  that nothing of it reaches the grid of the new load. Here the job of the two planes is
  pending when the flat triangle is loaded. Cell \<open>0\<close> of the new grid is \<open>0\<close>; the old job
  resumes, is not cancelled (it waits before row 4 afterwards), and cell \<open>0\<close> of the new
  grid is \<open>1\<close>, although the new mesh itself marks no cell at all.
\<close>

theorem old_job_writes_new_grid_counterexample:
  "voxels (snd new_load) ! 0 = 0 \<and>
   resume_voxelize half_rng 0 (fst old_job) (snd new_load) = Some old_resumed \<and>
   fst old_resumed = Some ((fst old_job)\<lparr>jrow := 4\<rparr>) \<and>
   voxels (fst (snd old_resumed)) ! 0 = 1 \<and>
   grid_marks (jgeo (fst new_load)) (jmin (fst new_load)) (jsize (fst new_load)) 0 GRID_SIZE = {}"
proof -
  obtain st2 k' where r: "resume_voxelize half_rng 0 (fst old_job) (snd new_load) =
       Some (Some ((fst old_job)\<lparr>jrow := 4\<rparr>), st2, k')"
    and v: "voxels st2 ! 0 = 1"
    using old_job_resumed by blast
  have o: "old_resumed = (Some ((fst old_job)\<lparr>jrow := 4\<rparr>), st2, k')"
    by (simp add: old_resumed_def r)
  have z: "voxels (snd new_load) ! 0 = 0" by (simp add: new_load_fresh GRID_SIZE_def)
  have n: "fst new_load =
     \<lparr>jgeo = fst (normalize_mesh (fin_geo one_triangle)), jmin = bmin (snd (normalize_mesh (fin_geo one_triangle))),
      jsize = bsize (snd (normalize_mesh (fin_geo one_triangle))), jrow = 0\<rparr>"
    using begin_load_fresh [of "fin_geo one_triangle" "snd old_job"] by (simp add: new_load_def)
  have g: "grid_marks (jgeo (fst new_load)) (jmin (fst new_load)) (jsize (fst new_load)) 0 GRID_SIZE = {}"
    by (simp add: n one_triangle_flat)
  show ?thesis using z r v g by (simp add: o)
qed

text \<open>The statement at the same two loads, for the first resumption of the old job.\<close>

theorem new_load_leaves_old_job_running_witness:
  "voxels (snd new_load) = replicate (GRID_SIZE * GRID_SIZE * GRID_SIZE) 0 \<and>
   insideCache (snd new_load) = [] \<and>
   jrow (fst old_job) + 4 < GRID_SIZE \<and>
   (\<exists>st2 k'. resume_voxelize half_rng 0 (fst old_job) (snd new_load) =
        Some (Some ((fst old_job)\<lparr>jrow := 4\<rparr>), st2, k') \<and>
      with_marks (voxels (snd new_load))
        (grid_marks (fin_geo two_planes) (bmin cube_bounds) (bsize cube_bounds) 0 4) (voxels st2) \<and>
      insideCache st2 = [])"
proof -
  have lt: "jrow (fst old_job) + 4 < GRID_SIZE" by (simp add: old_job_val GRID_SIZE_def)
  note inst = new_load_leaves_old_job_running [of "fin_geo one_triangle" "snd old_job" half_rng 0
      "fst old_job" "snd new_load", folded new_load_def]
  from inst lt show ?thesis
    by (auto simp: old_job_val GRID_SIZE_def)
qed

section \<open>The sampler after two loads that overlapped\<close>

text \<open>Bounds without extent on an axis: no point is interior.\<close>

lemma cell_coord_flat: "\<not> is_finite (cell_coord p mn (Fin 0))"
  by (cases p; cases mn) (simp_all add: cell_coord_def minus_jsnum_def divide_jsnum_def times_jsnum_def G_val)

lemma isInside_flat_z:
  assumes "vz (bsize (bounds st)) = Fin 0"
  shows "\<not> isInside st p"
proof -
  let ?mn = "bmin (bounds st)" and ?sz = "bsize (bounds st)"
  let ?cx = "cell_coord (vx p) (vx ?mn) (vx ?sz)"
  let ?cy = "cell_coord (vy p) (vy ?mn) (vy ?sz)"
  let ?cz = "cell_coord (vz p) (vz ?mn) (vz ?sz)"
  have "\<not> is_finite ?cz" unfolding assms by (rule cell_coord_flat)
  then have "?cz < Fin 0 \<or> ?cz \<ge> G \<or> ?cz = NaN" by (rule nonfinite_cases)
  then show ?thesis
    by (auto simp: isInside_def Let_def)
qed

text \<open>The sampler returns whenever the cache is not empty.\<close>

lemma findInsidePointNear_returns:
  assumes r: "rng_ok rnd" and ne: "insideCache st \<noteq> []" and len: "length (insideCache st) < 2 ^ 31"
  shows "\<exists>p k'. findInsidePointNear st rnd k target maxTries = Inr (p, k')"
proof -
  let ?spread = "length_vec (bsize (bounds st)) * Fin (1 / 4)"
  obtain q k1 where t: "try_random st rnd k target ?spread maxTries = (q, k1)"
    by (cases "try_random st rnd k target ?spread maxTries")
  show ?thesis
  proof (cases q)
    case (Some p)
    then show ?thesis using t by (simp add: findInsidePointNear_def Let_def)
  next
    case None
    obtain best' k2 where s: "sample_cache st rnd k1 target None PInf (min 60 (length (insideCache st))) = Inr (best', k2)"
      using sample_cache_result [OF r ne len] by blast
    show ?thesis
    proof (cases best')
      case (Some p)
      then show ?thesis using t None s by (simp add: findInsidePointNear_def Let_def)
    next
      case None': None
      obtain c cs where cs: "insideCache st = c # cs" using ne by (cases "insideCache st") auto
      then have "cache_at (insideCache st) 0 = Inr c" by (simp add: cache_at_def)
      then show ?thesis using t None s None' by (simp add: findInsidePointNear_def Let_def)
    qed
  qed
qed

text \<open>The old job run to its end in the state of the new load.\<close>

lemma race_state_fields:
  "insideCache race_state \<noteq> [] \<and> length (insideCache race_state) < 2 ^ 31 \<and>
   bounds race_state = snd (normalize_mesh (fin_geo one_triangle))"
proof -
  let ?j = "fst old_job" and ?s = "snd new_load"
  let ?z = "replicate (GRID_SIZE * GRID_SIZE * GRID_SIZE) (0 :: 8 word)"
  obtain vs where vs: "scan_rows (jgeo ?j) (jmin ?j) (jsize ?j) (jrow ?j) GRID_SIZE (voxels ?s) = Some vs"
    and m: "with_marks (voxels ?s) (grid_marks (jgeo ?j) (jmin ?j) (jsize ?j) (jrow ?j) GRID_SIZE) vs"
    using scan_rows_marks by blast
  have "jrow ?j + 4 * 8 = GRID_SIZE" by (simp add: old_job_val GRID_SIZE_def)
  from run_job_rows [OF this _ vs, of half_rng 0]
  have run: "run_job 8 half_rng 0 ?j ?s = Some (finish_voxelize half_rng 0 (?s\<lparr>voxels := vs\<rparr>))" by simp
  then have rs: "race_state = fst (finish_voxelize half_rng 0 (?s\<lparr>voxels := vs\<rparr>))"
    by (simp add: race_state_def)
  have cache: "insideCache race_state = fst (shuffle half_rng 0 (inside_cells vs))"
    by (simp add: rs finish_voxelize_def case_prod_beta new_load_fresh)
  have b: "bounds race_state = snd (normalize_mesh (fin_geo one_triangle))"
    using begin_load_fresh [of "fin_geo one_triangle" "snd old_job"]
    by (simp add: rs finish_voxelize_def case_prod_beta new_load_def)
  have ms: "mset (insideCache race_state) = mset (inside_cells vs)" by (simp add: cache shuffle_mset)
  have m': "with_marks ?z (grid_marks (fin_geo two_planes) (bmin cube_bounds) (bsize cube_bounds) 0 GRID_SIZE) vs"
    using m by (simp add: old_job_val new_load_fresh)
  have "0 \<in> grid_marks (fin_geo two_planes) (bmin cube_bounds) (bsize cube_bounds) 0 GRID_SIZE"
    using two_planes_marks by (auto simp: grid_marks_def GRID_SIZE_def intro!: bexI [of _ 0])
  then have "vs ! 0 = 1" "length vs = GRID_SIZE * GRID_SIZE * GRID_SIZE"
    using m' by (simp_all add: with_marks_def GRID_SIZE_def)
  then have "truthy_at vs (cell_index \<lparr>ix = 0, iy = 0, iz = 0\<rparr>)"
    by (simp add: truthy_at_def cell_index_def GRID_SIZE_def)
  moreover have "\<lparr>ix = 0, iy = 0, iz = 0\<rparr> \<in> set all_cells"
    by (rule all_cells_mem) (simp_all add: GRID_SIZE_def)
  ultimately have "\<lparr>ix = 0, iy = 0, iz = 0\<rparr> \<in> set (inside_cells vs)" by (simp add: inside_cells_def)
  moreover have "set (insideCache race_state) = set (inside_cells vs)" using ms by (rule mset_eq_setD)
  ultimately have ne: "insideCache race_state \<noteq> []" by auto
  have "length (insideCache race_state) = length (inside_cells vs)" using ms by (rule mset_eq_length)
  also have "\<dots> \<le> length all_cells" by (simp add: inside_cells_def)
  also have "\<dots> < 2 ^ 31" by (simp add: length_all_cells GRID_SIZE_def)
  finally show ?thesis using ne b by simp
qed

lemma race_state_flat: "vz (bsize (bounds race_state)) = Fin 0"
proof -
  have ne: "one_triangle \<noteq> []" by (simp add: one_triangle_def)
  have pos: "0 < half_extent one_triangle"
    by (rule half_extent_pos) (simp add: one_triangle_extent)
  have z: "lowest (map pz (rvertices one_triangle)) = 0" "highest (map pz (rvertices one_triangle)) = 0"
    by (simp_all add: one_triangle_def rvertices_def lowest_def highest_def)
  show ?thesis
    using race_state_fields
    by (simp add: normalize_mesh_fin(1) [OF ne one_triangle_range pos] z)
qed

text \<open>
  Claim C9 as stated asks only for a cache that is not empty. Here the flat triangle was
  loaded while the job of the two planes was pending, and that job ran to its end: the
  cache holds the cells it marked, the bounds are those of the flat triangle, without
  extent in \<open>z\<close>, and no point is interior. The sampler returns the centre of a cached
  cell, and the grid classifies it as exterior.
\<close>

theorem sampler_after_race_counterexample:
  "insideCache race_state \<noteq> [] \<and>
   findInsidePointNear race_state half_rng 0 (vfin (0, 0, 0)) 30 = Inr race_sample \<and>
   \<not> isInside race_state (fst race_sample)"
proof -
  have r: "rng_ok half_rng" by (simp add: rng_ok_def half_rng_def)
  from race_state_fields have ne: "insideCache race_state \<noteq> []"
    and len: "length (insideCache race_state) < 2 ^ 31" by simp_all
  from findInsidePointNear_returns [OF r ne len, of 0 "vfin (0, 0, 0)" 30]
  obtain p k' where f: "findInsidePointNear race_state half_rng 0 (vfin (0, 0, 0)) 30 = Inr (p, k')"
    by blast
  then have s: "race_sample = (p, k')" by (simp add: race_sample_def)
  have "\<not> isInside race_state p" using race_state_flat by (rule isInside_flat_z)
  with ne f show ?thesis by (simp add: s)
qed

end
